theory Spec2Isabelle
  imports Main
begin

section \<open>Tokens (token.h)\<close>

datatype TokenType =
    EndOfFile | Newline | Indent | Dedent
  | Identifier | IntegerLiteral | DoubleLiteral | StringLiteral
  | KeywordInteger | KeywordDouble | KeywordString | KeywordLogic
  | KeywordIf | KeywordElse | KeywordWhile | KeywordFor
  | KeywordInput | KeywordOutput
  | KeywordAnd | KeywordOr | KeywordNot
  | KeywordFrom | KeywordTo | KeywordTrue | KeywordFalse
  | LeftParen | RightParen
  | Plus | Minus | Star | Slash | Percent | Caret
  | Assign | Equal | Less | LessEqual | Greater | GreaterEqual
  | Comma

text \<open>\<^verbatim>\<open>struct Token { TokenType type; std::string lexeme; std::size_t line; std::size_t column; }\<close>\<close>

datatype Token = Token (ttype: TokenType) (lexeme: string) (tline: nat) (tcolumn: nat)

definition isTypeKeyword :: "TokenType \<Rightarrow> bool" where
  "isTypeKeyword t \<longleftrightarrow>
     t = KeywordInteger \<or> t = KeywordDouble \<or> t = KeywordString \<or> t = KeywordLogic"

section \<open>Failures\<close>

text \<open>
  \<^verbatim>\<open>LexerError\<close> and \<^verbatim>\<open>ParserError\<close> are both \<^verbatim>\<open>std::runtime_error\<close> subclasses whose only
  payload is the message, and the only way to read the message is \<^verbatim>\<open>what()\<close>, which returns a
  C string: whoever catches the exception (\<^verbatim>\<open>translateAndRun\<close> prints \<^verbatim>\<open>ex.what()\<close>) sees the
  bytes of the message up to its first NUL byte. The constructors \<open>LexerError\<close> and
  \<open>ParserError\<close> of the model hold what \<^verbatim>\<open>what()\<close> gives; \<open>throwLexerError\<close> and
  \<open>throwParserError\<close> are \<^verbatim>\<open>throw LexerError(message)\<close> and \<^verbatim>\<open>throw ParserError(message)\<close> for a
  \<^verbatim>\<open>std::string\<close> message. \<open>OutOfBounds\<close> stands for a read outside a vector
  (\<^verbatim>\<open>indentStack_.back()\<close> on an empty stack, \<^verbatim>\<open>tokens_[current_]\<close> past the end), which the
  C++ code does not check. \<open>OutOfFuel\<close> belongs to the recursion bound of the parser model.
\<close>

datatype error = LexerError string | ParserError string | OutOfBounds | OutOfFuel

definition c_str :: "string \<Rightarrow> string" where
  "c_str s = takeWhile (\<lambda>ch. ch \<noteq> CHR 0x00) s"

definition throwLexerError :: "string \<Rightarrow> error + 'a" where
  "throwLexerError message = Inl (LexerError (c_str message))"

definition throwParserError :: "string \<Rightarrow> error + 'a" where
  "throwParserError message = Inl (ParserError (c_str message))"

declare throwLexerError_def [simp] throwParserError_def [simp]

section \<open>Byte strings of the source\<close>

text \<open>
  The source files are UTF-8; a \<^verbatim>\<open>std::string\<close> is its sequence of bytes. Each Cyrillic
  letter is two bytes, written here by their codes.
\<close>

definition kw_celoe :: string where
  "kw_celoe =
     [CHR 0xD1, CHR 0x86, CHR 0xD0, CHR 0xB5, CHR 0xD0, CHR 0xBB, CHR 0xD0, CHR 0xBE,
     CHR 0xD0, CHR 0xB5]"

definition kw_drobnoe :: string where
  "kw_drobnoe =
     [CHR 0xD0, CHR 0xB4, CHR 0xD1, CHR 0x80, CHR 0xD0, CHR 0xBE, CHR 0xD0, CHR 0xB1,
     CHR 0xD0, CHR 0xBD, CHR 0xD0, CHR 0xBE, CHR 0xD0, CHR 0xB5]"

definition kw_stroka :: string where
  "kw_stroka =
     [CHR 0xD1, CHR 0x81, CHR 0xD1, CHR 0x82, CHR 0xD1, CHR 0x80, CHR 0xD0, CHR 0xBE,
     CHR 0xD0, CHR 0xBA, CHR 0xD0, CHR 0xB0]"

definition kw_logika :: string where
  "kw_logika =
     [CHR 0xD0, CHR 0xBB, CHR 0xD0, CHR 0xBE, CHR 0xD0, CHR 0xB3, CHR 0xD0, CHR 0xB8,
     CHR 0xD0, CHR 0xBA, CHR 0xD0, CHR 0xB0]"

definition kw_esli :: string where
  "kw_esli =
     [CHR 0xD0, CHR 0xB5, CHR 0xD1, CHR 0x81, CHR 0xD0, CHR 0xBB, CHR 0xD0, CHR 0xB8]"

definition kw_inache :: string where
  "kw_inache =
     [CHR 0xD0, CHR 0xB8, CHR 0xD0, CHR 0xBD, CHR 0xD0, CHR 0xB0, CHR 0xD1, CHR 0x87,
     CHR 0xD0, CHR 0xB5]"

definition kw_poka :: string where
  "kw_poka =
     [CHR 0xD0, CHR 0xBF, CHR 0xD0, CHR 0xBE, CHR 0xD0, CHR 0xBA, CHR 0xD0, CHR 0xB0]"

definition kw_dlya :: string where
  "kw_dlya =
     [CHR 0xD0, CHR 0xB4, CHR 0xD0, CHR 0xBB, CHR 0xD1, CHR 0x8F]"

definition kw_vvod :: string where
  "kw_vvod =
     [CHR 0xD0, CHR 0xB2, CHR 0xD0, CHR 0xB2, CHR 0xD0, CHR 0xBE, CHR 0xD0, CHR 0xB4]"

definition kw_vyvod :: string where
  "kw_vyvod =
     [CHR 0xD0, CHR 0xB2, CHR 0xD1, CHR 0x8B, CHR 0xD0, CHR 0xB2, CHR 0xD0, CHR 0xBE,
     CHR 0xD0, CHR 0xB4]"

definition kw_i :: string where
  "kw_i =
     [CHR 0xD0, CHR 0xB8]"

definition kw_ili :: string where
  "kw_ili =
     [CHR 0xD0, CHR 0xB8, CHR 0xD0, CHR 0xBB, CHR 0xD0, CHR 0xB8]"

definition kw_ne :: string where
  "kw_ne =
     [CHR 0xD0, CHR 0xBD, CHR 0xD0, CHR 0xB5]"

definition kw_ot :: string where
  "kw_ot =
     [CHR 0xD0, CHR 0xBE, CHR 0xD1, CHR 0x82]"

definition kw_do :: string where
  "kw_do =
     [CHR 0xD0, CHR 0xB4, CHR 0xD0, CHR 0xBE]"

definition kw_pravda :: string where
  "kw_pravda =
     [CHR 0xD0, CHR 0xBF, CHR 0xD1, CHR 0x80, CHR 0xD0, CHR 0xB0, CHR 0xD0, CHR 0xB2,
     CHR 0xD0, CHR 0xB4, CHR 0xD0, CHR 0xB0]"

definition kw_lozh :: string where
  "kw_lozh =
     [CHR 0xD0, CHR 0xBB, CHR 0xD0, CHR 0xBE, CHR 0xD0, CHR 0xB6, CHR 0xD1, CHR 0x8C]"

definition msg_string_newline :: string where
  "msg_string_newline =
     [CHR 0xD0, CHR 0xA1, CHR 0xD1, CHR 0x82, CHR 0xD1, CHR 0x80, CHR 0xD0, CHR 0xBE,
     CHR 0xD0, CHR 0xBA, CHR 0xD0, CHR 0xBE, CHR 0xD0, CHR 0xB2, CHR 0xD1, CHR 0x8B,
     CHR 0xD0, CHR 0xB9, CHR 0x20, CHR 0xD0, CHR 0xBB, CHR 0xD0, CHR 0xB8, CHR 0xD1,
     CHR 0x82, CHR 0xD0, CHR 0xB5, CHR 0xD1, CHR 0x80, CHR 0xD0, CHR 0xB0, CHR 0xD0,
     CHR 0xBB, CHR 0x20, CHR 0xD0, CHR 0xBD, CHR 0xD0, CHR 0xB5, CHR 0x20, CHR 0xD0,
     CHR 0xBC, CHR 0xD0, CHR 0xBE, CHR 0xD0, CHR 0xB6, CHR 0xD0, CHR 0xB5, CHR 0xD1,
     CHR 0x82, CHR 0x20, CHR 0xD0, CHR 0xBF, CHR 0xD0, CHR 0xB5, CHR 0xD1, CHR 0x80,
     CHR 0xD0, CHR 0xB5, CHR 0xD0, CHR 0xBD, CHR 0xD0, CHR 0xBE, CHR 0xD1, CHR 0x81,
     CHR 0xD0, CHR 0xB8, CHR 0xD1, CHR 0x82, CHR 0xD1, CHR 0x8C, CHR 0xD1, CHR 0x81,
     CHR 0xD1, CHR 0x8F, CHR 0x20, CHR 0xD0, CHR 0xBD, CHR 0xD0, CHR 0xB0, CHR 0x20,
     CHR 0xD0, CHR 0xBD, CHR 0xD0, CHR 0xBE, CHR 0xD0, CHR 0xB2, CHR 0xD1, CHR 0x83,
     CHR 0xD1, CHR 0x8E, CHR 0x20, CHR 0xD1, CHR 0x81, CHR 0xD1, CHR 0x82, CHR 0xD1,
     CHR 0x80, CHR 0xD0, CHR 0xBE, CHR 0xD0, CHR 0xBA, CHR 0xD1, CHR 0x83]"

definition msg_escape_unfinished :: string where
  "msg_escape_unfinished =
     [CHR 0xD0, CHR 0x9D, CHR 0xD0, CHR 0xB5, CHR 0xD0, CHR 0xB7, CHR 0xD0, CHR 0xB0,
     CHR 0xD0, CHR 0xB2, CHR 0xD0, CHR 0xB5, CHR 0xD1, CHR 0x80, CHR 0xD1, CHR 0x88,
     CHR 0xD1, CHR 0x91, CHR 0xD0, CHR 0xBD, CHR 0xD0, CHR 0xBD, CHR 0xD0, CHR 0xB0,
     CHR 0xD1, CHR 0x8F, CHR 0x20, CHR 0x65, CHR 0x73, CHR 0x63, CHR 0x61, CHR 0x70,
     CHR 0x65, CHR 0x2D, CHR 0xD0, CHR 0xBF, CHR 0xD0, CHR 0xBE, CHR 0xD1, CHR 0x81,
     CHR 0xD0, CHR 0xBB, CHR 0xD0, CHR 0xB5, CHR 0xD0, CHR 0xB4, CHR 0xD0, CHR 0xBE,
     CHR 0xD0, CHR 0xB2, CHR 0xD0, CHR 0xB0, CHR 0xD1, CHR 0x82, CHR 0xD0, CHR 0xB5,
     CHR 0xD0, CHR 0xBB, CHR 0xD1, CHR 0x8C, CHR 0xD0, CHR 0xBD, CHR 0xD0, CHR 0xBE,
     CHR 0xD1, CHR 0x81, CHR 0xD1, CHR 0x82, CHR 0xD1, CHR 0x8C]"

definition msg_escape_unknown :: string where
  "msg_escape_unknown =
     [CHR 0xD0, CHR 0x9D, CHR 0xD0, CHR 0xB5, CHR 0xD0, CHR 0xB8, CHR 0xD0, CHR 0xB7,
     CHR 0xD0, CHR 0xB2, CHR 0xD0, CHR 0xB5, CHR 0xD1, CHR 0x81, CHR 0xD1, CHR 0x82,
     CHR 0xD0, CHR 0xBD, CHR 0xD0, CHR 0xB0, CHR 0xD1, CHR 0x8F, CHR 0x20, CHR 0x65,
     CHR 0x73, CHR 0x63, CHR 0x61, CHR 0x70, CHR 0x65, CHR 0x2D, CHR 0xD0, CHR 0xBF,
     CHR 0xD0, CHR 0xBE, CHR 0xD1, CHR 0x81, CHR 0xD0, CHR 0xBB, CHR 0xD0, CHR 0xB5,
     CHR 0xD0, CHR 0xB4, CHR 0xD0, CHR 0xBE, CHR 0xD0, CHR 0xB2, CHR 0xD0, CHR 0xB0,
     CHR 0xD1, CHR 0x82, CHR 0xD0, CHR 0xB5, CHR 0xD0, CHR 0xBB, CHR 0xD1, CHR 0x8C,
     CHR 0xD0, CHR 0xBD, CHR 0xD0, CHR 0xBE, CHR 0xD1, CHR 0x81, CHR 0xD1, CHR 0x82,
     CHR 0xD1, CHR 0x8C]"

definition msg_string_unclosed :: string where
  "msg_string_unclosed =
     [CHR 0xD0, CHR 0x9D, CHR 0xD0, CHR 0xB5, CHR 0xD0, CHR 0xB7, CHR 0xD0, CHR 0xB0,
     CHR 0xD0, CHR 0xBA, CHR 0xD1, CHR 0x80, CHR 0xD1, CHR 0x8B, CHR 0xD1, CHR 0x82,
     CHR 0xD0, CHR 0xB0, CHR 0xD1, CHR 0x8F, CHR 0x20, CHR 0xD1, CHR 0x81, CHR 0xD1,
     CHR 0x82, CHR 0xD1, CHR 0x80, CHR 0xD0, CHR 0xBE, CHR 0xD0, CHR 0xBA, CHR 0xD0,
     CHR 0xB0]"

definition msg_unknown_char :: string where
  "msg_unknown_char =
     [CHR 0xD0, CHR 0x9D, CHR 0xD0, CHR 0xB5, CHR 0xD0, CHR 0xB8, CHR 0xD0, CHR 0xB7,
     CHR 0xD0, CHR 0xB2, CHR 0xD0, CHR 0xB5, CHR 0xD1, CHR 0x81, CHR 0xD1, CHR 0x82,
     CHR 0xD0, CHR 0xBD, CHR 0xD1, CHR 0x8B, CHR 0xD0, CHR 0xB9, CHR 0x20, CHR 0xD1,
     CHR 0x81, CHR 0xD0, CHR 0xB8, CHR 0xD0, CHR 0xBC, CHR 0xD0, CHR 0xB2, CHR 0xD0,
     CHR 0xBE, CHR 0xD0, CHR 0xBB, CHR 0x20, CHR 0x27]"

definition msg_on_line :: string where
  "msg_on_line =
     [CHR 0x27, CHR 0x20, CHR 0xD0, CHR 0xBD, CHR 0xD0, CHR 0xB0, CHR 0x20, CHR 0xD1,
     CHR 0x81, CHR 0xD1, CHR 0x82, CHR 0xD1, CHR 0x80, CHR 0xD0, CHR 0xBE, CHR 0xD0,
     CHR 0xBA, CHR 0xD0, CHR 0xB5, CHR 0x20]"

definition msg_bad_indent :: string where
  "msg_bad_indent =
     [CHR 0xD0, CHR 0x9D, CHR 0xD0, CHR 0xB5, CHR 0xD1, CHR 0x81, CHR 0xD0, CHR 0xBE,
     CHR 0xD0, CHR 0xB3, CHR 0xD0, CHR 0xBB, CHR 0xD0, CHR 0xB0, CHR 0xD1, CHR 0x81,
     CHR 0xD0, CHR 0xBE, CHR 0xD0, CHR 0xB2, CHR 0xD0, CHR 0xB0, CHR 0xD0, CHR 0xBD,
     CHR 0xD0, CHR 0xBD, CHR 0xD1, CHR 0x8B, CHR 0xD0, CHR 0xB9, CHR 0x20, CHR 0xD0,
     CHR 0xBE, CHR 0xD1, CHR 0x82, CHR 0xD1, CHR 0x81, CHR 0xD1, CHR 0x82, CHR 0xD1,
     CHR 0x83, CHR 0xD0, CHR 0xBF, CHR 0x20, CHR 0xD0, CHR 0xBD, CHR 0xD0, CHR 0xB0,
     CHR 0x20, CHR 0xD1, CHR 0x81, CHR 0xD1, CHR 0x82, CHR 0xD1, CHR 0x80, CHR 0xD0,
     CHR 0xBE, CHR 0xD0, CHR 0xBA, CHR 0xD0, CHR 0xB5, CHR 0x20]"

definition msg_expect_newline_after :: string where
  "msg_expect_newline_after =
     [CHR 0xD0, CHR 0x9E, CHR 0xD0, CHR 0xB6, CHR 0xD0, CHR 0xB8, CHR 0xD0, CHR 0xB4,
     CHR 0xD0, CHR 0xB0, CHR 0xD0, CHR 0xB5, CHR 0xD1, CHR 0x82, CHR 0xD1, CHR 0x81,
     CHR 0xD1, CHR 0x8F, CHR 0x20, CHR 0xD0, CHR 0xBF, CHR 0xD0, CHR 0xB5, CHR 0xD1,
     CHR 0x80, CHR 0xD0, CHR 0xB5, CHR 0xD0, CHR 0xB2, CHR 0xD0, CHR 0xBE, CHR 0xD0,
     CHR 0xB4, CHR 0x20, CHR 0xD1, CHR 0x81, CHR 0xD1, CHR 0x82, CHR 0xD1, CHR 0x80,
     CHR 0xD0, CHR 0xBE, CHR 0xD0, CHR 0xBA, CHR 0xD0, CHR 0xB8, CHR 0x20, CHR 0xD0,
     CHR 0xBF, CHR 0xD0, CHR 0xBE, CHR 0xD1, CHR 0x81, CHR 0xD0, CHR 0xBB, CHR 0xD0,
     CHR 0xB5, CHR 0x20]"

definition msg_expect_type_for :: string where
  "msg_expect_type_for =
     [CHR 0xD0, CHR 0x9E, CHR 0xD0, CHR 0xB6, CHR 0xD0, CHR 0xB8, CHR 0xD0, CHR 0xB4,
     CHR 0xD0, CHR 0xB0, CHR 0xD0, CHR 0xB5, CHR 0xD1, CHR 0x82, CHR 0xD1, CHR 0x81,
     CHR 0xD1, CHR 0x8F, CHR 0x20, CHR 0xD1, CHR 0x82, CHR 0xD0, CHR 0xB8, CHR 0xD0,
     CHR 0xBF, CHR 0x20, CHR 0xD0, CHR 0xB4, CHR 0xD0, CHR 0xBB, CHR 0xD1, CHR 0x8F,
     CHR 0x20]"

definition msg_unexpected_indent :: string where
  "msg_unexpected_indent =
     [CHR 0xD0, CHR 0x9D, CHR 0xD0, CHR 0xB5, CHR 0xD0, CHR 0xBE, CHR 0xD0, CHR 0xB6,
     CHR 0xD0, CHR 0xB8, CHR 0xD0, CHR 0xB4, CHR 0xD0, CHR 0xB0, CHR 0xD0, CHR 0xBD,
     CHR 0xD0, CHR 0xBD, CHR 0xD1, CHR 0x8B, CHR 0xD0, CHR 0xB9, CHR 0x20, CHR 0xD0,
     CHR 0xBE, CHR 0xD1, CHR 0x82, CHR 0xD1, CHR 0x81, CHR 0xD1, CHR 0x82, CHR 0xD1,
     CHR 0x83, CHR 0xD0, CHR 0xBF]"

definition msg_unexpected_word :: string where
  "msg_unexpected_word =
     [CHR 0xD0, CHR 0x9D, CHR 0xD0, CHR 0xB5, CHR 0xD0, CHR 0xBE, CHR 0xD0, CHR 0xB6,
     CHR 0xD0, CHR 0xB8, CHR 0xD0, CHR 0xB4, CHR 0xD0, CHR 0xB0, CHR 0xD0, CHR 0xBD,
     CHR 0xD0, CHR 0xBD, CHR 0xD0, CHR 0xBE, CHR 0xD0, CHR 0xB5, CHR 0x20, CHR 0xD1,
     CHR 0x81, CHR 0xD0, CHR 0xBB, CHR 0xD0, CHR 0xBE, CHR 0xD0, CHR 0xB2, CHR 0xD0,
     CHR 0xBE, CHR 0x20, CHR 0x27]"

definition msg_expect_var_name :: string where
  "msg_expect_var_name =
     [CHR 0xD0, CHR 0x9E, CHR 0xD0, CHR 0xB6, CHR 0xD0, CHR 0xB8, CHR 0xD0, CHR 0xB4,
     CHR 0xD0, CHR 0xB0, CHR 0xD0, CHR 0xB5, CHR 0xD1, CHR 0x82, CHR 0xD1, CHR 0x81,
     CHR 0xD1, CHR 0x8F, CHR 0x20, CHR 0xD0, CHR 0xB8, CHR 0xD0, CHR 0xBC, CHR 0xD1,
     CHR 0x8F, CHR 0x20, CHR 0xD0, CHR 0xBF, CHR 0xD0, CHR 0xB5, CHR 0xD1, CHR 0x80,
     CHR 0xD0, CHR 0xB5, CHR 0xD0, CHR 0xBC, CHR 0xD0, CHR 0xB5, CHR 0xD0, CHR 0xBD,
     CHR 0xD0, CHR 0xBD, CHR 0xD0, CHR 0xBE, CHR 0xD0, CHR 0xB9]"

definition ctx_var_decl :: string where
  "ctx_var_decl =
     [CHR 0xD0, CHR 0xBE, CHR 0xD0, CHR 0xB1, CHR 0xD1, CHR 0x8A, CHR 0xD1, CHR 0x8F,
     CHR 0xD0, CHR 0xB2, CHR 0xD0, CHR 0xBB, CHR 0xD0, CHR 0xB5, CHR 0xD0, CHR 0xBD,
     CHR 0xD0, CHR 0xB8, CHR 0xD1, CHR 0x8F, CHR 0x20, CHR 0xD0, CHR 0xBF, CHR 0xD0,
     CHR 0xB5, CHR 0xD1, CHR 0x80, CHR 0xD0, CHR 0xB5, CHR 0xD0, CHR 0xBC, CHR 0xD0,
     CHR 0xB5, CHR 0xD0, CHR 0xBD, CHR 0xD0, CHR 0xBD, CHR 0xD0, CHR 0xBE, CHR 0xD0,
     CHR 0xB9]"

definition msg_expect_assign :: string where
  "msg_expect_assign =
     [CHR 0xD0, CHR 0x9E, CHR 0xD0, CHR 0xB6, CHR 0xD0, CHR 0xB8, CHR 0xD0, CHR 0xB4,
     CHR 0xD0, CHR 0xB0, CHR 0xD0, CHR 0xB5, CHR 0xD1, CHR 0x82, CHR 0xD1, CHR 0x81,
     CHR 0xD1, CHR 0x8F, CHR 0x20, CHR 0x27, CHR 0x3D, CHR 0x27, CHR 0x20, CHR 0xD0,
     CHR 0xB2, CHR 0x20, CHR 0xD0, CHR 0xBF, CHR 0xD1, CHR 0x80, CHR 0xD0, CHR 0xB8,
     CHR 0xD1, CHR 0x81, CHR 0xD0, CHR 0xB2, CHR 0xD0, CHR 0xB0, CHR 0xD0, CHR 0xB8,
     CHR 0xD0, CHR 0xB2, CHR 0xD0, CHR 0xB0, CHR 0xD0, CHR 0xBD, CHR 0xD0, CHR 0xB8,
     CHR 0xD0, CHR 0xB8]"

definition ctx_assignment :: string where
  "ctx_assignment =
     [CHR 0xD0, CHR 0xBF, CHR 0xD1, CHR 0x80, CHR 0xD0, CHR 0xB8, CHR 0xD1, CHR 0x81,
     CHR 0xD0, CHR 0xB2, CHR 0xD0, CHR 0xB0, CHR 0xD0, CHR 0xB8, CHR 0xD0, CHR 0xB2,
     CHR 0xD0, CHR 0xB0, CHR 0xD0, CHR 0xBD, CHR 0xD0, CHR 0xB8, CHR 0xD1, CHR 0x8F]"

definition msg_expect_input_var :: string where
  "msg_expect_input_var =
     [CHR 0xD0, CHR 0x9E, CHR 0xD0, CHR 0xB6, CHR 0xD0, CHR 0xB8, CHR 0xD0, CHR 0xB4,
     CHR 0xD0, CHR 0xB0, CHR 0xD0, CHR 0xB5, CHR 0xD1, CHR 0x82, CHR 0xD1, CHR 0x81,
     CHR 0xD1, CHR 0x8F, CHR 0x20, CHR 0xD0, CHR 0xBF, CHR 0xD0, CHR 0xB5, CHR 0xD1,
     CHR 0x80, CHR 0xD0, CHR 0xB5, CHR 0xD0, CHR 0xBC, CHR 0xD0, CHR 0xB5, CHR 0xD0,
     CHR 0xBD, CHR 0xD0, CHR 0xBD, CHR 0xD0, CHR 0xB0, CHR 0xD1, CHR 0x8F, CHR 0x20,
     CHR 0xD0, CHR 0xB4, CHR 0xD0, CHR 0xBB, CHR 0xD1, CHR 0x8F, CHR 0x20, CHR 0xD0,
     CHR 0xB2, CHR 0xD0, CHR 0xB2, CHR 0xD0, CHR 0xBE, CHR 0xD0, CHR 0xB4, CHR 0xD0,
     CHR 0xB0]"

definition ctx_input :: string where
  "ctx_input =
     [CHR 0xD0, CHR 0xBE, CHR 0xD0, CHR 0xBF, CHR 0xD0, CHR 0xB5, CHR 0xD1, CHR 0x80,
     CHR 0xD0, CHR 0xB0, CHR 0xD1, CHR 0x82, CHR 0xD0, CHR 0xBE, CHR 0xD1, CHR 0x80,
     CHR 0xD0, CHR 0xB0, CHR 0x20, CHR 0xD0, CHR 0xB2, CHR 0xD0, CHR 0xB2, CHR 0xD0,
     CHR 0xBE, CHR 0xD0, CHR 0xB4, CHR 0xD0, CHR 0xB0]"

definition ctx_output :: string where
  "ctx_output =
     [CHR 0xD0, CHR 0xBE, CHR 0xD0, CHR 0xBF, CHR 0xD0, CHR 0xB5, CHR 0xD1, CHR 0x80,
     CHR 0xD0, CHR 0xB0, CHR 0xD1, CHR 0x82, CHR 0xD0, CHR 0xBE, CHR 0xD1, CHR 0x80,
     CHR 0xD0, CHR 0xB0, CHR 0x20, CHR 0xD0, CHR 0xB2, CHR 0xD1, CHR 0x8B, CHR 0xD0,
     CHR 0xB2, CHR 0xD0, CHR 0xBE, CHR 0xD0, CHR 0xB4, CHR 0xD0, CHR 0xB0]"

definition ctx_if :: string where
  "ctx_if =
     [CHR 0xD1, CHR 0x83, CHR 0xD1, CHR 0x81, CHR 0xD0, CHR 0xBB, CHR 0xD0, CHR 0xBE,
     CHR 0xD0, CHR 0xB2, CHR 0xD0, CHR 0xB8, CHR 0xD1, CHR 0x8F, CHR 0x20, CHR 0x27,
     CHR 0xD0, CHR 0xB5, CHR 0xD1, CHR 0x81, CHR 0xD0, CHR 0xBB, CHR 0xD0, CHR 0xB8,
     CHR 0x27]"

definition ctx_else_if :: string where
  "ctx_else_if =
     [CHR 0xD1, CHR 0x83, CHR 0xD1, CHR 0x81, CHR 0xD0, CHR 0xBB, CHR 0xD0, CHR 0xBE,
     CHR 0xD0, CHR 0xB2, CHR 0xD0, CHR 0xB8, CHR 0xD1, CHR 0x8F, CHR 0x20, CHR 0x27,
     CHR 0xD0, CHR 0xB8, CHR 0xD0, CHR 0xBD, CHR 0xD0, CHR 0xB0, CHR 0xD1, CHR 0x87,
     CHR 0xD0, CHR 0xB5, CHR 0x20, CHR 0xD0, CHR 0xB5, CHR 0xD1, CHR 0x81, CHR 0xD0,
     CHR 0xBB, CHR 0xD0, CHR 0xB8, CHR 0x27]"

definition ctx_else :: string where
  "ctx_else =
     [CHR 0xD0, CHR 0xB1, CHR 0xD0, CHR 0xBB, CHR 0xD0, CHR 0xBE, CHR 0xD0, CHR 0xBA,
     CHR 0xD0, CHR 0xB0, CHR 0x20, CHR 0x27, CHR 0xD0, CHR 0xB8, CHR 0xD0, CHR 0xBD,
     CHR 0xD0, CHR 0xB0, CHR 0xD1, CHR 0x87, CHR 0xD0, CHR 0xB5, CHR 0x27]"

definition cond_else_if :: string where
  "cond_else_if =
     [CHR 0xD0, CHR 0xB8, CHR 0xD0, CHR 0xBD, CHR 0xD0, CHR 0xB0, CHR 0xD1, CHR 0x87,
     CHR 0xD0, CHR 0xB5, CHR 0x20, CHR 0xD0, CHR 0xB5, CHR 0xD1, CHR 0x81, CHR 0xD0,
     CHR 0xBB, CHR 0xD0, CHR 0xB8]"

definition ctx_while :: string where
  "ctx_while =
     [CHR 0xD1, CHR 0x86, CHR 0xD0, CHR 0xB8, CHR 0xD0, CHR 0xBA, CHR 0xD0, CHR 0xBB,
     CHR 0xD0, CHR 0xB0, CHR 0x20, CHR 0x27, CHR 0xD0, CHR 0xBF, CHR 0xD0, CHR 0xBE,
     CHR 0xD0, CHR 0xBA, CHR 0xD0, CHR 0xB0, CHR 0x27]"

definition ctx_for :: string where
  "ctx_for =
     [CHR 0xD1, CHR 0x86, CHR 0xD0, CHR 0xB8, CHR 0xD0, CHR 0xBA, CHR 0xD0, CHR 0xBB,
     CHR 0xD0, CHR 0xB0, CHR 0x20, CHR 0x27, CHR 0xD0, CHR 0xB4, CHR 0xD0, CHR 0xBB,
     CHR 0xD1, CHR 0x8F, CHR 0x27]"

definition msg_expect_lparen_for :: string where
  "msg_expect_lparen_for =
     [CHR 0xD0, CHR 0x9E, CHR 0xD0, CHR 0xB6, CHR 0xD0, CHR 0xB8, CHR 0xD0, CHR 0xB4,
     CHR 0xD0, CHR 0xB0, CHR 0xD0, CHR 0xB5, CHR 0xD1, CHR 0x82, CHR 0xD1, CHR 0x81,
     CHR 0xD1, CHR 0x8F, CHR 0x20, CHR 0x27, CHR 0x28, CHR 0x27, CHR 0x20, CHR 0xD0,
     CHR 0xBF, CHR 0xD0, CHR 0xBE, CHR 0xD1, CHR 0x81, CHR 0xD0, CHR 0xBB, CHR 0xD0,
     CHR 0xB5, CHR 0x20, CHR 0x27, CHR 0xD0, CHR 0xB4, CHR 0xD0, CHR 0xBB, CHR 0xD1,
     CHR 0x8F, CHR 0x27]"

definition msg_expect_counter :: string where
  "msg_expect_counter =
     [CHR 0xD0, CHR 0x9E, CHR 0xD0, CHR 0xB6, CHR 0xD0, CHR 0xB8, CHR 0xD0, CHR 0xB4,
     CHR 0xD0, CHR 0xB0, CHR 0xD0, CHR 0xB5, CHR 0xD1, CHR 0x82, CHR 0xD1, CHR 0x81,
     CHR 0xD1, CHR 0x8F, CHR 0x20, CHR 0xD0, CHR 0xB8, CHR 0xD0, CHR 0xBC, CHR 0xD1,
     CHR 0x8F, CHR 0x20, CHR 0xD1, CHR 0x81, CHR 0xD1, CHR 0x87, CHR 0xD1, CHR 0x91,
     CHR 0xD1, CHR 0x82, CHR 0xD1, CHR 0x87, CHR 0xD0, CHR 0xB8, CHR 0xD0, CHR 0xBA,
     CHR 0xD0, CHR 0xB0]"

definition msg_expect_from :: string where
  "msg_expect_from =
     [CHR 0xD0, CHR 0x9E, CHR 0xD0, CHR 0xB6, CHR 0xD0, CHR 0xB8, CHR 0xD0, CHR 0xB4,
     CHR 0xD0, CHR 0xB0, CHR 0xD0, CHR 0xB5, CHR 0xD1, CHR 0x82, CHR 0xD1, CHR 0x81,
     CHR 0xD1, CHR 0x8F, CHR 0x20, CHR 0xD1, CHR 0x81, CHR 0xD0, CHR 0xBB, CHR 0xD0,
     CHR 0xBE, CHR 0xD0, CHR 0xB2, CHR 0xD0, CHR 0xBE, CHR 0x20, CHR 0x27, CHR 0xD0,
     CHR 0xBE, CHR 0xD1, CHR 0x82, CHR 0x27, CHR 0x20, CHR 0xD0, CHR 0xB2, CHR 0x20,
     CHR 0xD1, CHR 0x86, CHR 0xD0, CHR 0xB8, CHR 0xD0, CHR 0xBA, CHR 0xD0, CHR 0xBB,
     CHR 0xD0, CHR 0xB5]"

definition msg_expect_to :: string where
  "msg_expect_to =
     [CHR 0xD0, CHR 0x9E, CHR 0xD0, CHR 0xB6, CHR 0xD0, CHR 0xB8, CHR 0xD0, CHR 0xB4,
     CHR 0xD0, CHR 0xB0, CHR 0xD0, CHR 0xB5, CHR 0xD1, CHR 0x82, CHR 0xD1, CHR 0x81,
     CHR 0xD1, CHR 0x8F, CHR 0x20, CHR 0xD1, CHR 0x81, CHR 0xD0, CHR 0xBB, CHR 0xD0,
     CHR 0xBE, CHR 0xD0, CHR 0xB2, CHR 0xD0, CHR 0xBE, CHR 0x20, CHR 0x27, CHR 0xD0,
     CHR 0xB4, CHR 0xD0, CHR 0xBE, CHR 0x27, CHR 0x20, CHR 0xD0, CHR 0xB2, CHR 0x20,
     CHR 0xD1, CHR 0x86, CHR 0xD0, CHR 0xB8, CHR 0xD0, CHR 0xBA, CHR 0xD0, CHR 0xBB,
     CHR 0xD0, CHR 0xB5]"

definition msg_expect_rparen_for :: string where
  "msg_expect_rparen_for =
     [CHR 0xD0, CHR 0x9E, CHR 0xD0, CHR 0xB6, CHR 0xD0, CHR 0xB8, CHR 0xD0, CHR 0xB4,
     CHR 0xD0, CHR 0xB0, CHR 0xD0, CHR 0xB5, CHR 0xD1, CHR 0x82, CHR 0xD1, CHR 0x81,
     CHR 0xD1, CHR 0x8F, CHR 0x20, CHR 0x27, CHR 0x29, CHR 0x27, CHR 0x20, CHR 0xD0,
     CHR 0xBF, CHR 0xD0, CHR 0xBE, CHR 0xD1, CHR 0x81, CHR 0xD0, CHR 0xBB, CHR 0xD0,
     CHR 0xB5, CHR 0x20, CHR 0xD0, CHR 0xB7, CHR 0xD0, CHR 0xB0, CHR 0xD0, CHR 0xB3,
     CHR 0xD0, CHR 0xBE, CHR 0xD0, CHR 0xBB, CHR 0xD0, CHR 0xBE, CHR 0xD0, CHR 0xB2,
     CHR 0xD0, CHR 0xBA, CHR 0xD0, CHR 0xB0, CHR 0x20, CHR 0xD1, CHR 0x86, CHR 0xD0,
     CHR 0xB8, CHR 0xD0, CHR 0xBA, CHR 0xD0, CHR 0xBB, CHR 0xD0, CHR 0xB0]"

definition msg_expect_line_after :: string where
  "msg_expect_line_after =
     [CHR 0xD0, CHR 0x9E, CHR 0xD0, CHR 0xB6, CHR 0xD0, CHR 0xB8, CHR 0xD0, CHR 0xB4,
     CHR 0xD0, CHR 0xB0, CHR 0xD0, CHR 0xB5, CHR 0xD1, CHR 0x82, CHR 0xD1, CHR 0x81,
     CHR 0xD1, CHR 0x8F, CHR 0x20, CHR 0xD0, CHR 0xBD, CHR 0xD0, CHR 0xBE, CHR 0xD0,
     CHR 0xB2, CHR 0xD0, CHR 0xB0, CHR 0xD1, CHR 0x8F, CHR 0x20, CHR 0xD1, CHR 0x81,
     CHR 0xD1, CHR 0x82, CHR 0xD1, CHR 0x80, CHR 0xD0, CHR 0xBE, CHR 0xD0, CHR 0xBA,
     CHR 0xD0, CHR 0xB0, CHR 0x20, CHR 0xD0, CHR 0xBF, CHR 0xD0, CHR 0xBE, CHR 0xD1,
     CHR 0x81, CHR 0xD0, CHR 0xBB, CHR 0xD0, CHR 0xB5, CHR 0x20]"

definition msg_expect_indent_after :: string where
  "msg_expect_indent_after =
     [CHR 0xD0, CHR 0x9E, CHR 0xD0, CHR 0xB6, CHR 0xD0, CHR 0xB8, CHR 0xD0, CHR 0xB4,
     CHR 0xD0, CHR 0xB0, CHR 0xD0, CHR 0xB5, CHR 0xD1, CHR 0x82, CHR 0xD1, CHR 0x81,
     CHR 0xD1, CHR 0x8F, CHR 0x20, CHR 0xD0, CHR 0xBE, CHR 0xD1, CHR 0x82, CHR 0xD1,
     CHR 0x81, CHR 0xD1, CHR 0x82, CHR 0xD1, CHR 0x83, CHR 0xD0, CHR 0xBF, CHR 0x20,
     CHR 0xD0, CHR 0xBF, CHR 0xD0, CHR 0xBE, CHR 0xD1, CHR 0x81, CHR 0xD0, CHR 0xBB,
     CHR 0xD0, CHR 0xB5, CHR 0x20]"

definition msg_expect_block_end :: string where
  "msg_expect_block_end =
     [CHR 0xD0, CHR 0x9E, CHR 0xD0, CHR 0xB6, CHR 0xD0, CHR 0xB8, CHR 0xD0, CHR 0xB4,
     CHR 0xD0, CHR 0xB0, CHR 0xD0, CHR 0xB5, CHR 0xD1, CHR 0x82, CHR 0xD1, CHR 0x81,
     CHR 0xD1, CHR 0x8F, CHR 0x20, CHR 0xD0, CHR 0xB7, CHR 0xD0, CHR 0xB0, CHR 0xD0,
     CHR 0xB2, CHR 0xD0, CHR 0xB5, CHR 0xD1, CHR 0x80, CHR 0xD1, CHR 0x88, CHR 0xD0,
     CHR 0xB5, CHR 0xD0, CHR 0xBD, CHR 0xD0, CHR 0xB8, CHR 0xD0, CHR 0xB5, CHR 0x20,
     CHR 0xD0, CHR 0xB1, CHR 0xD0, CHR 0xBB, CHR 0xD0, CHR 0xBE, CHR 0xD0, CHR 0xBA,
     CHR 0xD0, CHR 0xB0, CHR 0x20]"

definition msg_expect_rparen :: string where
  "msg_expect_rparen =
     [CHR 0xD0, CHR 0x9E, CHR 0xD0, CHR 0xB6, CHR 0xD0, CHR 0xB8, CHR 0xD0, CHR 0xB4,
     CHR 0xD0, CHR 0xB0, CHR 0xD0, CHR 0xB5, CHR 0xD1, CHR 0x82, CHR 0xD1, CHR 0x81,
     CHR 0xD1, CHR 0x8F, CHR 0x20, CHR 0x27, CHR 0x29, CHR 0x27, CHR 0x20]"

definition msg_unexpected_token :: string where
  "msg_unexpected_token =
     [CHR 0xD0, CHR 0x9D, CHR 0xD0, CHR 0xB5, CHR 0xD0, CHR 0xBE, CHR 0xD0, CHR 0xB6,
     CHR 0xD0, CHR 0xB8, CHR 0xD0, CHR 0xB4, CHR 0xD0, CHR 0xB0, CHR 0xD0, CHR 0xBD,
     CHR 0xD0, CHR 0xBD, CHR 0xD1, CHR 0x8B, CHR 0xD0, CHR 0xB9, CHR 0x20, CHR 0xD1,
     CHR 0x82, CHR 0xD0, CHR 0xBE, CHR 0xD0, CHR 0xBA, CHR 0xD0, CHR 0xB5, CHR 0xD0,
     CHR 0xBD, CHR 0x20, CHR 0x27]"

definition msg_expect_lparen_after :: string where
  "msg_expect_lparen_after =
     [CHR 0xD0, CHR 0x9E, CHR 0xD0, CHR 0xB6, CHR 0xD0, CHR 0xB8, CHR 0xD0, CHR 0xB4,
     CHR 0xD0, CHR 0xB0, CHR 0xD0, CHR 0xB5, CHR 0xD1, CHR 0x82, CHR 0xD1, CHR 0x81,
     CHR 0xD1, CHR 0x8F, CHR 0x20, CHR 0x27, CHR 0x28, CHR 0x27, CHR 0x20, CHR 0xD0,
     CHR 0xBF, CHR 0xD0, CHR 0xBE, CHR 0xD1, CHR 0x81, CHR 0xD0, CHR 0xBB, CHR 0xD0,
     CHR 0xB5, CHR 0x20]"

definition msg_expect_rparen_cond :: string where
  "msg_expect_rparen_cond =
     [CHR 0xD0, CHR 0x9E, CHR 0xD0, CHR 0xB6, CHR 0xD0, CHR 0xB8, CHR 0xD0, CHR 0xB4,
     CHR 0xD0, CHR 0xB0, CHR 0xD0, CHR 0xB5, CHR 0xD1, CHR 0x82, CHR 0xD1, CHR 0x81,
     CHR 0xD1, CHR 0x8F, CHR 0x20, CHR 0x27, CHR 0x29, CHR 0x27, CHR 0x20, CHR 0xD0,
     CHR 0xBF, CHR 0xD0, CHR 0xBE, CHR 0xD1, CHR 0x81, CHR 0xD0, CHR 0xBB, CHR 0xD0,
     CHR 0xB5, CHR 0x20, CHR 0xD1, CHR 0x83, CHR 0xD1, CHR 0x81, CHR 0xD0, CHR 0xBB,
     CHR 0xD0, CHR 0xBE, CHR 0xD0, CHR 0xB2, CHR 0xD0, CHR 0xB8, CHR 0xD1, CHR 0x8F,
     CHR 0x20]"

section \<open>Lexer (lexer.h, lexer.cpp)\<close>

text \<open>The keyword table \<^verbatim>\<open>kKeywords\<close>.\<close>

definition kKeywords :: "(string \<times> TokenType) list" where
  "kKeywords =
     [(kw_celoe, KeywordInteger), (kw_drobnoe, KeywordDouble), (kw_stroka, KeywordString),
      (kw_logika, KeywordLogic), (kw_esli, KeywordIf), (kw_inache, KeywordElse),
      (kw_poka, KeywordWhile), (kw_dlya, KeywordFor), (kw_vvod, KeywordInput),
      (kw_vyvod, KeywordOutput), (kw_i, KeywordAnd), (kw_ili, KeywordOr), (kw_ne, KeywordNot),
      (kw_ot, KeywordFrom), (kw_do, KeywordTo), (kw_pravda, KeywordTrue),
      (kw_lozh, KeywordFalse)]"

text \<open>
  The mutable members of \<^verbatim>\<open>class Lexer\<close>. The member \<^verbatim>\<open>source_\<close> is never written after
  construction and is passed to every operation as its first argument. The vector
  \<^verbatim>\<open>indentStack_\<close> is kept with its back at the head of the list.
\<close>

record Lexer =
  current :: nat
  line :: nat
  column :: nat
  atLineStart :: bool
  indentStack :: "nat list"
  tokens :: "Token list"

definition Lexer_init :: Lexer where
  "Lexer_init = \<lparr>current = 0, line = 1, column = 1, atLineStart = True,
                  indentStack = [0], tokens = []\<rparr>"

text \<open>\<^verbatim>\<open>std::to_string\<close> and \<^verbatim>\<open>operator<<\<close> on a \<^verbatim>\<open>std::size_t\<close>: the decimal digits.\<close>

definition digit_char :: "nat \<Rightarrow> char" where
  "digit_char d = char_of (48 + d)"

fun to_string :: "nat \<Rightarrow> string" where
  "to_string n = (if n < 10 then [digit_char n] else to_string (n div 10) @ [digit_char (n mod 10)])"

declare to_string.simps [simp del]

text \<open>\<^verbatim>\<open>std::isdigit\<close>, \<^verbatim>\<open>std::isalpha\<close>, \<^verbatim>\<open>std::isalnum\<close> in the "C" locale.\<close>

definition isdigit :: "char \<Rightarrow> bool" where
  "isdigit c \<longleftrightarrow> 48 \<le> (of_char c :: nat) \<and> (of_char c :: nat) \<le> 57"

definition isalpha :: "char \<Rightarrow> bool" where
  "isalpha c \<longleftrightarrow> (65 \<le> (of_char c :: nat) \<and> (of_char c :: nat) \<le> 90)
                \<or> (97 \<le> (of_char c :: nat) \<and> (of_char c :: nat) \<le> 122)"

definition isalnum :: "char \<Rightarrow> bool" where
  "isalnum c \<longleftrightarrow> isalpha c \<or> isdigit c"

definition isIdentifierStart :: "char \<Rightarrow> bool" where
  "isIdentifierStart ch \<longleftrightarrow> isalpha ch \<or> ch = CHR ''_'' \<or> 128 \<le> (of_char ch :: nat)"

definition isIdentifierPart :: "char \<Rightarrow> bool" where
  "isIdentifierPart ch \<longleftrightarrow> isalnum ch \<or> ch = CHR ''_'' \<or> 128 \<le> (of_char ch :: nat)"

definition pushToken :: "TokenType \<Rightarrow> string \<Rightarrow> Lexer \<Rightarrow> Lexer" where
  "pushToken type lx st = st\<lparr>tokens := tokens st @ [Token type lx (line st) (column st)]\<rparr>"

definition peekChar :: "string \<Rightarrow> Lexer \<Rightarrow> nat \<Rightarrow> char" where
  "peekChar src st offset =
     (let index = current st + offset
      in if index \<ge> length src then CHR 0x00 else src ! index)"

text \<open>\<^verbatim>\<open>substr(start, current_ - start)\<close>\<close>

definition substr :: "string \<Rightarrow> nat \<Rightarrow> nat \<Rightarrow> string" where
  "substr src start n = take n (drop start src)"

subsection \<open>Indentation\<close>

text \<open>
  The \<^verbatim>\<open>while (spaces < indentStack_.back())\<close> loop of \<^verbatim>\<open>handleIndentation\<close>, on the stack and
  the token vector. Reading the back of an empty stack yields \<open>None\<close>.
\<close>

fun popIndents :: "nat \<Rightarrow> nat \<Rightarrow> nat list \<Rightarrow> Token list \<Rightarrow> (nat list \<times> Token list) option" where
  "popIndents spaces ln [] toks = None"
| "popIndents spaces ln (back # stack) toks =
     (if spaces < back then popIndents spaces ln stack (toks @ [Token Dedent [] ln 1])
      else Some (back # stack, toks))"

definition handleIndentation :: "nat \<Rightarrow> nat \<Rightarrow> Lexer \<Rightarrow> error + Lexer" where
  "handleIndentation spaces ln st =
     (case indentStack st of
        [] \<Rightarrow> Inl OutOfBounds
      | back # _ \<Rightarrow>
          if spaces > back then
            Inr (st\<lparr>indentStack := spaces # indentStack st,
                    tokens := tokens st @ [Token Indent [] ln 1]\<rparr>)
          else
            (case popIndents spaces ln (indentStack st) (tokens st) of
               None \<Rightarrow> Inl OutOfBounds
             | Some (stack, toks) \<Rightarrow>
                 if spaces \<noteq> hd stack then throwLexerError (msg_bad_indent @ to_string ln)
                 else Inr (st\<lparr>indentStack := stack, tokens := toks\<rparr>)))"

fun popAll :: "nat \<Rightarrow> nat list \<Rightarrow> Token list \<Rightarrow> nat list \<times> Token list" where
  "popAll ln (a # b # stack) toks = popAll ln (b # stack) (toks @ [Token Dedent [] ln 1])"
| "popAll ln stack toks = (stack, toks)"

definition emitPendingDedents :: "nat \<Rightarrow> Lexer \<Rightarrow> Lexer" where
  "emitPendingDedents ln st =
     (case popAll ln (indentStack st) (tokens st) of
        (stack, toks) \<Rightarrow> st\<lparr>indentStack := stack, tokens := toks\<rparr>)"

subsection \<open>Scanners\<close>

function skipComment :: "string \<Rightarrow> Lexer \<Rightarrow> Lexer" where
  "skipComment src st =
     (if current st < length src \<and> src ! current st \<noteq> CHR 0x0A
      then skipComment src (st\<lparr>current := current st + 1, column := column st + 1\<rparr>)
      else st)"
  by pat_completeness auto
termination
  by (relation "measure (\<lambda>(src, st). length src - current st)") auto

declare skipComment.simps [simp del]

function scanIdentifierLoop :: "string \<Rightarrow> Lexer \<Rightarrow> Lexer" where
  "scanIdentifierLoop src st =
     (if current st < length src \<and> isIdentifierPart (src ! current st)
      then scanIdentifierLoop src (st\<lparr>current := current st + 1, column := column st + 1\<rparr>)
      else st)"
  by pat_completeness auto
termination
  by (relation "measure (\<lambda>(src, st). length src - current st)") auto

declare scanIdentifierLoop.simps [simp del]

definition scanIdentifierOrKeyword :: "string \<Rightarrow> Lexer \<Rightarrow> Lexer" where
  "scanIdentifierOrKeyword src st0 =
     (let start = current st0;
          startColumn = column st0;
          st = scanIdentifierLoop src st0;
          text = substr src start (current st - start);
          type = (case map_of kKeywords text of None \<Rightarrow> Identifier | Some k \<Rightarrow> k)
      in st\<lparr>tokens := tokens st @ [Token type text (line st) startColumn]\<rparr>)"

function scanNumberLoop :: "string \<Rightarrow> Lexer \<Rightarrow> bool \<Rightarrow> Lexer \<times> bool" where
  "scanNumberLoop src st seenDot =
     (if current st < length src then
        (let ch = src ! current st in
         if isdigit ch then
           scanNumberLoop src (st\<lparr>current := current st + 1, column := column st + 1\<rparr>) seenDot
         else if ch = CHR ''.'' \<and> \<not> seenDot then
           (let next = peekChar src st 1 in
            if \<not> isdigit next then (st, seenDot)
            else scanNumberLoop src (st\<lparr>current := current st + 1, column := column st + 1\<rparr>) True)
         else (st, seenDot))
      else (st, seenDot))"
  by pat_completeness auto
termination
  by (relation "measure (\<lambda>(src, st, seenDot). length src - current st)") auto

declare scanNumberLoop.simps [simp del]

definition scanNumber :: "string \<Rightarrow> Lexer \<Rightarrow> Lexer" where
  "scanNumber src st0 =
     (let start = current st0;
          startColumn = column st0
      in case scanNumberLoop src st0 False of
           (st, seenDot) \<Rightarrow>
             (let number = substr src start (current st - start);
                  type = (if seenDot then DoubleLiteral else IntegerLiteral)
              in st\<lparr>tokens := tokens st @ [Token type number (line st) startColumn]\<rparr>))"

text \<open>The \<^verbatim>\<open>switch (next)\<close> on the character after a backslash; \<open>None\<close> is its \<^verbatim>\<open>default\<close>.\<close>

definition decodeEscape :: "char \<Rightarrow> char option" where
  "decodeEscape next =
     (if next = CHR 0x5C then Some (CHR 0x5C)
      else if next = CHR 0x22 then Some (CHR 0x22)
      else if next = CHR ''n'' then Some (CHR 0x0A)
      else if next = CHR ''t'' then Some (CHR 0x09)
      else None)"

function scanStringLoop :: "string \<Rightarrow> Lexer \<Rightarrow> string \<Rightarrow> nat \<Rightarrow> error + Lexer" where
  "scanStringLoop src st val startColumn =
     (if current st < length src then
        (let ch = src ! current st in
         if ch = CHR 0x0A then throwLexerError msg_string_newline
         else if ch = CHR 0x22 then
           (let st1 = st\<lparr>current := current st + 1, column := column st + 1\<rparr>
            in Inr (st1\<lparr>tokens := tokens st1 @ [Token StringLiteral val (line st1) startColumn]\<rparr>))
         else if ch = CHR 0x5C then
           (let st1 = st\<lparr>current := current st + 1, column := column st + 1\<rparr> in
            if current st1 \<ge> length src then throwLexerError msg_escape_unfinished
            else
              (case decodeEscape (src ! current st1) of
                 None \<Rightarrow> throwLexerError msg_escape_unknown
               | Some c \<Rightarrow>
                   scanStringLoop src (st1\<lparr>current := current st1 + 1, column := column st1 + 1\<rparr>)
                     (val @ [c]) startColumn))
         else scanStringLoop src (st\<lparr>current := current st + 1, column := column st + 1\<rparr>)
                (val @ [ch]) startColumn)
      else throwLexerError msg_string_unclosed)"
  by pat_completeness auto
termination
  by (relation "measure (\<lambda>(src, st, val, startColumn). length src - current st)") auto

declare scanStringLoop.simps [simp del]

definition scanString :: "string \<Rightarrow> Lexer \<Rightarrow> error + Lexer" where
  "scanString src st =
     (let startColumn = column st
      in scanStringLoop src (st\<lparr>current := current st + 1, column := column st + 1\<rparr>) []
           startColumn)"

definition advanceBy :: "nat \<Rightarrow> Lexer \<Rightarrow> Lexer" where
  "advanceBy n st = st\<lparr>current := current st + n, column := column st + n\<rparr>"

definition scanOperator :: "string \<Rightarrow> Lexer \<Rightarrow> error + Lexer" where
  "scanOperator src st =
     (let ch = src ! current st in
      if ch = CHR ''+'' then Inr (advanceBy 1 (pushToken Plus [] st))
      else if ch = CHR ''-'' then Inr (advanceBy 1 (pushToken Minus [] st))
      else if ch = CHR ''*'' then Inr (advanceBy 1 (pushToken Star [] st))
      else if ch = CHR ''/'' then Inr (advanceBy 1 (pushToken Slash [] st))
      else if ch = CHR ''%'' then Inr (advanceBy 1 (pushToken Percent [] st))
      else if ch = CHR ''^'' then Inr (advanceBy 1 (pushToken Caret [] st))
      else if ch = CHR ''('' then Inr (advanceBy 1 (pushToken LeftParen [] st))
      else if ch = CHR '')'' then Inr (advanceBy 1 (pushToken RightParen [] st))
      else if ch = CHR '','' then Inr (advanceBy 1 (pushToken Comma [] st))
      else if ch = CHR ''='' then
        (if peekChar src st 1 = CHR ''='' then Inr (advanceBy 2 (pushToken Equal [] st))
         else Inr (advanceBy 1 (pushToken Assign [] st)))
      else if ch = CHR ''<'' then
        (if peekChar src st 1 = CHR ''='' then Inr (advanceBy 2 (pushToken LessEqual [] st))
         else Inr (advanceBy 1 (pushToken Less [] st)))
      else if ch = CHR ''>'' then
        (if peekChar src st 1 = CHR ''='' then Inr (advanceBy 2 (pushToken GreaterEqual [] st))
         else Inr (advanceBy 1 (pushToken Greater [] st)))
      else throwLexerError (msg_unknown_char @ [ch] @ msg_on_line @ to_string (line st)
                             @ '':'' @ to_string (column st)))"

subsection \<open>The main loop of \<^verbatim>\<open>tokenize\<close>\<close>

text \<open>
  The inner loop that measures the indentation of a line: a space counts 1, a tab 4, a
  carriage return nothing.
\<close>

function countIndent :: "string \<Rightarrow> nat \<Rightarrow> nat \<Rightarrow> nat \<times> nat" where
  "countIndent src temp indentCount =
     (if temp < length src then
        (let ch = src ! temp in
         if ch = CHR '' '' then countIndent src (temp + 1) (indentCount + 1)
         else if ch = CHR 0x09 then countIndent src (temp + 1) (indentCount + 4)
         else if ch = CHR 0x0D then countIndent src (temp + 1) indentCount
         else (temp, indentCount))
      else (temp, indentCount))"
  by pat_completeness auto
termination
  by (relation "measure (\<lambda>(src, temp, indentCount). length src - temp)") auto

declare countIndent.simps [simp del]

text \<open>
  One pass through the body of \<^verbatim>\<open>while (current_ < source_.size())\<close> either leaves the loop
  (\<open>Break\<close>, the \<^verbatim>\<open>break\<close> statements) or goes round again (\<open>Again\<close>: a \<^verbatim>\<open>continue\<close> or the end
  of the body). \<open>scanToken\<close> is the part of the body after the line-start block.
\<close>

datatype flow = Break | Again

definition scanToken :: "string \<Rightarrow> Lexer \<Rightarrow> error + (flow \<times> Lexer)" where
  "scanToken src st =
     (if current st \<ge> length src then Inr (Break, st)
      else
        (let ch = src ! current st in
         if ch = CHR '' '' \<or> ch = CHR 0x09 then Inr (Again, advanceBy 1 st)
         else if ch = CHR 0x0D then Inr (Again, st\<lparr>current := current st + 1\<rparr>)
         else if ch = CHR 0x0A then
           Inr (Again, (pushToken Newline [] st)
                         \<lparr>current := current st + 1, line := line st + 1, column := 1,
                          atLineStart := True\<rparr>)
         else if ch = CHR ''/'' \<and> peekChar src st 1 = CHR ''/'' then Inr (Again, skipComment src st)
         else if ch = CHR 0x22 then
           (case scanString src st of Inl e \<Rightarrow> Inl e | Inr st' \<Rightarrow> Inr (Again, st'))
         else if isdigit ch then Inr (Again, scanNumber src st)
         else if isIdentifierStart ch then Inr (Again, scanIdentifierOrKeyword src st)
         else (case scanOperator src st of Inl e \<Rightarrow> Inl e | Inr st' \<Rightarrow> Inr (Again, st'))))"

definition tokenizeStep :: "string \<Rightarrow> Lexer \<Rightarrow> error + (flow \<times> Lexer)" where
  "tokenizeStep src st =
     (if atLineStart st then
        (case countIndent src (current st) 0 of
           (temp, indentCount) \<Rightarrow>
             if temp \<ge> length src then Inr (Break, st\<lparr>current := temp\<rparr>)
             else
               (let next = src ! temp in
                if next = CHR 0x0A then scanToken src (st\<lparr>current := temp, column := 1\<rparr>)
                else if next = CHR ''/'' \<and> temp + 1 < length src \<and> src ! (temp + 1) = CHR ''/''
                then Inr (Again, skipComment src (st\<lparr>current := temp, column := indentCount + 1\<rparr>))
                else
                  (case handleIndentation indentCount (line st) st of
                     Inl e \<Rightarrow> Inl e
                   | Inr st1 \<Rightarrow>
                       scanToken src (st1\<lparr>current := temp, column := indentCount + 1,
                                         atLineStart := False\<rparr>))))
      else scanToken src st)"

subsection \<open>Every pass of the loop consumes input\<close>

lemma skipComment_current: "current st \<le> current (skipComment src st)"
proof (induction src st rule: skipComment.induct)
  case (1 src st)
  show ?case
    using 1 by (subst skipComment.simps) (auto split: if_splits)
qed

lemma skipComment_step:
  "current st < length src \<Longrightarrow> src ! current st \<noteq> CHR 0x0A \<Longrightarrow> current st < current (skipComment src st)"
  using skipComment_current [of "st\<lparr>current := current st + 1, column := column st + 1\<rparr>" src]
  by (subst skipComment.simps) simp

lemma skipComment_fields:
  "tokens (skipComment src st) = tokens st \<and> indentStack (skipComment src st) = indentStack st
   \<and> line (skipComment src st) = line st \<and> atLineStart (skipComment src st) = atLineStart st"
proof (induction src st rule: skipComment.induct)
  case (1 src st)
  show ?case
    using 1 by (subst (1 2 3 4) skipComment.simps) (auto split: if_splits)
qed

lemma scanIdentifierLoop_current: "current st \<le> current (scanIdentifierLoop src st)"
proof (induction src st rule: scanIdentifierLoop.induct)
  case (1 src st)
  show ?case
    using 1 by (subst scanIdentifierLoop.simps) (auto split: if_splits)
qed

lemma scanIdentifierLoop_step:
  "current st < length src \<Longrightarrow> isIdentifierPart (src ! current st) \<Longrightarrow>
   current st < current (scanIdentifierLoop src st)"
  using scanIdentifierLoop_current [of "st\<lparr>current := current st + 1, column := column st + 1\<rparr>" src]
  by (subst scanIdentifierLoop.simps) simp

lemma scanNumberLoop_current: "current st \<le> current (fst (scanNumberLoop src st d))"
proof (induction src st d rule: scanNumberLoop.induct)
  case (1 src st d)
  show ?case
    using 1 by (subst scanNumberLoop.simps) (auto simp: Let_def split: if_splits)
qed

lemma scanNumberLoop_step:
  "current st < length src \<Longrightarrow> isdigit (src ! current st) \<Longrightarrow>
   current st < current (fst (scanNumberLoop src st d))"
  using scanNumberLoop_current [of "st\<lparr>current := current st + 1, column := column st + 1\<rparr>" src d]
  by (subst scanNumberLoop.simps) (simp add: Let_def)

lemma scanStringLoop_current:
  "scanStringLoop src st v sc = Inr st' \<Longrightarrow> current st < current st'"
proof (induction src st v sc rule: scanStringLoop.induct)
  case (1 src st v sc)
  let ?ch = "src ! current st"
  let ?st1 = "st\<lparr>current := current st + 1, column := column st + 1\<rparr>"
  let ?st2 = "?st1\<lparr>current := current ?st1 + 1, column := column ?st1 + 1\<rparr>"
  note run = "1.prems" [unfolded scanStringLoop.simps [of src st v sc] Let_def]
  from run have lt: "current st < length src" by (simp split: if_splits)
  from run lt have nl: "?ch \<noteq> CHR 0x0A" by (simp split: if_splits)
  consider (quote) "?ch = CHR 0x22" | (esc) "?ch \<noteq> CHR 0x22" "?ch = CHR 0x5C"
    | (plain) "?ch \<noteq> CHR 0x22" "?ch \<noteq> CHR 0x5C" by blast
  then show ?case
  proof cases
    case quote
    with run lt nl show ?thesis by auto
  next
    case plain
    with run lt nl have "scanStringLoop src ?st1 (v @ [?ch]) sc = Inr st'" by simp
    from "1.IH"(2) [OF lt refl nl plain this] show ?thesis by simp
  next
    case esc
    with run lt nl have ge: "\<not> length src \<le> current ?st1" by (simp split: if_splits)
    with run lt nl esc obtain c where dec: "decodeEscape (src ! current ?st1) = Some c"
      and r: "scanStringLoop src ?st2 (v @ [c]) sc = Inr st'"
      by (auto split: option.splits)
    from "1.IH"(1) [OF lt refl nl esc refl ge dec r] show ?thesis by simp
  qed
qed

lemma scanOperator_current: "scanOperator src st = Inr st' \<Longrightarrow> current st < current st'"
  by (auto simp: scanOperator_def advanceBy_def pushToken_def Let_def split: if_splits)

lemma countIndent_temp: "countIndent src temp n = (t, k) \<Longrightarrow> temp \<le> t"
proof (induction src temp n rule: countIndent.induct)
  case (1 src temp n)
  from "1.prems" "1.IH" show ?case
    apply (subst (asm) countIndent.simps)
    apply (simp add: Let_def split: if_splits)
    done
qed

lemma isIdentifierStart_Part: "isIdentifierStart c \<Longrightarrow> isIdentifierPart c"
  by (auto simp: isIdentifierStart_def isIdentifierPart_def isalnum_def)

lemma scanNumber_current:
  "current st < length src \<Longrightarrow> isdigit (src ! current st) \<Longrightarrow> current st < current (scanNumber src st)"
  using scanNumberLoop_step [of st src False]
  by (auto simp: scanNumber_def Let_def split: prod.splits)

lemma scanIdentifierOrKeyword_current:
  "current st < length src \<Longrightarrow> isIdentifierStart (src ! current st) \<Longrightarrow>
   current st < current (scanIdentifierOrKeyword src st)"
  using scanIdentifierLoop_step [of st src]
  by (simp add: scanIdentifierOrKeyword_def Let_def isIdentifierStart_Part)

lemma scanString_current: "scanString src st = Inr st' \<Longrightarrow> current st < current st'"
  by (auto simp: scanString_def Let_def dest!: scanStringLoop_current)

lemma scanToken_current:
  assumes "scanToken src st = Inr (Again, st')"
  shows "current st < current st'"
proof -
  from assms have lt: "current st < length src"
    by (simp add: scanToken_def split: if_splits)
  from assms lt show ?thesis
    unfolding scanToken_def Let_def
    by (auto simp: advanceBy_def pushToken_def
        split: if_splits sum.splits
        dest: scanString_current scanOperator_current
        intro: skipComment_step scanNumber_current scanIdentifierOrKeyword_current)
qed

lemma handleIndentation_current:
  "handleIndentation n ln st = Inr st' \<Longrightarrow> current st' = current st"
  by (auto simp: handleIndentation_def split: list.splits if_splits option.splits)

lemma tokenizeStep_current:
  assumes "tokenizeStep src st = Inr (Again, st')" and "current st < length src"
  shows "current st < current st'"
proof (cases "atLineStart st")
  case False
  with assms show ?thesis by (simp add: tokenizeStep_def scanToken_current)
next
  case True
  obtain temp k where ci: "countIndent src (current st) 0 = (temp, k)" by force
  then have le: "current st \<le> temp" by (rule countIndent_temp)
  from assms True ci have lt: "temp < length src"
    by (simp add: tokenizeStep_def split: if_splits)
  show ?thesis
  proof (cases "src ! temp = CHR 0x0A")
    case nl: True
    with assms True ci lt
    have "scanToken src (st\<lparr>current := temp, column := 1\<rparr>) = Inr (Again, st')"
      by (simp add: tokenizeStep_def)
    from scanToken_current [OF this] le show ?thesis by simp
  next
    case nnl: False
    show ?thesis
    proof (cases "src ! temp = CHR ''/'' \<and> temp + 1 < length src \<and> src ! (temp + 1) = CHR ''/''")
      case True
      with assms \<open>atLineStart st\<close> ci lt nnl
      have "st' = skipComment src (st\<lparr>current := temp, column := k + 1\<rparr>)"
        by (simp add: tokenizeStep_def)
      with skipComment_step [of "st\<lparr>current := temp, column := k + 1\<rparr>" src] lt nnl le
      show ?thesis by simp
    next
      case False
      with assms \<open>atLineStart st\<close> ci lt nnl
      obtain st1 where h: "handleIndentation k (line st) st = Inr st1"
        and s: "scanToken src (st1\<lparr>current := temp, column := k + 1, atLineStart := False\<rparr>)
                  = Inr (Again, st')"
        by (auto simp: tokenizeStep_def Let_def split: sum.splits if_splits)
      from scanToken_current [OF s] le show ?thesis by simp
    qed
  qed
qed


function tokenizeLoop :: "string \<Rightarrow> Lexer \<Rightarrow> error + Lexer" where
  "tokenizeLoop src st =
     (if current st < length src then
        (case tokenizeStep src st of
           Inl e \<Rightarrow> Inl e
         | Inr (Break, st') \<Rightarrow> Inr st'
         | Inr (Again, st') \<Rightarrow> tokenizeLoop src st')
      else Inr st)"
  by pat_completeness auto
termination
proof (relation "measure (\<lambda>(src, st). length src - current st)")
  show "wf (measure (\<lambda>(src, st). length src - current st))" by simp
next
  fix src st x2 x1 st'
  assume "current st < length src" "tokenizeStep src st = Inr x2" "(x1, st') = x2" "x1 = Again"
  then have "current st < current st'"
    using tokenizeStep_current [of src st st'] by simp
  with \<open>current st < length src\<close>
  show "((src, st'), (src, st)) \<in> measure (\<lambda>(src, st). length src - current st)"
    by simp
qed

declare tokenizeLoop.simps [simp del]

text \<open>
  \<^verbatim>\<open>Lexer::tokenize\<close>: the loop, then \<^verbatim>\<open>emitPendingDedents(line_)\<close> and the final
  \<^verbatim>\<open>EndOfFile\<close>. An exception leaves no token vector behind.
\<close>

definition tokenize :: "string \<Rightarrow> error + Token list" where
  "tokenize src =
     (case tokenizeLoop src Lexer_init of
        Inl e \<Rightarrow> Inl e
      | Inr st \<Rightarrow> Inr (tokens (pushToken EndOfFile [] (emitPendingDedents (line st) st))))"

section \<open>Abstract syntax (ast.h)\<close>

datatype ValueType = Integer | Double | String | Boolean | Unknown

text \<open>
  An \<^verbatim>\<open>ExprPtr\<close> is a \<^verbatim>\<open>std::unique_ptr<Expression>\<close>, which may be null: \<open>None\<close>.
  \<^verbatim>\<open>LiteralExpr {type, text, boolValue}\<close>, \<^verbatim>\<open>VariableExpr {name}\<close>, \<^verbatim>\<open>UnaryExpr {op, operand}\<close>,
  \<^verbatim>\<open>BinaryExpr {op, left, right}\<close>.
\<close>

datatype Expression =
    LiteralExpr ValueType string bool
  | VariableExpr string
  | UnaryExpr string "Expression option"
  | BinaryExpr string "Expression option" "Expression option"

type_synonym ExprPtr = "Expression option"

definition makeLiteral :: "ValueType \<Rightarrow> string \<Rightarrow> bool \<Rightarrow> ExprPtr" where
  "makeLiteral type text boolValue = Some (LiteralExpr type text boolValue)"

definition makeVariable :: "string \<Rightarrow> ExprPtr" where
  "makeVariable name = Some (VariableExpr name)"

definition makeUnary :: "string \<Rightarrow> ExprPtr \<Rightarrow> ExprPtr" where
  "makeUnary op operand = Some (UnaryExpr op operand)"

definition makeBinary :: "string \<Rightarrow> ExprPtr \<Rightarrow> ExprPtr \<Rightarrow> ExprPtr" where
  "makeBinary op left right = Some (BinaryExpr op left right)"

text \<open>
  Statements. An \<^verbatim>\<open>IfStmt\<close> holds \<^verbatim>\<open>branches\<close>, \<^verbatim>\<open>elseBranch\<close> and \<^verbatim>\<open>hasElse\<close>; a \<^verbatim>\<open>Branch\<close> is a
  condition with a body. The parser never stores a null \<^verbatim>\<open>StmtPtr\<close>, and the generator
  dereferences every one without a test, so a statement vector is a list of statements.
\<close>

datatype Statement =
    VarDeclStmt ValueType string ExprPtr
  | AssignStmt string ExprPtr
  | InputStmt string
  | OutputStmt ExprPtr
  | IfStmt "Branch list" "Statement list" bool
  | WhileStmt ExprPtr "Statement list"
  | ForRangeStmt ValueType string ExprPtr ExprPtr "Statement list"
and Branch = Branch ExprPtr "Statement list"

datatype Program = Program (statements: "Statement list")

section \<open>Parser (parser.h, parser.cpp)\<close>

text \<open>
  The parser never writes \<^verbatim>\<open>tokens_\<close>; its state is the index \<^verbatim>\<open>current_\<close>. Every operation
  takes the token vector and the index and returns the new index with its result, or
  the exception it throws.
\<close>

definition bindE :: "error + 'a \<Rightarrow> ('a \<Rightarrow> error + 'b) \<Rightarrow> error + 'b" where
  "bindE m f = (case m of Inl e \<Rightarrow> Inl e | Inr x \<Rightarrow> f x)"

definition peek :: "Token list \<Rightarrow> nat \<Rightarrow> error + Token" where
  "peek ts cur = (if cur < length ts then Inr (ts ! cur) else Inl OutOfBounds)"

definition previous :: "Token list \<Rightarrow> nat \<Rightarrow> error + Token" where
  "previous ts cur = (if 0 < cur \<and> cur - 1 < length ts then Inr (ts ! (cur - 1)) else Inl OutOfBounds)"

definition isAtEnd :: "Token list \<Rightarrow> nat \<Rightarrow> error + bool" where
  "isAtEnd ts cur = bindE (peek ts cur) (\<lambda>t. Inr (ttype t = EndOfFile))"

definition check :: "TokenType \<Rightarrow> Token list \<Rightarrow> nat \<Rightarrow> error + bool" where
  "check type ts cur =
     bindE (isAtEnd ts cur) (\<lambda>atEnd.
       if atEnd then Inr False else bindE (peek ts cur) (\<lambda>t. Inr (ttype t = type)))"

definition advance :: "Token list \<Rightarrow> nat \<Rightarrow> error + (Token \<times> nat)" where
  "advance ts cur =
     bindE (isAtEnd ts cur) (\<lambda>atEnd.
       let cur' = (if \<not> atEnd then cur + 1 else cur)
       in bindE (previous ts cur') (\<lambda>t. Inr (t, cur')))"

definition consume :: "TokenType \<Rightarrow> string \<Rightarrow> Token list \<Rightarrow> nat \<Rightarrow> error + (Token \<times> nat)" where
  "consume type message ts cur =
     bindE (check type ts cur) (\<lambda>ok.
       if ok then advance ts cur else throwParserError message)"

definition match :: "TokenType \<Rightarrow> Token list \<Rightarrow> nat \<Rightarrow> error + (bool \<times> nat)" where
  "match type ts cur =
     bindE (check type ts cur) (\<lambda>ok.
       if ok then bindE (advance ts cur) (\<lambda>(t, cur'). Inr (True, cur'))
       else Inr (False, cur))"

lemma match_True:
  "match type ts cur = Inr (True, c) \<Longrightarrow> c = Suc cur \<and> cur < length ts"
  by (auto simp: match_def check_def isAtEnd_def peek_def advance_def previous_def bindE_def Let_def
      split: if_splits sum.splits)

lemma match_False: "match type ts cur = Inr (False, c) \<Longrightarrow> c = cur"
  by (auto simp: match_def check_def isAtEnd_def peek_def advance_def previous_def bindE_def Let_def
      split: if_splits sum.splits)

function skipNewlines :: "Token list \<Rightarrow> nat \<Rightarrow> error + nat" where
  "skipNewlines ts cur =
     (case match Newline ts cur of
        Inl e \<Rightarrow> Inl e
      | Inr (True, cur') \<Rightarrow> skipNewlines ts cur'
      | Inr (False, cur') \<Rightarrow> Inr cur')"
  by pat_completeness auto
termination
  by (relation "measure (\<lambda>(ts, cur). length ts - cur)") (auto dest!: match_True)

declare skipNewlines.simps [simp del]

definition expectNewline :: "string \<Rightarrow> Token list \<Rightarrow> nat \<Rightarrow> error + nat" where
  "expectNewline context ts cur =
     bindE (match Newline ts cur) (\<lambda>(m, cur1).
       if m then skipNewlines ts cur1
       else bindE (check Dedent ts cur1) (\<lambda>d.
              if d then Inr cur1
              else bindE (check EndOfFile ts cur1) (\<lambda>e.
                     if e then Inr cur1
                     else throwParserError (msg_expect_newline_after @ context))))"

definition parseTypeKeyword :: "string \<Rightarrow> Token list \<Rightarrow> nat \<Rightarrow> error + (ValueType \<times> nat)" where
  "parseTypeKeyword context ts cur =
     bindE (match KeywordInteger ts cur) (\<lambda>(m, c).
       if m then Inr (Integer, c) else
     bindE (match KeywordDouble ts c) (\<lambda>(m, c).
       if m then Inr (Double, c) else
     bindE (match KeywordString ts c) (\<lambda>(m, c).
       if m then Inr (String, c) else
     bindE (match KeywordLogic ts c) (\<lambda>(m, c).
       if m then Inr (Boolean, c) else
     throwParserError (msg_expect_type_for @ context)))))"

subsection \<open>Expressions\<close>

text \<open>
  The expression functions call one another recursively. The model gives each of them a
  bound on the depth of calls still allowed (its first argument), one less at every call,
  and \<open>OutOfFuel\<close> is the result when the bound is used up. A \<^verbatim>\<open>while\<close> loop is the
  function named after the C++ function with the suffix \<open>Loop\<close>; it takes the expression
  built so far (\<^verbatim>\<open>expr\<close>).
\<close>

function parseExpression :: "nat \<Rightarrow> Token list \<Rightarrow> nat \<Rightarrow> error + (ExprPtr \<times> nat)"
  and parseOr :: "nat \<Rightarrow> Token list \<Rightarrow> nat \<Rightarrow> error + (ExprPtr \<times> nat)"
  and parseOrLoop :: "nat \<Rightarrow> Token list \<Rightarrow> ExprPtr \<Rightarrow> nat \<Rightarrow> error + (ExprPtr \<times> nat)"
  and parseAnd :: "nat \<Rightarrow> Token list \<Rightarrow> nat \<Rightarrow> error + (ExprPtr \<times> nat)"
  and parseAndLoop :: "nat \<Rightarrow> Token list \<Rightarrow> ExprPtr \<Rightarrow> nat \<Rightarrow> error + (ExprPtr \<times> nat)"
  and parseEquality :: "nat \<Rightarrow> Token list \<Rightarrow> nat \<Rightarrow> error + (ExprPtr \<times> nat)"
  and parseEqualityLoop :: "nat \<Rightarrow> Token list \<Rightarrow> ExprPtr \<Rightarrow> nat \<Rightarrow> error + (ExprPtr \<times> nat)"
  and parseComparison :: "nat \<Rightarrow> Token list \<Rightarrow> nat \<Rightarrow> error + (ExprPtr \<times> nat)"
  and parseComparisonLoop :: "nat \<Rightarrow> Token list \<Rightarrow> ExprPtr \<Rightarrow> nat \<Rightarrow> error + (ExprPtr \<times> nat)"
  and parseTerm :: "nat \<Rightarrow> Token list \<Rightarrow> nat \<Rightarrow> error + (ExprPtr \<times> nat)"
  and parseTermLoop :: "nat \<Rightarrow> Token list \<Rightarrow> ExprPtr \<Rightarrow> nat \<Rightarrow> error + (ExprPtr \<times> nat)"
  and parseFactor :: "nat \<Rightarrow> Token list \<Rightarrow> nat \<Rightarrow> error + (ExprPtr \<times> nat)"
  and parseFactorLoop :: "nat \<Rightarrow> Token list \<Rightarrow> ExprPtr \<Rightarrow> nat \<Rightarrow> error + (ExprPtr \<times> nat)"
  and parsePower :: "nat \<Rightarrow> Token list \<Rightarrow> nat \<Rightarrow> error + (ExprPtr \<times> nat)"
  and parseUnary :: "nat \<Rightarrow> Token list \<Rightarrow> nat \<Rightarrow> error + (ExprPtr \<times> nat)"
  and parsePrimary :: "nat \<Rightarrow> Token list \<Rightarrow> nat \<Rightarrow> error + (ExprPtr \<times> nat)"
where
  "parseExpression 0 ts cur = Inl OutOfFuel"
| "parseExpression (Suc n) ts cur = parseOr n ts cur"

| "parseOr 0 ts cur = Inl OutOfFuel"
| "parseOr (Suc n) ts cur =
     bindE (parseAnd n ts cur) (\<lambda>(expr, c). parseOrLoop n ts expr c)"
| "parseOrLoop 0 ts expr cur = Inl OutOfFuel"
| "parseOrLoop (Suc n) ts expr cur =
     bindE (match KeywordOr ts cur) (\<lambda>(m, c).
       if m then bindE (parseAnd n ts c) (\<lambda>(right, c').
                   parseOrLoop n ts (makeBinary ''||'' expr right) c')
       else Inr (expr, c))"

| "parseAnd 0 ts cur = Inl OutOfFuel"
| "parseAnd (Suc n) ts cur =
     bindE (parseEquality n ts cur) (\<lambda>(expr, c). parseAndLoop n ts expr c)"
| "parseAndLoop 0 ts expr cur = Inl OutOfFuel"
| "parseAndLoop (Suc n) ts expr cur =
     bindE (match KeywordAnd ts cur) (\<lambda>(m, c).
       if m then bindE (parseEquality n ts c) (\<lambda>(right, c').
                   parseAndLoop n ts (makeBinary ''&&'' expr right) c')
       else Inr (expr, c))"

| "parseEquality 0 ts cur = Inl OutOfFuel"
| "parseEquality (Suc n) ts cur =
     bindE (parseComparison n ts cur) (\<lambda>(expr, c). parseEqualityLoop n ts expr c)"
| "parseEqualityLoop 0 ts expr cur = Inl OutOfFuel"
| "parseEqualityLoop (Suc n) ts expr cur =
     bindE (match Equal ts cur) (\<lambda>(m, c).
       if m then bindE (parseComparison n ts c) (\<lambda>(right, c').
                   parseEqualityLoop n ts (makeBinary ''=='' expr right) c')
       else Inr (expr, c))"

| "parseComparison 0 ts cur = Inl OutOfFuel"
| "parseComparison (Suc n) ts cur =
     bindE (parseTerm n ts cur) (\<lambda>(expr, c). parseComparisonLoop n ts expr c)"
| "parseComparisonLoop 0 ts expr cur = Inl OutOfFuel"
| "parseComparisonLoop (Suc n) ts expr cur =
     bindE (match Less ts cur) (\<lambda>(m, c).
       if m then bindE (parseTerm n ts c) (\<lambda>(right, c').
                   parseComparisonLoop n ts (makeBinary ''<'' expr right) c')
       else
     bindE (match LessEqual ts c) (\<lambda>(m, c).
       if m then bindE (parseTerm n ts c) (\<lambda>(right, c').
                   parseComparisonLoop n ts (makeBinary ''<='' expr right) c')
       else
     bindE (match Greater ts c) (\<lambda>(m, c).
       if m then bindE (parseTerm n ts c) (\<lambda>(right, c').
                   parseComparisonLoop n ts (makeBinary ''>'' expr right) c')
       else
     bindE (match GreaterEqual ts c) (\<lambda>(m, c).
       if m then bindE (parseTerm n ts c) (\<lambda>(right, c').
                   parseComparisonLoop n ts (makeBinary ''>='' expr right) c')
       else Inr (expr, c)))))"

| "parseTerm 0 ts cur = Inl OutOfFuel"
| "parseTerm (Suc n) ts cur =
     bindE (parseFactor n ts cur) (\<lambda>(expr, c). parseTermLoop n ts expr c)"
| "parseTermLoop 0 ts expr cur = Inl OutOfFuel"
| "parseTermLoop (Suc n) ts expr cur =
     bindE (match Plus ts cur) (\<lambda>(m, c).
       if m then bindE (parseFactor n ts c) (\<lambda>(right, c').
                   parseTermLoop n ts (makeBinary ''+'' expr right) c')
       else
     bindE (match Minus ts c) (\<lambda>(m, c).
       if m then bindE (parseFactor n ts c) (\<lambda>(right, c').
                   parseTermLoop n ts (makeBinary ''-'' expr right) c')
       else Inr (expr, c)))"

| "parseFactor 0 ts cur = Inl OutOfFuel"
| "parseFactor (Suc n) ts cur =
     bindE (parsePower n ts cur) (\<lambda>(expr, c). parseFactorLoop n ts expr c)"
| "parseFactorLoop 0 ts expr cur = Inl OutOfFuel"
| "parseFactorLoop (Suc n) ts expr cur =
     bindE (match Star ts cur) (\<lambda>(m, c).
       if m then bindE (parsePower n ts c) (\<lambda>(right, c').
                   parseFactorLoop n ts (makeBinary ''*'' expr right) c')
       else
     bindE (match Slash ts c) (\<lambda>(m, c).
       if m then bindE (parsePower n ts c) (\<lambda>(right, c').
                   parseFactorLoop n ts (makeBinary ''/'' expr right) c')
       else
     bindE (match Percent ts c) (\<lambda>(m, c).
       if m then bindE (parsePower n ts c) (\<lambda>(right, c').
                   parseFactorLoop n ts (makeBinary ''%'' expr right) c')
       else Inr (expr, c))))"

| "parsePower 0 ts cur = Inl OutOfFuel"
| "parsePower (Suc n) ts cur =
     bindE (parseUnary n ts cur) (\<lambda>(expr, c).
     bindE (match Caret ts c) (\<lambda>(m, c).
       if m then bindE (parsePower n ts c) (\<lambda>(right, c').
                   Inr (makeBinary ''^'' expr right, c'))
       else Inr (expr, c)))"

| "parseUnary 0 ts cur = Inl OutOfFuel"
| "parseUnary (Suc n) ts cur =
     bindE (match Minus ts cur) (\<lambda>(m, c).
       if m then bindE (parseUnary n ts c) (\<lambda>(operand, c'). Inr (makeUnary ''-'' operand, c'))
       else
     bindE (match KeywordNot ts c) (\<lambda>(m, c).
       if m then bindE (parseUnary n ts c) (\<lambda>(operand, c'). Inr (makeUnary ''!'' operand, c'))
       else parsePrimary n ts c))"

| "parsePrimary 0 ts cur = Inl OutOfFuel"
| "parsePrimary (Suc n) ts cur =
     bindE (match IntegerLiteral ts cur) (\<lambda>(m, c).
       if m then bindE (previous ts c) (\<lambda>t. Inr (makeLiteral Integer (lexeme t) False, c))
       else
     bindE (match DoubleLiteral ts c) (\<lambda>(m, c).
       if m then bindE (previous ts c) (\<lambda>t. Inr (makeLiteral Double (lexeme t) False, c))
       else
     bindE (match StringLiteral ts c) (\<lambda>(m, c).
       if m then bindE (previous ts c) (\<lambda>t. Inr (makeLiteral String (lexeme t) False, c))
       else
     bindE (match KeywordTrue ts c) (\<lambda>(m, c).
       if m then Inr (makeLiteral Boolean ''true'' True, c)
       else
     bindE (match KeywordFalse ts c) (\<lambda>(m, c).
       if m then Inr (makeLiteral Boolean ''false'' False, c)
       else
     bindE (match Identifier ts c) (\<lambda>(m, c).
       if m then bindE (previous ts c) (\<lambda>t. Inr (makeVariable (lexeme t), c))
       else
     bindE (match LeftParen ts c) (\<lambda>(m, c).
       if m then bindE (parseExpression n ts c) (\<lambda>(expr, c').
                 bindE (consume RightParen msg_expect_rparen ts c') (\<lambda>(t, c'').
                   Inr (expr, c'')))
       else
     bindE (peek ts c) (\<lambda>t.
       throwParserError (msg_unexpected_token @ lexeme t @ [CHR 0x27])))))))))"
  by pat_completeness auto
termination
  by (relation "measure (case_sum
         (case_sum (case_sum (case_sum fst fst)
           (case_sum fst fst)) (case_sum (case_sum fst fst) (case_sum fst fst)))
         (case_sum (case_sum (case_sum fst fst)
           (case_sum fst fst)) (case_sum (case_sum fst fst) (case_sum fst fst))))") auto


subsection \<open>Statements\<close>

definition parseParenthesizedCondition ::
  "nat \<Rightarrow> string \<Rightarrow> Token list \<Rightarrow> nat \<Rightarrow> error + (ExprPtr \<times> nat)" where
  "parseParenthesizedCondition n context ts cur =
     bindE (consume LeftParen (msg_expect_lparen_after @ context) ts cur) (\<lambda>(t, c).
     bindE (parseExpression n ts c) (\<lambda>(condition, c).
     bindE (consume RightParen (msg_expect_rparen_cond @ context) ts c) (\<lambda>(t, c).
     Inr (condition, c))))"

definition parseVarDecl :: "nat \<Rightarrow> Token list \<Rightarrow> nat \<Rightarrow> error + (Statement \<times> nat)" where
  "parseVarDecl n ts cur =
     bindE (advance ts cur) (\<lambda>(typeToken, c).
       let type = (if ttype typeToken = KeywordInteger then Integer
                   else if ttype typeToken = KeywordDouble then Double
                   else if ttype typeToken = KeywordString then String
                   else if ttype typeToken = KeywordLogic then Boolean
                   else Unknown) in
     bindE (consume Identifier msg_expect_var_name ts c) (\<lambda>(name, c).
     bindE (match Assign ts c) (\<lambda>(m, c).
     bindE (if m then parseExpression n ts c else Inr (None, c)) (\<lambda>(initializer, c).
     bindE (expectNewline ctx_var_decl ts c) (\<lambda>c.
     Inr (VarDeclStmt type (lexeme name) initializer, c))))))"

definition parseAssignment :: "nat \<Rightarrow> Token list \<Rightarrow> nat \<Rightarrow> error + (Statement \<times> nat)" where
  "parseAssignment n ts cur =
     bindE (advance ts cur) (\<lambda>(name, c).
     bindE (consume Assign msg_expect_assign ts c) (\<lambda>(t, c).
     bindE (parseExpression n ts c) (\<lambda>(val, c).
     bindE (expectNewline ctx_assignment ts c) (\<lambda>c.
     Inr (AssignStmt (lexeme name) val, c)))))"

definition parseInput :: "Token list \<Rightarrow> nat \<Rightarrow> error + (Statement \<times> nat)" where
  "parseInput ts cur =
     bindE (advance ts cur) (\<lambda>(t, c).
     bindE (consume Identifier msg_expect_input_var ts c) (\<lambda>(name, c).
     bindE (expectNewline ctx_input ts c) (\<lambda>c.
     Inr (InputStmt (lexeme name), c))))"

definition parseOutput :: "nat \<Rightarrow> Token list \<Rightarrow> nat \<Rightarrow> error + (Statement \<times> nat)" where
  "parseOutput n ts cur =
     bindE (advance ts cur) (\<lambda>(t, c).
     bindE (parseExpression n ts c) (\<lambda>(val, c).
     bindE (expectNewline ctx_output ts c) (\<lambda>c.
     Inr (OutputStmt val, c))))"

text \<open>
  The statement functions that recurse through \<^verbatim>\<open>parseIndentedBlock\<close>, with the same bound
  on the depth of calls (the other statement functions pass it on to \<open>parseExpression\<close>). \<open>parseIfLoop\<close> is the \<^verbatim>\<open>while (match(KeywordElse))\<close> loop of \<^verbatim>\<open>parseIf\<close>
  on the branches collected so far, \<open>parseBlockLoop\<close> the loop of \<^verbatim>\<open>parseIndentedBlock\<close> on
  its \<^verbatim>\<open>body\<close>.
\<close>

function parseStatement :: "nat \<Rightarrow> Token list \<Rightarrow> nat \<Rightarrow> error + (Statement \<times> nat)"
  and parseIf :: "nat \<Rightarrow> Token list \<Rightarrow> nat \<Rightarrow> error + (Statement \<times> nat)"
  and parseIfLoop :: "nat \<Rightarrow> Token list \<Rightarrow> Branch list \<Rightarrow> nat \<Rightarrow> error + (Statement \<times> nat)"
  and parseWhile :: "nat \<Rightarrow> Token list \<Rightarrow> nat \<Rightarrow> error + (Statement \<times> nat)"
  and parseFor :: "nat \<Rightarrow> Token list \<Rightarrow> nat \<Rightarrow> error + (Statement \<times> nat)"
  and parseIndentedBlock :: "nat \<Rightarrow> string \<Rightarrow> Token list \<Rightarrow> nat \<Rightarrow> error + (Statement list \<times> nat)"
  and parseBlockLoop :: "nat \<Rightarrow> Token list \<Rightarrow> Statement list \<Rightarrow> nat \<Rightarrow> error + (Statement list \<times> nat)"
where
  "parseStatement 0 ts cur = Inl OutOfFuel"
| "parseStatement (Suc n) ts cur =
     bindE (check Indent ts cur) (\<lambda>ind.
       if ind then throwParserError msg_unexpected_indent else
     bindE (peek ts cur) (\<lambda>t.
       if isTypeKeyword (ttype t) then parseVarDecl n ts cur
       else if ttype t = KeywordInput then parseInput ts cur
       else if ttype t = KeywordOutput then parseOutput n ts cur
       else if ttype t = KeywordIf then parseIf n ts cur
       else if ttype t = KeywordWhile then parseWhile n ts cur
       else if ttype t = KeywordFor then parseFor n ts cur
       else if ttype t = Identifier then parseAssignment n ts cur
       else throwParserError (msg_unexpected_word @ lexeme t @ [CHR 0x27])))"

| "parseIf 0 ts cur = Inl OutOfFuel"
| "parseIf (Suc n) ts cur =
     bindE (advance ts cur) (\<lambda>(t, c).
     bindE (parseParenthesizedCondition n kw_esli ts c) (\<lambda>(condition, c).
     bindE (parseIndentedBlock n ctx_if ts c) (\<lambda>(ifBody, c).
     parseIfLoop n ts [Branch condition ifBody] c)))"

| "parseIfLoop 0 ts branches cur = Inl OutOfFuel"
| "parseIfLoop (Suc n) ts branches cur =
     bindE (match KeywordElse ts cur) (\<lambda>(m, c).
       if m then
         bindE (match KeywordIf ts c) (\<lambda>(m, c).
           if m then
             bindE (parseParenthesizedCondition n cond_else_if ts c) (\<lambda>(elseIfCond, c).
             bindE (parseIndentedBlock n ctx_else_if ts c) (\<lambda>(elseIfBody, c).
             parseIfLoop n ts (branches @ [Branch elseIfCond elseIfBody]) c))
           else
             bindE (parseIndentedBlock n ctx_else ts c) (\<lambda>(elseBranch, c).
             Inr (IfStmt branches elseBranch True, c)))
       else Inr (IfStmt branches [] False, c))"

| "parseWhile 0 ts cur = Inl OutOfFuel"
| "parseWhile (Suc n) ts cur =
     bindE (advance ts cur) (\<lambda>(t, c).
     bindE (parseParenthesizedCondition n kw_poka ts c) (\<lambda>(condition, c).
     bindE (parseIndentedBlock n ctx_while ts c) (\<lambda>(body, c).
     Inr (WhileStmt condition body, c))))"

| "parseFor 0 ts cur = Inl OutOfFuel"
| "parseFor (Suc n) ts cur =
     bindE (advance ts cur) (\<lambda>(t, c).
     bindE (consume LeftParen msg_expect_lparen_for ts c) (\<lambda>(t, c).
     bindE (parseTypeKeyword ctx_for ts c) (\<lambda>(type, c).
     bindE (consume Identifier msg_expect_counter ts c) (\<lambda>(name, c).
     bindE (consume KeywordFrom msg_expect_from ts c) (\<lambda>(t, c).
     bindE (parseExpression n ts c) (\<lambda>(from, c).
     bindE (consume KeywordTo msg_expect_to ts c) (\<lambda>(t, c).
     bindE (parseExpression n ts c) (\<lambda>(to, c).
     bindE (consume RightParen msg_expect_rparen_for ts c) (\<lambda>(t, c).
     bindE (parseIndentedBlock n ctx_for ts c) (\<lambda>(body, c).
     Inr (ForRangeStmt type (lexeme name) from to body, c)))))))))))"

| "parseIndentedBlock 0 context ts cur = Inl OutOfFuel"
| "parseIndentedBlock (Suc n) context ts cur =
     bindE (consume Newline (msg_expect_line_after @ context) ts cur) (\<lambda>(t, c).
     bindE (consume Indent (msg_expect_indent_after @ context) ts c) (\<lambda>(t, c).
     bindE (skipNewlines ts c) (\<lambda>c.
     bindE (parseBlockLoop n ts [] c) (\<lambda>(body, c).
     bindE (consume Dedent (msg_expect_block_end @ context) ts c) (\<lambda>(t, c).
     Inr (body, c))))))"

| "parseBlockLoop 0 ts body cur = Inl OutOfFuel"
| "parseBlockLoop (Suc n) ts body cur =
     bindE (check Dedent ts cur) (\<lambda>dedent.
       if dedent then Inr (body, cur) else
     bindE (isAtEnd ts cur) (\<lambda>atEnd.
       if atEnd then Inr (body, cur) else
     bindE (parseStatement n ts cur) (\<lambda>(stmt, c).
     bindE (skipNewlines ts c) (\<lambda>c.
     parseBlockLoop n ts (body @ [stmt]) c))))"
  by pat_completeness auto
termination
  by (relation "measure (case_sum
         (case_sum fst (case_sum fst fst))
         (case_sum (case_sum fst fst) (case_sum fst fst)))") auto


text \<open>
  \<^verbatim>\<open>Parser::parseProgram\<close>. Its loop takes the statements collected so far and the bound on
  the depth of calls; \<open>parseFuel\<close> is the bound \<open>parseProgram\<close> starts from.
\<close>

fun parseProgramLoop :: "nat \<Rightarrow> Token list \<Rightarrow> Statement list \<Rightarrow> nat \<Rightarrow> error + Program" where
  "parseProgramLoop 0 ts stmts cur = Inl OutOfFuel"
| "parseProgramLoop (Suc n) ts stmts cur =
     bindE (isAtEnd ts cur) (\<lambda>atEnd.
       if atEnd then Inr (Program stmts) else
     bindE (parseStatement n ts cur) (\<lambda>(stmt, c).
     bindE (skipNewlines ts c) (\<lambda>c.
     parseProgramLoop n ts (stmts @ [stmt]) c)))"

definition parseFuel :: "Token list \<Rightarrow> nat" where
  "parseFuel ts = 16 * length ts + 16"

definition parseProgram :: "Token list \<Rightarrow> error + Program" where
  "parseProgram ts =
     bindE (skipNewlines ts 0) (\<lambda>c. parseProgramLoop (parseFuel ts) ts [] c)"

section \<open>Code generator (codegen.cpp)\<close>

subsection \<open>Name mangler\<close>

text \<open>
  \<^verbatim>\<open>class NameMangler\<close>: the counter and the vector of scopes, each scope an
  \<^verbatim>\<open>unordered_map\<close> from the original name to the renamed one. The back of \<^verbatim>\<open>scopes_\<close> is the
  head of the list. The constructor puts one scope there and \<^verbatim>\<open>popScope\<close> never removes the
  last one, so \<^verbatim>\<open>scopes_.back()\<close> in \<^verbatim>\<open>declare\<close> always exists; on an empty vector (which the
  C++ leaves undefined) the model changes only the counter.
\<close>

record NameMangler =
  counter :: nat
  scopes :: "(string \<rightharpoonup> string) list"

definition NameMangler_init :: NameMangler where
  "NameMangler_init = \<lparr>counter = 0, scopes = [Map.empty]\<rparr>"

definition pushScope :: "NameMangler \<Rightarrow> NameMangler" where
  "pushScope m = m\<lparr>scopes := Map.empty # scopes m\<rparr>"

definition popScope :: "NameMangler \<Rightarrow> NameMangler" where
  "popScope m = (if length (scopes m) > 1 then m\<lparr>scopes := tl (scopes m)\<rparr> else m)"

definition declareName :: "string \<Rightarrow> NameMangler \<Rightarrow> string \<times> NameMangler" where
  "declareName original m =
     (let n = counter m + 1;
          renamed = ''vr_'' @ to_string n
      in (renamed,
          m\<lparr>counter := n,
            scopes := (case scopes m of
                         [] \<Rightarrow> []
                       | back # rest \<Rightarrow> (back(original \<mapsto> renamed)) # rest)\<rparr>))"

fun resolveIn :: "(string \<rightharpoonup> string) list \<Rightarrow> string \<Rightarrow> string" where
  "resolveIn [] original = original"
| "resolveIn (scope # rest) original =
     (case scope original of Some found \<Rightarrow> found | None \<Rightarrow> resolveIn rest original)"

definition resolve :: "string \<Rightarrow> NameMangler \<Rightarrow> string" where
  "resolve original m = resolveIn (scopes m) original"

subsection \<open>Emission\<close>

definition indent :: "nat \<Rightarrow> string" where
  "indent level = replicate (level * 4) CHR '' ''"

definition cppType :: "ValueType \<Rightarrow> string" where
  "cppType type =
     (case type of
        Integer \<Rightarrow> ''int''
      | Double \<Rightarrow> ''double''
      | String \<Rightarrow> ''std::string''
      | Boolean \<Rightarrow> ''bool''
      | Unknown \<Rightarrow> ''auto'')"

text \<open>The \<^verbatim>\<open>switch (ch)\<close> of \<^verbatim>\<open>escapeString\<close>, and its loop over the characters.\<close>

definition escapeChar :: "char \<Rightarrow> string" where
  "escapeChar ch =
     (if ch = CHR 0x5C then [CHR 0x5C, CHR 0x5C]
      else if ch = CHR 0x22 then [CHR 0x5C, CHR 0x22]
      else if ch = CHR 0x0A then [CHR 0x5C, CHR ''n'']
      else if ch = CHR 0x09 then [CHR 0x5C, CHR ''t'']
      else [ch])"

fun escapeString :: "string \<Rightarrow> string" where
  "escapeString [] = []"
| "escapeString (ch # rest) = escapeChar ch @ escapeString rest"

fun emitExpression :: "ExprPtr \<Rightarrow> NameMangler \<Rightarrow> string" where
  "emitExpression None mangler = ''0''"
| "emitExpression (Some (LiteralExpr type text boolValue)) mangler =
     (case type of
        Integer \<Rightarrow> text
      | Double \<Rightarrow> text
      | String \<Rightarrow> [CHR 0x22] @ escapeString text @ [CHR 0x22]
      | Boolean \<Rightarrow> (if boolValue then ''true'' else ''false'')
      | Unknown \<Rightarrow> text)"
| "emitExpression (Some (VariableExpr name)) mangler = resolve name mangler"
| "emitExpression (Some (UnaryExpr op operand)) mangler =
     op @ ''('' @ emitExpression operand mangler @ '')''"
| "emitExpression (Some (BinaryExpr op left right)) mangler =
     (if op = ''^'' then
        ''std::pow('' @ emitExpression left mangler @ '', '' @ emitExpression right mangler @ '')''
      else
        ''('' @ emitExpression left mangler @ '' '' @ op @ '' '' @ emitExpression right mangler
          @ '')'')"

text \<open>
  The statement emitters write to the stream \<^verbatim>\<open>out\<close> and change the mangler; the model
  passes both in and returns both. \<open>emitBranches\<close> is the \<^verbatim>\<open>for\<close> loop over
  \<^verbatim>\<open>ifStmt.branches\<close> from index \<open>i\<close>, \<open>emitStatementsLoop\<close> the loop of \<^verbatim>\<open>emitStatements\<close>.
\<close>

function (sequential) emitStatement :: "Statement \<Rightarrow> nat \<Rightarrow> string \<Rightarrow> NameMangler \<Rightarrow> string \<times> NameMangler"
  and emitBranches :: "Branch list \<Rightarrow> nat \<Rightarrow> nat \<Rightarrow> string \<Rightarrow> NameMangler \<Rightarrow> string \<times> NameMangler"
  and emitStatements :: "Statement list \<Rightarrow> nat \<Rightarrow> string \<Rightarrow> NameMangler \<Rightarrow> bool \<Rightarrow> string \<times> NameMangler"
  and emitStatementsLoop :: "Statement list \<Rightarrow> nat \<Rightarrow> string \<Rightarrow> NameMangler \<Rightarrow> string \<times> NameMangler"
where
  "emitStatement (VarDeclStmt type name initializer) indentLevel out mangler =
     (case declareName name mangler of
        (cppName, mangler) \<Rightarrow>
          (out @ indent indentLevel @ cppType type @ '' '' @ cppName
             @ (if initializer \<noteq> None then '' = '' @ emitExpression initializer mangler
                else ''{}'')
             @ [CHR '';'', CHR 0x0A],
           mangler))"
| "emitStatement (AssignStmt name val) indentLevel out mangler =
     (out @ indent indentLevel @ resolve name mangler @ '' = '' @ emitExpression val mangler
        @ [CHR '';'', CHR 0x0A],
      mangler)"
| "emitStatement (InputStmt name) indentLevel out mangler =
     (out @ indent indentLevel @ ''std::cin >> '' @ resolve name mangler @ [CHR '';'', CHR 0x0A],
      mangler)"
| "emitStatement (OutputStmt val) indentLevel out mangler =
     (out @ indent indentLevel @ ''std::cout << '' @ emitExpression val mangler
        @ '' << std::endl;'' @ [CHR 0x0A],
      mangler)"
| "emitStatement (IfStmt branches elseBranch hasElse) indentLevel out mangler =
     (case emitBranches branches 0 indentLevel out mangler of
        (out, mangler) \<Rightarrow>
          if hasElse then
            (case emitStatements elseBranch (indentLevel + 1)
                    (out @ indent indentLevel @ ''else {'' @ [CHR 0x0A]) mangler True of
               (out, mangler) \<Rightarrow> (out @ indent indentLevel @ ''}'' @ [CHR 0x0A], mangler))
          else (out, mangler))"
| "emitStatement (WhileStmt condition body) indentLevel out mangler =
     (case emitStatements body (indentLevel + 1)
             (out @ indent indentLevel @ ''while ('' @ emitExpression condition mangler
                @ '') {'' @ [CHR 0x0A])
             mangler True of
        (out, mangler) \<Rightarrow> (out @ indent indentLevel @ ''}'' @ [CHR 0x0A], mangler))"
| "emitStatement (ForRangeStmt type name from to body) indentLevel out mangler =
     (case declareName name (pushScope mangler) of
        (loopName, mangler) \<Rightarrow>
          (case emitStatements body (indentLevel + 1)
                  (out @ indent indentLevel @ ''for ('' @ cppType type @ '' '' @ loopName
                     @ '' = '' @ emitExpression from mangler @ ''; '' @ loopName @ '' <= ''
                     @ emitExpression to mangler @ ''; ++'' @ loopName @ '') {'' @ [CHR 0x0A])
                  mangler True of
             (out, mangler) \<Rightarrow>
               (out @ indent indentLevel @ ''}'' @ [CHR 0x0A], popScope mangler)))"

| "emitBranches [] i indentLevel out mangler = (out, mangler)"
| "emitBranches (Branch condition body # branches) i indentLevel out mangler =
     (case emitStatements body (indentLevel + 1)
             (out @ indent indentLevel @ (if i = 0 then ''if'' else ''else if'') @ '' (''
                @ emitExpression condition mangler @ '') {'' @ [CHR 0x0A])
             mangler True of
        (out, mangler) \<Rightarrow>
          emitBranches branches (i + 1) indentLevel
            (out @ indent indentLevel @ ''}'' @ [CHR 0x0A]) mangler)"

| "emitStatements stmts indentLevel out mangler createNewScope =
     (case emitStatementsLoop stmts indentLevel out
             (if createNewScope then pushScope mangler else mangler) of
        (out, mangler) \<Rightarrow> (out, if createNewScope then popScope mangler else mangler))"

| "emitStatementsLoop [] indentLevel out mangler = (out, mangler)"
| "emitStatementsLoop (stmt # rest) indentLevel out mangler =
     (case emitStatement stmt indentLevel out mangler of
        (out, mangler) \<Rightarrow> emitStatementsLoop rest indentLevel out mangler)"

  by pat_completeness auto
termination
  by (relation "measure (case_sum
         (case_sum (\<lambda>(s, lvl, out, m). 2 * size s)
                   (\<lambda>(bs, i, lvl, out, m). 2 * size_list size bs))
         (case_sum (\<lambda>(ss, lvl, out, m, b). 2 * size_list size ss + 1)
                   (\<lambda>(ss, lvl, out, m). 2 * size_list size ss)))") auto

text \<open>\<^verbatim>\<open>CodeGenerator::generate\<close>\<close>

definition generate :: "Program \<Rightarrow> string" where
  "generate program =
     (case emitStatements (statements program) 1
             (''#include <cmath>'' @ [CHR 0x0A] @
              ''#include <iostream>'' @ [CHR 0x0A] @
              ''#include <string>'' @ [CHR 0x0A, CHR 0x0A] @
              ''int main() {'' @ [CHR 0x0A] @
              indent 1 @ ''std::ios_base::sync_with_stdio(false);'' @ [CHR 0x0A])
             NameMangler_init False of
        (out, mangler) \<Rightarrow> out @ indent 1 @ ''return 0;'' @ [CHR 0x0A] @ ''}'' @ [CHR 0x0A])"

section \<open>The pipeline (\<^verbatim>\<open>translateAndRun\<close> in app.cpp, up to the generated text)\<close>

definition translate :: "string \<Rightarrow> error + string" where
  "translate source =
     bindE (tokenize source) (\<lambda>tokens.
     bindE (parseProgram tokens) (\<lambda>program.
     Inr (generate program)))"

section \<open>Invariants of the lexer\<close>

subsection \<open>Messages as C strings\<close>

text \<open>
  The messages that are built from the literals of the source and from decimal numbers
  have no NUL byte, so \<^verbatim>\<open>what()\<close> gives all of them. A message that quotes a character or a
  lexeme of the input is cut where that has a NUL byte.
\<close>

lemma c_str_noNul: "CHR 0x00 \<notin> set s \<Longrightarrow> c_str s = s"
  by (induction s) (auto simp: c_str_def)

lemma c_str_append: "CHR 0x00 \<notin> set a \<Longrightarrow> c_str (a @ b) = a @ c_str b"
  by (induction a) (auto simp: c_str_def)

lemma c_str_NUL: "c_str (CHR 0x00 # s) = []"
  by (simp add: c_str_def)

lemma c_str_Cons: "ch \<noteq> CHR 0x00 \<Longrightarrow> c_str (ch # s) = ch # c_str s"
  by (simp add: c_str_def)

lemma digit_char_noNul: "d < 10 \<Longrightarrow> digit_char d \<noteq> CHR 0x00"
proof
  assume d: "d < 10" and "digit_char d = CHR 0x00"
  then have "(of_char (digit_char d) :: nat) = of_char (CHR 0x00)" by simp
  with d show False by (simp add: digit_char_def)
qed

lemma to_string_noNul: "CHR 0x00 \<notin> set (to_string n)"
proof (induction n rule: to_string.induct)
  case (1 n)
  show ?case
  proof (cases "n < 10")
    case True
    then show ?thesis
      using digit_char_noNul [of n] by (subst to_string.simps) auto
  next
    case False
    with 1 show ?thesis
      using digit_char_noNul [of "n mod 10"] by (subst to_string.simps) auto
  qed
qed

lemma messages_noNul:
  shows "CHR 0x00 \<notin> set msg_string_newline"
    "CHR 0x00 \<notin> set msg_escape_unfinished"
    "CHR 0x00 \<notin> set msg_escape_unknown"
    "CHR 0x00 \<notin> set msg_string_unclosed"
    "CHR 0x00 \<notin> set msg_unknown_char"
    "CHR 0x00 \<notin> set msg_on_line"
    "CHR 0x00 \<notin> set msg_bad_indent"
    "CHR 0x00 \<notin> set msg_expect_newline_after"
    "CHR 0x00 \<notin> set msg_expect_type_for"
    "CHR 0x00 \<notin> set msg_unexpected_indent"
    "CHR 0x00 \<notin> set msg_unexpected_word"
    "CHR 0x00 \<notin> set msg_expect_var_name"
    "CHR 0x00 \<notin> set ctx_var_decl"
    "CHR 0x00 \<notin> set msg_expect_assign"
    "CHR 0x00 \<notin> set ctx_assignment"
    "CHR 0x00 \<notin> set msg_expect_input_var"
    "CHR 0x00 \<notin> set ctx_input"
    "CHR 0x00 \<notin> set ctx_output"
    "CHR 0x00 \<notin> set ctx_if"
    "CHR 0x00 \<notin> set ctx_else_if"
    "CHR 0x00 \<notin> set ctx_else"
    "CHR 0x00 \<notin> set cond_else_if"
    "CHR 0x00 \<notin> set ctx_while"
    "CHR 0x00 \<notin> set ctx_for"
    "CHR 0x00 \<notin> set msg_expect_lparen_for"
    "CHR 0x00 \<notin> set msg_expect_counter"
    "CHR 0x00 \<notin> set msg_expect_from"
    "CHR 0x00 \<notin> set msg_expect_to"
    "CHR 0x00 \<notin> set msg_expect_rparen_for"
    "CHR 0x00 \<notin> set msg_expect_line_after"
    "CHR 0x00 \<notin> set msg_expect_indent_after"
    "CHR 0x00 \<notin> set msg_expect_block_end"
    "CHR 0x00 \<notin> set msg_expect_rparen"
    "CHR 0x00 \<notin> set msg_unexpected_token"
    "CHR 0x00 \<notin> set msg_expect_lparen_after"
    "CHR 0x00 \<notin> set msg_expect_rparen_cond"
    "CHR 0x00 \<notin> set kw_esli"
    "CHR 0x00 \<notin> set kw_poka"
  by (simp_all add: msg_string_newline_def msg_escape_unfinished_def msg_escape_unknown_def msg_string_unclosed_def msg_unknown_char_def msg_on_line_def msg_bad_indent_def msg_expect_newline_after_def msg_expect_type_for_def msg_unexpected_indent_def msg_unexpected_word_def msg_expect_var_name_def ctx_var_decl_def msg_expect_assign_def ctx_assignment_def msg_expect_input_var_def ctx_input_def ctx_output_def ctx_if_def ctx_else_if_def ctx_else_def cond_else_if_def ctx_while_def ctx_for_def msg_expect_lparen_for_def msg_expect_counter_def msg_expect_from_def msg_expect_to_def msg_expect_rparen_for_def msg_expect_line_after_def msg_expect_indent_after_def msg_expect_block_end_def msg_expect_rparen_def msg_unexpected_token_def msg_expect_lparen_after_def msg_expect_rparen_cond_def kw_esli_def kw_poka_def)

lemma c_str_numbered: "CHR 0x00 \<notin> set a \<Longrightarrow> c_str (a @ to_string n) = a @ to_string n"
  by (simp add: c_str_noNul to_string_noNul)

text \<open>
  The structural tokens are \<^verbatim>\<open>EOF\<close>, \<^verbatim>\<open>NEWLINE\<close>, \<^verbatim>\<open>INDENT\<close> and \<^verbatim>\<open>DEDENT\<close>; \<open>countType\<close> counts
  the tokens of one type.
\<close>

definition structural :: "TokenType \<Rightarrow> bool" where
  "structural t \<longleftrightarrow> t = EndOfFile \<or> t = Newline \<or> t = Indent \<or> t = Dedent"

definition countType :: "TokenType \<Rightarrow> Token list \<Rightarrow> nat" where
  "countType ty toks = length (filter (\<lambda>t. ttype t = ty) toks)"

lemma countType_append [simp]: "countType ty (xs @ ys) = countType ty xs + countType ty ys"
  by (simp add: countType_def)

lemma countType_Nil [simp]: "countType ty [] = 0"
  by (simp add: countType_def)

lemma countType_single [simp]: "countType ty [t] = (if ttype t = ty then 1 else 0)"
  by (simp add: countType_def)

lemma countType_replicate [simp]:
  "countType ty (replicate k t) = (if ttype t = ty then k else 0)"
  by (induction k) (auto simp: countType_def)

lemma kKeywords_not_structural:
  assumes "map_of kKeywords text = Some k"
  shows "\<not> structural k"
proof -
  from assms have "(text, k) \<in> set kKeywords" by (rule map_of_SomeD)
  then show ?thesis by (auto simp: kKeywords_def structural_def)
qed

lemma scanIdentifierLoop_fields:
  "tokens (scanIdentifierLoop src st) = tokens st \<and>
   indentStack (scanIdentifierLoop src st) = indentStack st"
proof (induction src st rule: scanIdentifierLoop.induct)
  case (1 src st)
  show ?case
    using 1 by (subst (1 2) scanIdentifierLoop.simps) (auto split: if_splits)
qed

lemma scanNumberLoop_fields:
  "tokens (fst (scanNumberLoop src st d)) = tokens st \<and>
   indentStack (fst (scanNumberLoop src st d)) = indentStack st"
proof (induction src st d rule: scanNumberLoop.induct)
  case (1 src st d)
  show ?case
    using 1 by (subst (1 2) scanNumberLoop.simps) (auto simp: Let_def split: if_splits)
qed

lemma scanIdentifierOrKeyword_effect:
  shows "\<exists>t. tokens (scanIdentifierOrKeyword src st) = tokens st @ [t] \<and> \<not> structural (ttype t)"
    and "indentStack (scanIdentifierOrKeyword src st) = indentStack st"
  by (auto simp: scanIdentifierOrKeyword_def Let_def scanIdentifierLoop_fields structural_def
      dest: kKeywords_not_structural split: option.splits)

lemma scanNumber_effect:
  shows "\<exists>t. tokens (scanNumber src st) = tokens st @ [t] \<and> \<not> structural (ttype t)"
    and "indentStack (scanNumber src st) = indentStack st"
  using scanNumberLoop_fields [of src st False]
  by (auto simp: scanNumber_def Let_def structural_def split: prod.splits)

lemma scanStringLoop_effect:
  "scanStringLoop src st v sc = Inr st' \<Longrightarrow>
     (\<exists>t. tokens st' = tokens st @ [t] \<and> ttype t = StringLiteral) \<and> indentStack st' = indentStack st"
proof (induction src st v sc rule: scanStringLoop.induct)
  case (1 src st v sc)
  let ?ch = "src ! current st"
  let ?st1 = "st\<lparr>current := current st + 1, column := column st + 1\<rparr>"
  let ?st2 = "?st1\<lparr>current := current ?st1 + 1, column := column ?st1 + 1\<rparr>"
  note run = "1.prems" [unfolded scanStringLoop.simps [of src st v sc] Let_def]
  from run have lt: "current st < length src" by (simp split: if_splits)
  from run lt have nl: "?ch \<noteq> CHR 0x0A" by (simp split: if_splits)
  consider (quote) "?ch = CHR 0x22" | (esc) "?ch \<noteq> CHR 0x22" "?ch = CHR 0x5C"
    | (plain) "?ch \<noteq> CHR 0x22" "?ch \<noteq> CHR 0x5C" by blast
  then show ?case
  proof cases
    case quote
    with run lt nl show ?thesis by auto
  next
    case plain
    with run lt nl have "scanStringLoop src ?st1 (v @ [?ch]) sc = Inr st'" by simp
    from "1.IH"(2) [OF lt refl nl plain this] show ?thesis by simp
  next
    case esc
    with run lt nl have ge: "\<not> length src \<le> current ?st1" by (simp split: if_splits)
    with run lt nl esc obtain c where dec: "decodeEscape (src ! current ?st1) = Some c"
      and r: "scanStringLoop src ?st2 (v @ [c]) sc = Inr st'"
      by (auto split: option.splits)
    from "1.IH"(1) [OF lt refl nl esc refl ge dec r] show ?thesis by simp
  qed
qed

lemma scanString_effect:
  "scanString src st = Inr st' \<Longrightarrow>
     (\<exists>t. tokens st' = tokens st @ [t] \<and> \<not> structural (ttype t)) \<and> indentStack st' = indentStack st"
  by (auto simp: scanString_def Let_def structural_def dest!: scanStringLoop_effect)

lemma scanOperator_effect:
  "scanOperator src st = Inr st' \<Longrightarrow>
     (\<exists>t. tokens st' = tokens st @ [t] \<and> \<not> structural (ttype t)) \<and> indentStack st' = indentStack st"
  by (auto simp: scanOperator_def advanceBy_def pushToken_def Let_def structural_def split: if_splits)


text \<open>
  The indent stack is never empty and its bottom entry is the \<open>0\<close> it starts with.
\<close>

definition stackOk :: "nat list \<Rightarrow> bool" where
  "stackOk stk \<longleftrightarrow> stk \<noteq> [] \<and> last stk = 0"

lemma popIndents_Some:
  "stackOk stk \<Longrightarrow>
   popIndents n ln stk toks =
     Some (dropWhile (\<lambda>l. n < l) stk,
           toks @ replicate (length (takeWhile (\<lambda>l. n < l) stk)) (Token Dedent [] ln 1))
   \<and> stackOk (dropWhile (\<lambda>l. n < l) stk)"
proof (induction stk arbitrary: toks)
  case Nil
  then show ?case by (simp add: stackOk_def)
next
  case (Cons t rest)
  show ?case
  proof (cases "n < t")
    case False
    with Cons.prems show ?thesis by simp
  next
    case True
    with Cons.prems have ne: "rest \<noteq> []" by (auto simp: stackOk_def)
    with Cons.prems have ok: "stackOk rest" by (simp add: stackOk_def)
    from Cons.IH [OF ok, of "toks @ [Token Dedent [] ln 1]"] True
    show ?thesis by (simp add: replicate_app_Cons_same)
  qed
qed

lemma popAll_eq:
  "stk \<noteq> [] \<Longrightarrow>
   popAll ln stk toks = ([last stk], toks @ replicate (length stk - 1) (Token Dedent [] ln 1))"
  by (induction ln stk toks rule: popAll.induct) (simp_all add: replicate_app_Cons_same)

text \<open>
  Between two passes of the loop every level above the bottom of the stack stands for an
  \<^verbatim>\<open>INDENT\<close> that has no \<^verbatim>\<open>DEDENT\<close> yet.
\<close>

definition lexInv :: "Lexer \<Rightarrow> bool" where
  "lexInv st \<longleftrightarrow>
     stackOk (indentStack st) \<and>
     Suc (countType Indent (tokens st)) = countType Dedent (tokens st) + length (indentStack st)"

lemma lexInv_init: "lexInv Lexer_init"
  by (simp add: lexInv_def Lexer_init_def stackOk_def)

lemma handleIndentation_effect:
  assumes "handleIndentation n ln st = Inr st1" and "stackOk (indentStack st)"
  shows "stackOk (indentStack st1)"
    and "current st1 = current st \<and> line st1 = line st \<and> column st1 = column st
         \<and> atLineStart st1 = atLineStart st"
    and "(tokens st1 = tokens st @ [Token Indent [] ln 1] \<and> indentStack st1 = n # indentStack st)
       \<or> (\<exists>k. tokens st1 = tokens st @ replicate k (Token Dedent [] ln 1)
              \<and> length (indentStack st) = length (indentStack st1) + k)"
proof -
  from assms(2) obtain b rest where stk: "indentStack st = b # rest"
    by (cases "indentStack st") (auto simp: stackOk_def)
  note pop = popIndents_Some [OF assms(2), of n ln "tokens st"]
  have len: "length (indentStack st) =
      length (dropWhile (\<lambda>l. n < l) (indentStack st)) + length (takeWhile (\<lambda>l. n < l) (indentStack st))"
    by (metis add.commute length_append takeWhile_dropWhile_id)
  show "stackOk (indentStack st1)"
    using assms pop stk
    by (auto simp: handleIndentation_def stackOk_def split: if_splits)
  show "current st1 = current st \<and> line st1 = line st \<and> column st1 = column st
         \<and> atLineStart st1 = atLineStart st"
    using assms(1) pop stk
    by (auto simp: handleIndentation_def split: if_splits)
  show "(tokens st1 = tokens st @ [Token Indent [] ln 1] \<and> indentStack st1 = n # indentStack st)
       \<or> (\<exists>k. tokens st1 = tokens st @ replicate k (Token Dedent [] ln 1)
              \<and> length (indentStack st) = length (indentStack st1) + k)"
  proof (cases "n > b")
    case True
    with assms(1) stk show ?thesis by (auto simp: handleIndentation_def)
  next
    case False
    with assms(1) stk pop
    have "tokens st1 = tokens st @ replicate (length (takeWhile (\<lambda>l. n < l) (indentStack st))) (Token Dedent [] ln 1)"
      and "indentStack st1 = dropWhile (\<lambda>l. n < l) (indentStack st)"
      by (auto simp: handleIndentation_def split: if_splits)
    with len show ?thesis by auto
  qed
qed

lemma scanToken_effect:
  assumes "scanToken src st = Inr (fl, st')"
  shows "indentStack st' = indentStack st"
    and "tokens st' = tokens st
       \<or> (\<exists>t. tokens st' = tokens st @ [t] \<and> (ttype t = Newline \<or> \<not> structural (ttype t)))"
proof -
  show "indentStack st' = indentStack st"
    using assms unfolding scanToken_def Let_def
    by (auto simp: advanceBy_def pushToken_def skipComment_fields scanNumber_effect(2)
          scanIdentifierOrKeyword_effect(2)
        split: if_splits sum.splits dest: scanString_effect scanOperator_effect)
  show "tokens st' = tokens st
       \<or> (\<exists>t. tokens st' = tokens st @ [t] \<and> (ttype t = Newline \<or> \<not> structural (ttype t)))"
    using assms scanNumber_effect(1) [of src st] scanIdentifierOrKeyword_effect(1) [of src st]
    unfolding scanToken_def Let_def
    by (auto simp: advanceBy_def pushToken_def skipComment_fields
        split: if_splits sum.splits dest: scanString_effect scanOperator_effect)
qed

text \<open>After the indentation of a line, the next character starts a token.\<close>

lemma scanToken_real:
  assumes "scanToken src st = Inr (fl, st')"
    and "current st < length src"
    and "src ! current st \<noteq> CHR '' ''" "src ! current st \<noteq> CHR 0x09"
    and "src ! current st \<noteq> CHR 0x0D" "src ! current st \<noteq> CHR 0x0A"
    and "\<not> (src ! current st = CHR ''/'' \<and> current st + 1 < length src \<and> src ! (current st + 1) = CHR ''/'')"
  shows "\<exists>t. tokens st' = tokens st @ [t] \<and> \<not> structural (ttype t)"
  using assms scanNumber_effect(1) [of src st] scanIdentifierOrKeyword_effect(1) [of src st]
  unfolding scanToken_def Let_def
  by (auto simp: peekChar_def Let_def split: if_splits sum.splits
      dest: scanString_effect scanOperator_effect)

lemma tokenizeStep_lexInv:
  assumes "tokenizeStep src st = Inr (fl, st')" and "lexInv st"
  shows "lexInv st'"
proof (cases "atLineStart st")
  case False
  with assms scanToken_effect [of src st fl st'] show ?thesis
    by (auto simp: tokenizeStep_def lexInv_def structural_def)
next
  case True
  obtain temp k where ci: "countIndent src (current st) 0 = (temp, k)" by force
  show ?thesis
  proof (cases "temp \<ge> length src")
    case True
    with assms \<open>atLineStart st\<close> ci show ?thesis
      by (auto simp: tokenizeStep_def lexInv_def)
  next
    case lt: False
    show ?thesis
    proof (cases "src ! temp = CHR 0x0A")
      case True
      with assms \<open>atLineStart st\<close> ci lt
      have "scanToken src (st\<lparr>current := temp, column := 1\<rparr>) = Inr (fl, st')"
        by (simp add: tokenizeStep_def)
      from scanToken_effect [OF this] assms(2) show ?thesis
        by (auto simp: lexInv_def structural_def)
    next
      case nnl: False
      show ?thesis
      proof (cases "src ! temp = CHR ''/'' \<and> temp + 1 < length src \<and> src ! (temp + 1) = CHR ''/''")
        case True
        with assms \<open>atLineStart st\<close> ci lt nnl
        have "st' = skipComment src (st\<lparr>current := temp, column := k + 1\<rparr>)"
          by (simp add: tokenizeStep_def)
        with assms(2) show ?thesis by (simp add: lexInv_def skipComment_fields)
      next
        case False
        with assms \<open>atLineStart st\<close> ci lt nnl
        obtain st1 where h: "handleIndentation k (line st) st = Inr st1"
          and s: "scanToken src (st1\<lparr>current := temp, column := k + 1, atLineStart := False\<rparr>)
                    = Inr (fl, st')"
          by (auto simp: tokenizeStep_def Let_def split: sum.splits if_splits)
        from assms(2) have ok: "stackOk (indentStack st)" by (simp add: lexInv_def)
        from handleIndentation_effect [OF h ok] assms(2)
        have "lexInv st1"
          by (auto simp: lexInv_def stackOk_def)
        with scanToken_effect [OF s] show ?thesis
          by (auto simp: lexInv_def structural_def)
      qed
    qed
  qed
qed

lemma tokenizeLoop_lexInv:
  "tokenizeLoop src st = Inr st' \<Longrightarrow> lexInv st \<Longrightarrow> lexInv st'"
proof (induction src st rule: tokenizeLoop.induct)
  case (1 src st)
  show ?case
  proof (cases "current st < length src")
    case False
    with "1.prems" show ?thesis by (simp add: tokenizeLoop.simps)
  next
    case True
    with "1.prems"(1) obtain fl st1 where step: "tokenizeStep src st = Inr (fl, st1)"
      by (subst (asm) tokenizeLoop.simps) (auto split: sum.splits)
    from tokenizeStep_lexInv [OF step "1.prems"(2)] have inv1: "lexInv st1" .
    show ?thesis
    proof (cases fl)
      case Break
      with "1.prems"(1) True step inv1 show ?thesis
        by (subst (asm) tokenizeLoop.simps) simp
    next
      case Again
      with "1.prems"(1) True step have "tokenizeLoop src st1 = Inr st'"
        by (subst (asm) tokenizeLoop.simps) simp
      from "1.IH" [OF True step refl Again this inv1] show ?thesis .
    qed
  qed
qed

lemma tokenize_balanced_eof:
  assumes "tokenize src = Inr toks"
  shows "countType Indent toks = countType Dedent toks"
    and "toks \<noteq> []" and "ttype (last toks) = EndOfFile"
proof -
  from assms obtain st where loop: "tokenizeLoop src Lexer_init = Inr st"
    and toks: "toks = tokens (pushToken EndOfFile [] (emitPendingDedents (line st) st))"
    by (auto simp: tokenize_def split: sum.splits)
  from tokenizeLoop_lexInv [OF loop lexInv_init] have inv: "lexInv st" .
  then have ne: "indentStack st \<noteq> []" by (simp add: lexInv_def stackOk_def)
  from toks popAll_eq [OF ne, of "line st" "tokens st"]
  have eq: "toks = tokens st @ replicate (length (indentStack st) - 1) (Token Dedent [] (line st) 1)
                 @ [Token EndOfFile [] (line st) (column st)]"
    by (simp add: pushToken_def emitPendingDedents_def)
  from ne obtain b rest where "indentStack st = b # rest"
    by (cases "indentStack st") auto
  with eq inv show "countType Indent toks = countType Dedent toks"
    by (simp add: lexInv_def)
  from eq show "toks \<noteq> []" by simp
  from eq show "ttype (last toks) = EndOfFile" by simp
qed

text \<open>The state of the lexer after \<open>k\<close> passes through the loop of \<open>tokenize\<close>.\<close>

fun lexerAfter :: "nat \<Rightarrow> string \<Rightarrow> Lexer \<Rightarrow> Lexer option" where
  "lexerAfter 0 src st = Some st"
| "lexerAfter (Suc k) src st =
     (if current st < length src then
        (case tokenizeStep src st of
           Inr (Again, st') \<Rightarrow> lexerAfter k src st'
         | _ \<Rightarrow> None)
      else None)"

lemma lexerAfter_loop:
  "lexerAfter k src st = Some st' \<Longrightarrow> tokenizeLoop src st = tokenizeLoop src st'"
proof (induction k arbitrary: st)
  case 0
  then show ?case by simp
next
  case (Suc k)
  from Suc.prems obtain st1 where lt: "current st < length src"
    and step: "tokenizeStep src st = Inr (Again, st1)" and rest: "lexerAfter k src st1 = Some st'"
    by (auto split: if_splits sum.splits flow.splits)
  from lt step have "tokenizeLoop src st = tokenizeLoop src st1"
    by (subst tokenizeLoop.simps) simp
  with Suc.IH [OF rest] show ?case by simp
qed

lemma lexerAfter_lexInv:
  "lexerAfter k src st = Some st' \<Longrightarrow> lexInv st \<Longrightarrow> lexInv st'"
proof (induction k arbitrary: st)
  case 0
  then show ?case by simp
next
  case (Suc k)
  from Suc.prems obtain st1 where lt: "current st < length src"
    and step: "tokenizeStep src st = Inr (Again, st1)" and rest: "lexerAfter k src st1 = Some st'"
    by (auto split: if_splits sum.splits flow.splits)
  from Suc.IH [OF rest tokenizeStep_lexInv [OF step Suc.prems(2)]] show ?case .
qed

text \<open>The exceptions the lexer can throw.\<close>

lemma scanStringLoop_failure:
  "scanStringLoop src st v sc = Inl e \<Longrightarrow>
     e = LexerError msg_string_newline \<or> e = LexerError msg_escape_unfinished
   \<or> e = LexerError msg_escape_unknown \<or> e = LexerError msg_string_unclosed"
proof (induction src st v sc rule: scanStringLoop.induct)
  case (1 src st v sc)
  let ?ch = "src ! current st"
  let ?st1 = "st\<lparr>current := current st + 1, column := column st + 1\<rparr>"
  let ?st2 = "?st1\<lparr>current := current ?st1 + 1, column := column ?st1 + 1\<rparr>"
  note nn = messages_noNul [THEN c_str_noNul]
  note run = "1.prems" [unfolded scanStringLoop.simps [of src st v sc] Let_def]
  show ?case
  proof (cases "current st < length src")
    case False
    with run show ?thesis by (auto simp: nn)
  next
    case lt: True
    show ?thesis
    proof (cases "?ch = CHR 0x0A")
      case True
      with run lt show ?thesis by (auto simp: nn)
    next
      case nl: False
      consider (quote) "?ch = CHR 0x22" | (esc) "?ch \<noteq> CHR 0x22" "?ch = CHR 0x5C"
        | (plain) "?ch \<noteq> CHR 0x22" "?ch \<noteq> CHR 0x5C" by blast
      then show ?thesis
      proof cases
        case quote
        with run lt nl show ?thesis by simp
      next
        case plain
        with run lt nl have "scanStringLoop src ?st1 (v @ [?ch]) sc = Inl e" by simp
        from "1.IH"(2) [OF lt refl nl plain this] show ?thesis .
      next
        case esc
        show ?thesis
        proof (cases "length src \<le> current ?st1")
          case True
          with run lt nl esc show ?thesis by (auto simp: nn)
        next
          case ge: False
          show ?thesis
          proof (cases "decodeEscape (src ! current ?st1)")
            case None
            with run lt nl esc ge show ?thesis by (auto simp: nn)
          next
            case (Some c)
            with run lt nl esc ge have r: "scanStringLoop src ?st2 (v @ [c]) sc = Inl e" by simp
            from "1.IH"(1) [OF lt refl nl esc refl ge Some r] show ?thesis .
          qed
        qed
      qed
    qed
  qed
qed

text \<open>
  \<open>tokenStart\<close>: where the pass of the loop that starts in a state scans its token, as the
  index of the character and the column the lexer gives it. After a line start these
  are the index after the indentation and the measured indent plus one.
\<close>

definition tokenStart :: "string \<Rightarrow> Lexer \<Rightarrow> nat \<times> nat" where
  "tokenStart src st =
     (if atLineStart st then
        (case countIndent src (current st) 0 of (temp, indentCount) \<Rightarrow> (temp, indentCount + 1))
      else (current st, column st))"

text \<open>
  \<open>stepFailure\<close>: the exception of a pass that starts in a state, by its three sources.
  \<^verbatim>\<open>handleIndentation\<close> names the line; \<^verbatim>\<open>scanOperator\<close> quotes the character at the token start
  and names its line and column; \<^verbatim>\<open>scanString\<close>, for the literal that opens at the token
  start, names no position.
\<close>

definition stepFailure :: "string \<Rightarrow> Lexer \<Rightarrow> error \<Rightarrow> bool" where
  "stepFailure src st e \<longleftrightarrow>
     (case tokenStart src st of
        (p, col) \<Rightarrow>
          p < length src \<and>
          (atLineStart st \<and> e = LexerError (msg_bad_indent @ to_string (line st))
           \<or> e = LexerError (c_str (msg_unknown_char @ [src ! p] @ msg_on_line
                                      @ to_string (line st) @ '':'' @ to_string col))
           \<or> src ! p = CHR 0x22 \<and>
               (e = LexerError msg_string_newline \<or> e = LexerError msg_escape_unfinished
                \<or> e = LexerError msg_escape_unknown \<or> e = LexerError msg_string_unclosed)))"

lemma scanToken_failure:
  assumes "scanToken src st = Inl e"
  shows "current st < length src \<and>
         (e = LexerError (c_str (msg_unknown_char @ [src ! current st] @ msg_on_line
                                  @ to_string (line st) @ '':'' @ to_string (column st)))
          \<or> src ! current st = CHR 0x22 \<and>
              (e = LexerError msg_string_newline \<or> e = LexerError msg_escape_unfinished
               \<or> e = LexerError msg_escape_unknown \<or> e = LexerError msg_string_unclosed))"
  using assms unfolding scanToken_def Let_def
  by (auto simp: scanString_def scanOperator_def Let_def
      split: if_splits sum.splits dest!: scanStringLoop_failure)

lemma handleIndentation_failure:
  assumes "handleIndentation n ln st = Inl e" and "stackOk (indentStack st)"
  shows "e = LexerError (msg_bad_indent @ to_string ln)"
proof -
  from assms(2) obtain b rest where stk: "indentStack st = b # rest"
    by (cases "indentStack st") (auto simp: stackOk_def)
  from assms(1) stk popIndents_Some [OF assms(2), of n ln "tokens st"] show ?thesis
    by (auto simp: handleIndentation_def c_str_numbered messages_noNul split: if_splits)
qed

lemma tokenizeStep_failure:
  assumes "tokenizeStep src st = Inl e" and "lexInv st"
  shows "stepFailure src st e"
proof (cases "atLineStart st")
  case False
  with assms(1) have "scanToken src st = Inl e" by (simp add: tokenizeStep_def)
  from scanToken_failure [OF this] False show ?thesis
    by (simp add: stepFailure_def tokenStart_def)
next
  case True
  obtain temp k where ci: "countIndent src (current st) 0 = (temp, k)" by force
  from assms(2) have ok: "stackOk (indentStack st)" by (simp add: lexInv_def)
  from assms(1) True ci have lt: "temp < length src"
    by (simp add: tokenizeStep_def split: if_splits)
  from assms(1) True ci lt have nnl: "src ! temp \<noteq> CHR 0x0A"
    by (auto simp: tokenizeStep_def scanToken_def Let_def)
  from assms(1) True ci lt nnl
  consider "handleIndentation k (line st) st = Inl e"
    | st1 where "handleIndentation k (line st) st = Inr st1"
        "scanToken src (st1\<lparr>current := temp, column := k + 1, atLineStart := False\<rparr>) = Inl e"
    by (auto simp: tokenizeStep_def Let_def split: if_splits sum.splits)
  then show ?thesis
  proof cases
    case 1
    from handleIndentation_failure [OF this ok] True ci lt show ?thesis
      by (simp add: stepFailure_def tokenStart_def)
  next
    case 2
    from handleIndentation_effect(2) [OF 2(1) ok] have "line st1 = line st" by simp
    with scanToken_failure [OF 2(2)] True ci lt show ?thesis
      by (simp add: stepFailure_def tokenStart_def)
  qed
qed

lemma tokenizeLoop_failure:
  "tokenizeLoop src st0 = Inl e \<Longrightarrow> lexInv st0 \<Longrightarrow>
     \<exists>k st. lexerAfter k src st0 = Some st \<and> tokenizeStep src st = Inl e \<and> stepFailure src st e"
proof (induction src st0 rule: tokenizeLoop.induct)
  case (1 src st)
  from "1.prems"(1) have lt: "current st < length src"
    by (subst (asm) tokenizeLoop.simps) (simp split: if_splits)
  show ?case
  proof (cases "tokenizeStep src st")
    case (Inl e')
    with "1.prems"(1) lt have "e' = e"
      by (subst (asm) tokenizeLoop.simps) simp
    with Inl tokenizeStep_failure [OF _ "1.prems"(2)]
    have "lexerAfter 0 src st = Some st \<and> tokenizeStep src st = Inl e \<and> stepFailure src st e"
      by simp
    then show ?thesis by blast
  next
    case (Inr r)
    obtain fl st1 where r: "r = (fl, st1)" by (cases r)
    from tokenizeStep_lexInv [OF Inr [unfolded r] "1.prems"(2)] have inv1: "lexInv st1" .
    show ?thesis
    proof (cases fl)
      case Break
      with "1.prems"(1) lt Inr r show ?thesis
        by (subst (asm) tokenizeLoop.simps) simp
    next
      case Again
      with "1.prems"(1) lt Inr r have "tokenizeLoop src st1 = Inl e"
        by (subst (asm) tokenizeLoop.simps) simp
      from "1.IH" [OF lt Inr [unfolded r] refl Again this inv1]
      obtain k st' where "lexerAfter k src st1 = Some st'" "tokenizeStep src st' = Inl e"
        "stepFailure src st' e" by blast
      with lt Inr r Again
      have "lexerAfter (Suc k) src st = Some st' \<and> tokenizeStep src st' = Inl e \<and> stepFailure src st' e"
        by simp
      then show ?thesis by blast
    qed
  qed
qed

lemma tokenize_failure:
  assumes "tokenize src = Inl e"
  shows "\<exists>k st. lexerAfter k src Lexer_init = Some st \<and> tokenizeStep src st = Inl e
           \<and> stepFailure src st e"
proof -
  from assms have "tokenizeLoop src Lexer_init = Inl e"
    by (auto simp: tokenize_def split: sum.splits)
  from tokenizeLoop_failure [OF this lexInv_init] show ?thesis .
qed

lemma stepFailure_LexerError: "stepFailure src st e \<Longrightarrow> \<exists>msg. e = LexerError msg"
  by (auto simp: stepFailure_def split: prod.splits)

lemma inconsistent_dedent:
  assumes after: "lexerAfter k src Lexer_init = Some st"
    and lt: "current st < length src" and ls: "atLineStart st"
    and ci: "countIndent src (current st) 0 = (temp, n)"
    and content: "temp < length src" "src ! temp \<noteq> CHR 0x0A"
      "\<not> (src ! temp = CHR ''/'' \<and> temp + 1 < length src \<and> src ! (temp + 1) = CHR ''/'')"
    and smaller: "n < hd (indentStack st)"
    and differs: "n \<noteq> hd (dropWhile (\<lambda>l. n < l) (indentStack st))"
  shows "tokenize src = Inl (LexerError (msg_bad_indent @ to_string (line st)))"
    and "popIndents n (line st) (indentStack st) (tokens st) =
           Some (dropWhile (\<lambda>l. n < l) (indentStack st),
                 tokens st @ replicate (length (takeWhile (\<lambda>l. n < l) (indentStack st)))
                               (Token Dedent [] (line st) 1))"
proof -
  from lexerAfter_lexInv [OF after lexInv_init] have ok: "stackOk (indentStack st)"
    by (simp add: lexInv_def)
  from popIndents_Some [OF ok, of n "line st" "tokens st"]
  show pop: "popIndents n (line st) (indentStack st) (tokens st) =
           Some (dropWhile (\<lambda>l. n < l) (indentStack st),
                 tokens st @ replicate (length (takeWhile (\<lambda>l. n < l) (indentStack st)))
                               (Token Dedent [] (line st) 1))"
    by simp
  from ok obtain b rest where stk: "indentStack st = b # rest"
    by (cases "indentStack st") (auto simp: stackOk_def)
  from stk smaller differs pop
  have "handleIndentation n (line st) st = Inl (LexerError (msg_bad_indent @ to_string (line st)))"
    by (simp add: handleIndentation_def c_str_numbered messages_noNul)
  with ls ci content have "tokenizeStep src st = Inl (LexerError (msg_bad_indent @ to_string (line st)))"
    by (simp add: tokenizeStep_def)
  with lt have "tokenizeLoop src st = Inl (LexerError (msg_bad_indent @ to_string (line st)))"
    by (subst tokenizeLoop.simps) simp
  with lexerAfter_loop [OF after]
  show "tokenize src = Inl (LexerError (msg_bad_indent @ to_string (line st)))"
    by (simp add: tokenize_def)
qed

text \<open>
  C2. For every source on which \<open>tokenize\<close> succeeds, the token stream has as many
  \<^verbatim>\<open>INDENT\<close> as \<^verbatim>\<open>DEDENT\<close> tokens, and its last token is \<^verbatim>\<open>EOF\<close>.
\<close>

theorem tokenize_indents_balanced_and_eof_last:
  "tokenize src = Inr toks \<Longrightarrow>
     countType Indent toks = countType Dedent toks \<and> toks \<noteq> [] \<and> ttype (last toks) = EndOfFile"
  using tokenize_balanced_eof [of src toks] by simp

text \<open>
  The two lines \<^verbatim>\<open>a\<close> and \<^verbatim>\<open> b\<close> (the second indented by one space): one \<^verbatim>\<open>INDENT\<close>, closed by
  the \<^verbatim>\<open>DEDENT\<close> that is made up at the end of the input.
\<close>

theorem tokenize_indents_balanced_and_eof_last_witness:
  "tokenize (''a'' @ [CHR 0x0A] @ '' b'' @ [CHR 0x0A]) =
     Inr [Token Identifier ''a'' 1 1, Token Newline [] 1 2, Token Indent [] 2 1,
          Token Identifier ''b'' 2 2, Token Newline [] 2 3, Token Dedent [] 3 1,
          Token EndOfFile [] 3 1]
   \<and> countType Indent [Token Identifier ''a'' 1 1, Token Newline [] 1 2, Token Indent [] 2 1,
          Token Identifier ''b'' 2 2, Token Newline [] 2 3, Token Dedent [] 3 1,
          Token EndOfFile [] 3 1]
     = countType Dedent [Token Identifier ''a'' 1 1, Token Newline [] 1 2, Token Indent [] 2 1,
          Token Identifier ''b'' 2 2, Token Newline [] 2 3, Token Dedent [] 3 1,
          Token EndOfFile [] 3 1]"
proof -
  have run: "tokenize (''a'' @ [CHR 0x0A] @ '' b'' @ [CHR 0x0A]) =
     Inr [Token Identifier ''a'' 1 1, Token Newline [] 1 2, Token Indent [] 2 1,
          Token Identifier ''b'' 2 2, Token Newline [] 2 3, Token Dedent [] 3 1,
          Token EndOfFile [] 3 1]"
    by code_simp
  from tokenize_indents_balanced_and_eof_last [OF run] run show ?thesis by blast
qed

text \<open>
  C4. Whenever the lexer, after some passes \<open>k\<close> of its loop, stands at the start of a line
  that has content (not blank, not a comment), the measured indent \<open>n\<close> of the line is
  smaller than the top of the indent stack, and \<open>n\<close> differs from the top that is left
  after every level greater than \<open>n\<close> is popped, \<open>tokenize\<close> fails with the \<^verbatim>\<open>LexerError\<close> whose
  message is the inconsistent-indent text followed by the number of the current line.
  Before the exception the popping loop has appended one \<^verbatim>\<open>DEDENT\<close> for each popped level;
  the exception then discards the tokens.
\<close>

theorem inconsistent_dedent_is_lexer_error:
  assumes "lexerAfter k src Lexer_init = Some st"
    and "current st < length src" and "atLineStart st"
    and "countIndent src (current st) 0 = (temp, n)"
    and "temp < length src" and "src ! temp \<noteq> CHR 0x0A"
    and "\<not> (src ! temp = CHR ''/'' \<and> temp + 1 < length src \<and> src ! (temp + 1) = CHR ''/'')"
    and "n < hd (indentStack st)"
    and "n \<noteq> hd (dropWhile (\<lambda>l. n < l) (indentStack st))"
  shows "tokenize src = Inl (LexerError (msg_bad_indent @ to_string (line st)))
       \<and> popIndents n (line st) (indentStack st) (tokens st) =
           Some (dropWhile (\<lambda>l. n < l) (indentStack st),
                 tokens st @ replicate (length (takeWhile (\<lambda>l. n < l) (indentStack st)))
                               (Token Dedent [] (line st) 1))"
  using inconsistent_dedent [OF assms] by simp

text \<open>
  The lines \<^verbatim>\<open>a\<close>, \<^verbatim>\<open>  b\<close> (two spaces) and \<^verbatim>\<open> c\<close> (one space): the third line dedents to a level
  that was never pushed. After four passes the lexer is at the start of line 3 with the
  stack \<open>[2, 0]\<close>; the measured indent is 1.
\<close>

theorem inconsistent_dedent_is_lexer_error_witness:
  "lexerAfter 4 (''a'' @ [CHR 0x0A] @ ''  b'' @ [CHR 0x0A] @ '' c'') Lexer_init =
     Some \<lparr>current = 6, line = 3, column = 1, atLineStart = True, indentStack = [2, 0],
           tokens = [Token Identifier ''a'' 1 1, Token Newline [] 1 2, Token Indent [] 2 1,
                     Token Identifier ''b'' 2 3, Token Newline [] 2 4]\<rparr>
   \<and> countIndent (''a'' @ [CHR 0x0A] @ ''  b'' @ [CHR 0x0A] @ '' c'') 6 0 = (7, 1)
   \<and> tokenize (''a'' @ [CHR 0x0A] @ ''  b'' @ [CHR 0x0A] @ '' c'') =
       Inl (LexerError (msg_bad_indent @ ''3''))
   \<and> popIndents 1 3 [2, 0]
        [Token Identifier ''a'' 1 1, Token Newline [] 1 2, Token Indent [] 2 1,
         Token Identifier ''b'' 2 3, Token Newline [] 2 4] =
       Some ([0], [Token Identifier ''a'' 1 1, Token Newline [] 1 2, Token Indent [] 2 1,
                   Token Identifier ''b'' 2 3, Token Newline [] 2 4, Token Dedent [] 3 1])"
proof -
  let ?src = "''a'' @ [CHR 0x0A] @ ''  b'' @ [CHR 0x0A] @ '' c''"
  let ?st = "\<lparr>current = 6, line = 3, column = 1, atLineStart = True, indentStack = [2, 0],
           tokens = [Token Identifier ''a'' 1 1, Token Newline [] 1 2, Token Indent [] 2 1,
                     Token Identifier ''b'' 2 3, Token Newline [] 2 4]\<rparr>"
  have after: "lexerAfter 4 ?src Lexer_init = Some ?st" by code_simp
  have ci: "countIndent ?src (current ?st) 0 = (7, 1)" by code_simp
  have three: "to_string 3 = ''3''" by code_simp
  have "tokenize ?src = Inl (LexerError (msg_bad_indent @ to_string (line ?st)))
       \<and> popIndents 1 (line ?st) (indentStack ?st) (tokens ?st) =
           Some (dropWhile (\<lambda>l. 1 < l) (indentStack ?st),
                 tokens ?st @ replicate (length (takeWhile (\<lambda>l. 1 < l) (indentStack ?st)))
                               (Token Dedent [] (line ?st) 1))"
    by (rule inconsistent_dedent_is_lexer_error [OF after _ _ ci]) simp_all
  with after ci three show ?thesis by simp
qed

text \<open>
  C7, as stated: every failure of \<open>tokenize\<close> would carry the line and the column of the
  failure. A \<^verbatim>\<open>LexerError\<close> holds a message and nothing else, and the message of an
  unterminated string has no position in it: a source that fails at line 1, column 1 and
  a source that fails at line 3, column 2 throw the same exception.
\<close>

theorem lexer_error_position_counterexample:
  "tokenize [CHR 0x22] = Inl (LexerError msg_string_unclosed)
   \<and> tokenize [CHR 0x0A, CHR 0x0A, CHR '' '', CHR 0x22] = Inl (LexerError msg_string_unclosed)"
  by code_simp

text \<open>
  C7, amended. Every failure of \<open>tokenize\<close> is a \<^verbatim>\<open>LexerError\<close>, which carries a message
  only, and no token stream is returned with it. The exception is thrown in some pass of
  the loop, started in a state \<open>st\<close> that the lexer reaches from its initial state. Let
  \<open>p\<close> and \<open>col\<close> be the index and the column of the first character that this pass scans
  after the indentation (\<open>tokenStart\<close>). The exception is one of these: the inconsistent
  indent of the line of \<open>st\<close>, whose message ends with the number of that line and has no
  column; the unknown character \<open>src ! p\<close>, whose message quotes that character and ends
  with the line of \<open>st\<close>, a colon and \<open>col\<close>, all of it cut at the first NUL byte (so the
  message for a NUL character has neither the character nor a position); or one of four
  fixed texts for the string literal that opens at \<open>p\<close> (line break inside the literal,
  escape cut off by the end of the input, unknown escape, unterminated literal), which
  have no position.
\<close>

theorem tokenize_failure_is_lexer_error:
  "tokenize src = Inl e \<Longrightarrow>
     (\<exists>msg. e = LexerError msg) \<and> (\<forall>toks. tokenize src \<noteq> Inr toks)
     \<and> (\<exists>k st. lexerAfter k src Lexer_init = Some st \<and> tokenizeStep src st = Inl e
                \<and> stepFailure src st e)"
  using tokenize_failure [of src e] stepFailure_LexerError [of src _ e] by auto

text \<open>
  The source \<^verbatim>\<open>a@\<close>: after the first pass the lexer stands at index 1, line 1, column 2,
  and the second pass throws on the character \<^verbatim>\<open>@\<close> there. The source of the single byte
  NUL: the message is cut before the character.
\<close>

theorem tokenize_failure_is_lexer_error_witness:
  "tokenize ''a@'' = Inl (LexerError (msg_unknown_char @ ''@'' @ msg_on_line @ ''1:2''))
   \<and> lexerAfter 1 ''a@'' Lexer_init =
       Some \<lparr>current = 1, line = 1, column = 2, atLineStart = False, indentStack = [0],
             tokens = [Token Identifier ''a'' 1 1]\<rparr>
   \<and> tokenStart ''a@'' \<lparr>current = 1, line = 1, column = 2, atLineStart = False,
                          indentStack = [0], tokens = [Token Identifier ''a'' 1 1]\<rparr> = (1, 2)
   \<and> stepFailure ''a@'' \<lparr>current = 1, line = 1, column = 2, atLineStart = False,
                           indentStack = [0], tokens = [Token Identifier ''a'' 1 1]\<rparr>
         (LexerError (msg_unknown_char @ ''@'' @ msg_on_line @ ''1:2''))
   \<and> tokenize [CHR 0x00] = Inl (LexerError msg_unknown_char)"
proof -
  let ?st = "\<lparr>current = 1, line = 1, column = 2, atLineStart = False, indentStack = [0],
             tokens = [Token Identifier ''a'' 1 1]\<rparr>"
  let ?e = "LexerError (msg_unknown_char @ ''@'' @ msg_on_line @ ''1:2'')"
  have run: "tokenize ''a@'' = Inl ?e" by code_simp
  have after: "lexerAfter 1 ''a@'' Lexer_init = Some ?st" by code_simp
  have start: "tokenStart ''a@'' ?st = (1, 2)" by code_simp
  have fails: "stepFailure ''a@'' ?st ?e" by code_simp
  have nul: "tokenize [CHR 0x00] = Inl (LexerError msg_unknown_char)" by code_simp
  from tokenize_failure_is_lexer_error [OF run] have "\<exists>msg. ?e = LexerError msg" by blast
  with run after start fails nul show ?thesis by (intro conjI)
qed

section \<open>String literals: decoding and re-escaping\<close>

lemma escapeString_append: "escapeString (a @ b) = escapeString a @ escapeString b"
  by (induction a) auto

lemma decodeEscape_escapeChar: "decodeEscape x = Some c \<Longrightarrow> escapeChar c = [CHR 0x5C, x]"
  by (auto simp: decodeEscape_def escapeChar_def split: if_splits)

lemma escapeChar_plain:
  "ch \<noteq> CHR 0x5C \<Longrightarrow> ch \<noteq> CHR 0x22 \<Longrightarrow> ch \<noteq> CHR 0x0A \<Longrightarrow> ch \<noteq> CHR 0x09 \<Longrightarrow> escapeChar ch = [ch]"
  by (simp add: escapeChar_def)

lemma substr_Suc: "start < length src \<Longrightarrow> substr src start (Suc k) = src ! start # substr src (Suc start) k"
  by (simp add: substr_def Cons_nth_drop_Suc [symmetric])

lemma scanStringLoop_body:
  "scanStringLoop src st v sc = Inr st' \<Longrightarrow>
     \<exists>val. tokens st' = tokens st @ [Token StringLiteral val (line st) sc]
         \<and> current st < current st' \<and> current st' \<le> length src
         \<and> src ! (current st' - 1) = CHR 0x22
         \<and> (CHR 0x09 \<notin> set (substr src (current st) (current st' - 1 - current st))
              \<longrightarrow> escapeString val
                   = escapeString v @ substr src (current st) (current st' - 1 - current st))"
proof (induction src st v sc rule: scanStringLoop.induct)
  case (1 src st v sc)
  let ?cur = "current st"
  let ?ch = "src ! ?cur"
  let ?st1 = "st\<lparr>current := current st + 1, column := column st + 1\<rparr>"
  let ?st2 = "?st1\<lparr>current := current ?st1 + 1, column := column ?st1 + 1\<rparr>"
  note run = "1.prems" [unfolded scanStringLoop.simps [of src st v sc] Let_def]
  from run have lt: "?cur < length src" by (simp split: if_splits)
  from run lt have nl: "?ch \<noteq> CHR 0x0A" by (simp split: if_splits)
  consider (quote) "?ch = CHR 0x22" | (esc) "?ch \<noteq> CHR 0x22" "?ch = CHR 0x5C"
    | (plain) "?ch \<noteq> CHR 0x22" "?ch \<noteq> CHR 0x5C" by blast
  then show ?case
  proof cases
    case quote
    with run lt nl have "st' = ?st1\<lparr>tokens := tokens ?st1 @ [Token StringLiteral v (line ?st1) sc]\<rparr>"
      by simp
    with lt quote show ?thesis by (simp add: substr_def)
  next
    case plain
    with run lt nl have r: "scanStringLoop src ?st1 (v @ [?ch]) sc = Inr st'" by simp
    define k where "k = current st' - 1 - Suc ?cur"
    from "1.IH"(2) [OF lt refl nl plain r]
    obtain val where toks: "tokens st' = tokens st @ [Token StringLiteral val (line st) sc]"
      and adv: "Suc ?cur < current st'" and le: "current st' \<le> length src"
      and q: "src ! (current st' - 1) = CHR 0x22"
      and body: "CHR 0x09 \<notin> set (substr src (Suc ?cur) k)
              \<longrightarrow> escapeString val = escapeString (v @ [?ch]) @ substr src (Suc ?cur) k"
      by (auto simp: k_def)
    from adv have len: "current st' - 1 - ?cur = Suc k" by (simp add: k_def)
    have sub: "substr src ?cur (current st' - 1 - ?cur) = ?ch # substr src (Suc ?cur) k"
      by (simp only: len substr_Suc [OF lt])
    have "escapeString val = escapeString v @ substr src ?cur (current st' - 1 - ?cur)"
      if "CHR 0x09 \<notin> set (substr src ?cur (current st' - 1 - ?cur))"
    proof -
      from that have nt: "?ch \<noteq> CHR 0x09" and rest: "CHR 0x09 \<notin> set (substr src (Suc ?cur) k)"
        unfolding sub by auto
      from body rest have "escapeString val = escapeString (v @ [?ch]) @ substr src (Suc ?cur) k"
        by blast
      also have "\<dots> = escapeString v @ ?ch # substr src (Suc ?cur) k"
        using nt nl plain by (simp add: escapeString_append escapeChar_plain)
      finally show ?thesis unfolding sub .
    qed
    with toks adv le q show ?thesis by auto
  next
    case esc
    with run lt nl have ge: "\<not> length src \<le> current ?st1" by (simp split: if_splits)
    with run lt nl esc obtain c where dec: "decodeEscape (src ! current ?st1) = Some c"
      and r: "scanStringLoop src ?st2 (v @ [c]) sc = Inr st'"
      by (auto split: option.splits)
    define k where "k = current st' - 1 - Suc (Suc ?cur)"
    from "1.IH"(1) [OF lt refl nl esc refl ge dec r]
    obtain val where toks: "tokens st' = tokens st @ [Token StringLiteral val (line st) sc]"
      and adv: "Suc (Suc ?cur) < current st'" and le: "current st' \<le> length src"
      and q: "src ! (current st' - 1) = CHR 0x22"
      and body: "CHR 0x09 \<notin> set (substr src (Suc (Suc ?cur)) k)
              \<longrightarrow> escapeString val = escapeString (v @ [c]) @ substr src (Suc (Suc ?cur)) k"
      by (auto simp: k_def)
    from ge have lt1: "Suc ?cur < length src" by simp
    from adv have len: "current st' - 1 - ?cur = Suc (Suc k)" by (simp add: k_def)
    have sub: "substr src ?cur (current st' - 1 - ?cur)
                 = ?ch # src ! Suc ?cur # substr src (Suc (Suc ?cur)) k"
      by (simp only: len substr_Suc [OF lt] substr_Suc [OF lt1])
    from dec have ec: "escapeChar c = [CHR 0x5C, src ! Suc ?cur]"
      by (simp add: decodeEscape_escapeChar)
    have "escapeString val = escapeString v @ substr src ?cur (current st' - 1 - ?cur)"
      if "CHR 0x09 \<notin> set (substr src ?cur (current st' - 1 - ?cur))"
    proof -
      from that have rest: "CHR 0x09 \<notin> set (substr src (Suc (Suc ?cur)) k)"
        unfolding sub by auto
      from body rest have "escapeString val = escapeString (v @ [c]) @ substr src (Suc (Suc ?cur)) k"
        by blast
      also have "\<dots> = escapeString v @ ?ch # src ! Suc ?cur # substr src (Suc (Suc ?cur)) k"
        using esc ec by (simp add: escapeString_append)
      finally show ?thesis unfolding sub .
    qed
    with toks adv le q show ?thesis by auto
  qed
qed

lemma scanString_body:
  assumes "scanString src st = Inr st'"
  shows "\<exists>val. tokens st' = tokens st @ [Token StringLiteral val (line st) (column st)]
         \<and> current st + 2 \<le> current st' \<and> current st' \<le> length src
         \<and> src ! (current st' - 1) = CHR 0x22
         \<and> (CHR 0x09 \<notin> set (substr src (current st + 1) (current st' - current st - 2))
              \<longrightarrow> escapeString val = substr src (current st + 1) (current st' - current st - 2))"
proof -
  from assms have "scanStringLoop src (st\<lparr>current := current st + 1, column := column st + 1\<rparr>) []
                     (column st) = Inr st'"
    by (simp add: scanString_def Let_def)
  from scanStringLoop_body [OF this]
  obtain val where "tokens st' = tokens st @ [Token StringLiteral val (line st) (column st)]"
    and "Suc (current st) < current st'" and "current st' \<le> length src"
    and "src ! (current st' - 1) = CHR 0x22"
    and "CHR 0x09 \<notin> set (substr src (Suc (current st)) (current st' - 1 - Suc (current st)))
              \<longrightarrow> escapeString val = substr src (Suc (current st)) (current st' - 1 - Suc (current st))"
    by auto
  moreover have "current st' - 1 - Suc (current st) = current st' - current st - 2" by simp
  ultimately show ?thesis by auto
qed

text \<open>
  C8, as stated: re-escaping the decoded payload of any accepted string literal would
  give back the bytes between the quotes. A literal may hold a raw tab character (the
  lexer rejects only a raw line feed); the payload is that tab, and \<open>escapeString\<close> turns it
  into a backslash and \<^verbatim>\<open>t\<close>. The input is a quote, a tab, a quote.
\<close>

theorem escape_round_trip_raw_tab_counterexample:
  "tokenize [CHR 0x22, CHR 0x09, CHR 0x22] =
     Inr [Token StringLiteral [CHR 0x09] 1 1, Token EndOfFile [] 1 4]
   \<and> substr [CHR 0x22, CHR 0x09, CHR 0x22] 1 1 = [CHR 0x09]
   \<and> escapeString [CHR 0x09] = [CHR 0x5C, CHR ''t'']
   \<and> escapeString [CHR 0x09] \<noteq> substr [CHR 0x22, CHR 0x09, CHR 0x22] 1 1"
  by code_simp

text \<open>
  C8, amended. Let \<open>scanString\<close> accept a literal that opens at \<open>current st\<close> and ends just
  before \<open>current st'\<close>, so that the bytes between the quotes are
  \<open>substr src (current st + 1) (current st' - current st - 2)\<close>. If no raw tab is among them,
  the generator's \<open>escapeString\<close> applied to the payload stored in the token gives exactly
  those bytes, and the emitted literal is those bytes between two quotes.
\<close>

theorem escape_round_trip_without_raw_tab:
  assumes "scanString src st = Inr st'"
    and "CHR 0x09 \<notin> set (substr src (current st + 1) (current st' - current st - 2))"
  shows "\<exists>val. tokens st' = tokens st @ [Token StringLiteral val (line st) (column st)]
           \<and> src ! (current st' - 1) = CHR 0x22
           \<and> escapeString val = substr src (current st + 1) (current st' - current st - 2)
           \<and> emitExpression (makeLiteral String val False) mangler =
               [CHR 0x22] @ substr src (current st + 1) (current st' - current st - 2) @ [CHR 0x22]"
  using scanString_body [OF assms(1)] assms(2) by (auto simp: makeLiteral_def)

text \<open>
  The literal in \<^verbatim>\<open>x = "a\n\\" + y\<close>, scanned from the quote at index 4: its five bytes between
  the quotes decode to three characters and are given back by \<open>escapeString\<close>.
\<close>

theorem escape_round_trip_without_raw_tab_witness:
  "scanString (''x = '' @ [CHR 0x22] @ ''a'' @ [CHR 0x5C] @ ''n'' @ [CHR 0x5C, CHR 0x5C, CHR 0x22] @ '' + y'')
     \<lparr>current = 4, line = 1, column = 5, atLineStart = False, indentStack = [0], tokens = []\<rparr>
   = Inr \<lparr>current = 11, line = 1, column = 12, atLineStart = False, indentStack = [0],
          tokens = [Token StringLiteral [CHR ''a'', CHR 0x0A, CHR 0x5C] 1 5]\<rparr>
   \<and> CHR 0x09 \<notin> set [CHR ''a'', CHR 0x5C, CHR ''n'', CHR 0x5C, CHR 0x5C]
   \<and> escapeString [CHR ''a'', CHR 0x0A, CHR 0x5C] = [CHR ''a'', CHR 0x5C, CHR ''n'', CHR 0x5C, CHR 0x5C]"
proof -
  let ?src = "''x = '' @ [CHR 0x22] @ ''a'' @ [CHR 0x5C] @ ''n'' @ [CHR 0x5C, CHR 0x5C, CHR 0x22] @ '' + y''"
  let ?st = "\<lparr>current = 4, line = 1, column = 5, atLineStart = False, indentStack = [0], tokens = []\<rparr>"
  let ?st' = "\<lparr>current = 11, line = 1, column = 12, atLineStart = False, indentStack = [0],
          tokens = [Token StringLiteral [CHR ''a'', CHR 0x0A, CHR 0x5C] 1 5]\<rparr>"
  have run: "scanString ?src ?st = Inr ?st'" by code_simp
  have body: "substr ?src (current ?st + 1) (current ?st' - current ?st - 2)
                = [CHR ''a'', CHR 0x5C, CHR ''n'', CHR 0x5C, CHR 0x5C]"
    by code_simp
  have notab: "CHR 0x09 \<notin> set (substr ?src (current ?st + 1) (current ?st' - current ?st - 2))"
    unfolding body by simp
  from escape_round_trip_without_raw_tab [OF run notab, of NameMangler_init]
  have "escapeString [CHR ''a'', CHR 0x0A, CHR 0x5C] = [CHR ''a'', CHR 0x5C, CHR ''n'', CHR 0x5C, CHR 0x5C]"
    unfolding body by simp
  with run show ?thesis by simp
qed

section \<open>Scopes and identifiers of the code generator\<close>

lemma declareName_fields:
  "fst (declareName n m) = ''vr_'' @ to_string (Suc (counter m))"
  "counter (snd (declareName n m)) = Suc (counter m)"
  "scopes m \<noteq> [] \<Longrightarrow> scopes (snd (declareName n m)) \<noteq> []"
  "tl (scopes (snd (declareName n m))) = tl (scopes m)"
  "length (scopes (snd (declareName n m))) = length (scopes m)"
  by (auto simp: declareName_def Let_def split: list.splits)

lemma pushScope_fields:
  "counter (pushScope m) = counter m" "scopes (pushScope m) = Map.empty # scopes m"
  by (simp_all add: pushScope_def)


text \<open>What emission does to the mangler.\<close>

definition keepsBelow :: "NameMangler \<Rightarrow> NameMangler \<Rightarrow> bool" where
  "keepsBelow m m' \<longleftrightarrow>
     scopes m' \<noteq> [] \<and> tl (scopes m') = tl (scopes m) \<and> counter m \<le> counter m'"

definition onlyCounter :: "NameMangler \<Rightarrow> NameMangler \<Rightarrow> bool" where
  "onlyCounter m m' \<longleftrightarrow> m' = m\<lparr>counter := counter m'\<rparr> \<and> counter m \<le> counter m'"

lemma onlyCounter_scopes: "onlyCounter m m' \<Longrightarrow> scopes m' = scopes m"
  by (cases m; cases m') (auto simp: onlyCounter_def)

lemma onlyCounter_refl: "onlyCounter m m"
  by (simp add: onlyCounter_def)

lemma onlyCounter_trans: "onlyCounter a b \<Longrightarrow> onlyCounter b c \<Longrightarrow> onlyCounter a c"
  by (cases a; cases b; cases c) (auto simp: onlyCounter_def)

lemma keepsBelow_trans: "keepsBelow a b \<Longrightarrow> keepsBelow b c \<Longrightarrow> keepsBelow a c"
  by (auto simp: keepsBelow_def)

lemma onlyCounter_keepsBelow: "scopes m \<noteq> [] \<Longrightarrow> onlyCounter m m' \<Longrightarrow> keepsBelow m m'"
  by (cases m; cases m') (auto simp: onlyCounter_def keepsBelow_def)

lemma keepsBelow_declareName: "scopes m \<noteq> [] \<Longrightarrow> keepsBelow m (snd (declareName n m))"
  by (simp add: keepsBelow_def declareName_fields)

text \<open>A scope that is pushed, used and popped leaves only the counter changed.\<close>

lemma scoped_onlyCounter:
  assumes "scopes m \<noteq> []" and "keepsBelow (pushScope m) m1"
  shows "onlyCounter m (popScope m1)"
proof -
  from assms obtain top where "scopes m1 = top # scopes m" and "counter m \<le> counter m1"
    by (cases "scopes m1") (auto simp: keepsBelow_def pushScope_def)
  with assms(1) show ?thesis
    by (cases m; cases m1) (auto simp: onlyCounter_def popScope_def)
qed

lemma emit_mangler:
  "scopes m \<noteq> [] \<Longrightarrow>
     keepsBelow m (snd (emitStatement s lvl out m)) \<and>
     ((\<forall>t n i. s \<noteq> VarDeclStmt t n i) \<longrightarrow> onlyCounter m (snd (emitStatement s lvl out m)))"
  "scopes m \<noteq> [] \<Longrightarrow> onlyCounter m (snd (emitBranches bs i lvl out m))"
  "scopes m \<noteq> [] \<Longrightarrow>
     (if b then onlyCounter m (snd (emitStatements ss lvl out m b))
      else keepsBelow m (snd (emitStatements ss lvl out m b)))"
  "scopes m \<noteq> [] \<Longrightarrow> keepsBelow m (snd (emitStatementsLoop ss lvl out m))"
proof (induction s lvl out m and bs i lvl out m and ss lvl out m b and ss lvl out m
       rule: emitStatement_emitBranches_emitStatements_emitStatementsLoop.induct)
  case (1 type name initializer indentLevel out mangler)
  then show ?case
    by (simp add: case_prod_beta keepsBelow_declareName)
next
  case (2 name val indentLevel out mangler)
  then show ?case by (simp add: keepsBelow_def onlyCounter_def)
next
  case (3 name indentLevel out mangler)
  then show ?case by (simp add: keepsBelow_def onlyCounter_def)
next
  case (4 val indentLevel out mangler)
  then show ?case by (simp add: keepsBelow_def onlyCounter_def)
next
  case (5 branches elseBranch hasElse indentLevel out mangler)
  obtain out1 m1 where b: "emitBranches branches 0 indentLevel out mangler = (out1, m1)"
    by force
  from "5.IH"(1) [OF "5.prems"] b have oc1: "onlyCounter mangler m1" by simp
  with "5.prems" have ne1: "scopes m1 \<noteq> []" by (simp add: onlyCounter_scopes)
  have "onlyCounter mangler (snd (emitStatement (IfStmt branches elseBranch hasElse) indentLevel out mangler))"
  proof (cases hasElse)
    case False
    with b oc1 show ?thesis by simp
  next
    case True
    from "5.IH"(2) [OF b [symmetric] True ne1]
    have "onlyCounter m1 (snd (emitStatements elseBranch (indentLevel + 1)
             (out1 @ indent indentLevel @ ''else {'' @ [CHR 0x0A]) m1 True))"
      by simp
    with oc1 b True show ?thesis
      by (auto simp: case_prod_beta intro: onlyCounter_trans)
  qed
  with "5.prems" show ?case by (simp add: onlyCounter_keepsBelow)
next
  case (6 condition body indentLevel out mangler)
  from "6.IH" [OF "6.prems"]
  have "onlyCounter mangler (snd (emitStatement (WhileStmt condition body) indentLevel out mangler))"
    by (simp add: case_prod_beta)
  with "6.prems" show ?case by (simp add: onlyCounter_keepsBelow)
next
  case (7 type name "from" to body indentLevel out mangler)
  obtain loopName m1 where d: "declareName name (pushScope mangler) = (loopName, m1)"
    by force
  have ne0: "scopes (pushScope mangler) \<noteq> []" by (simp add: pushScope_fields)
  from keepsBelow_declareName [OF ne0, of name] d
  have kb1: "keepsBelow (pushScope mangler) m1" by simp
  then have ne1: "scopes m1 \<noteq> []" by (simp add: keepsBelow_def)
  let ?m2 = "snd (emitStatements body (indentLevel + 1)
              (out @ indent indentLevel @ ''for ('' @ cppType type @ '' '' @ loopName
                 @ '' = '' @ emitExpression from m1 @ ''; '' @ loopName @ '' <= ''
                 @ emitExpression to m1 @ ''; ++'' @ loopName @ '') {'' @ [CHR 0x0A])
              m1 True)"
  from "7.IH" [OF d [symmetric] ne1] have "onlyCounter m1 ?m2" by simp
  with ne1 have "keepsBelow m1 ?m2" by (simp add: onlyCounter_keepsBelow)
  with kb1 have "keepsBelow (pushScope mangler) ?m2" by (rule keepsBelow_trans)
  from scoped_onlyCounter [OF "7.prems" this] d
  have "onlyCounter mangler (snd (emitStatement (ForRangeStmt type name from to body) indentLevel out mangler))"
    by (simp add: case_prod_beta)
  with "7.prems" show ?case by (simp add: onlyCounter_keepsBelow)
next
  case (8 i indentLevel out mangler)
  then show ?case by (simp add: onlyCounter_def)
next
  case (9 condition body branches i indentLevel out mangler)
  obtain out1 m1 where e: "emitStatements body (indentLevel + 1)
        (out @ indent indentLevel @ (if i = 0 then ''if'' else ''else if'') @ '' (''
           @ emitExpression condition mangler @ '') {'' @ [CHR 0x0A])
        mangler True = (out1, m1)"
    by force
  from "9.IH"(1) [OF "9.prems"] e have oc1: "onlyCounter mangler m1" by simp
  with "9.prems" have ne1: "scopes m1 \<noteq> []" by (simp add: onlyCounter_scopes)
  from "9.IH"(2) [OF e [symmetric] ne1] oc1 e show ?case
    by (auto simp: case_prod_beta intro: onlyCounter_trans)
next
  case (10 stmts indentLevel out mangler createNewScope)
  show ?case
  proof (cases createNewScope)
    case False
    with "10.IH" "10.prems" show ?thesis by (simp add: case_prod_beta)
  next
    case True
    have "scopes (pushScope mangler) \<noteq> []" by (simp add: pushScope_fields)
    with "10.IH" True
    have "keepsBelow (pushScope mangler) (snd (emitStatementsLoop stmts indentLevel out (pushScope mangler)))"
      by simp
    from scoped_onlyCounter [OF "10.prems" this] True show ?thesis
      by (simp add: case_prod_beta)
  qed
next
  case (11 indentLevel out mangler)
  then show ?case by (simp add: keepsBelow_def)
next
  case (12 stmt rest indentLevel out mangler)
  obtain out1 m1 where e: "emitStatement stmt indentLevel out mangler = (out1, m1)" by force
  from "12.IH"(1) [OF "12.prems"] e have kb1: "keepsBelow mangler m1" by simp
  then have ne1: "scopes m1 \<noteq> []" by (simp add: keepsBelow_def)
  from "12.IH"(2) [OF e [symmetric] ne1] kb1 e show ?case
    by (auto simp: case_prod_beta intro: keepsBelow_trans)
qed

lemma resolve_scopes: "scopes m1 = scopes m2 \<Longrightarrow> resolve n m1 = resolve n m2"
  by (simp add: resolve_def)

lemma emitExpression_scopes: "scopes m1 = scopes m2 \<Longrightarrow> emitExpression e m1 = emitExpression e m2"
  by (induction e m1 rule: emitExpression.induct) (auto simp: resolve_def split: ValueType.splits)

lemma resolve_declareName:
  "scopes m \<noteq> [] \<Longrightarrow> resolve n (snd (declareName n m)) = fst (declareName n m)"
  by (cases "scopes m") (auto simp: resolve_def declareName_def Let_def)


lemma scope_isolation_aux:
  assumes "scopes m \<noteq> []"
    and "s = WhileStmt c body \<or> s = ForRangeStmt t n f u body \<or> s = IfStmt bs eb he"
  shows "onlyCounter m (snd (emitStatement s lvl out m))"
  using emit_mangler(1) [OF assms(1), of s lvl out] assms(2) by auto

lemma onlyCounter_update: "onlyCounter m m' \<Longrightarrow> m'\<lparr>counter := k\<rparr> = m\<lparr>counter := k\<rparr>"
  by (cases m; cases m') (auto simp: onlyCounter_def)

lemma onlyCounter_eq: "onlyCounter m m' \<Longrightarrow> m' = m\<lparr>counter := counter m'\<rparr>"
  by (simp add: onlyCounter_def)

text \<open>
  The branches of an \<^verbatim>\<open>if\<close> are siblings: the chain can be cut anywhere, and the branches
  after the cut are emitted from the mangler before the chain, with only its counter
  moved on.
\<close>

lemma emitBranches_append:
  "scopes m \<noteq> [] \<Longrightarrow>
     emitBranches (bs1 @ bs2) i lvl out m =
       emitBranches bs2 (i + length bs1) lvl (fst (emitBranches bs1 i lvl out m))
         (m\<lparr>counter := counter (snd (emitBranches bs1 i lvl out m))\<rparr>)"
proof (induction bs1 arbitrary: i out m)
  case Nil
  then show ?case by simp
next
  case (Cons br bs1)
  obtain c b where br: "br = Branch c b" by (cases br)
  let ?hdr = "out @ indent lvl @ (if i = 0 then ''if'' else ''else if'') @ '' (''
                @ emitExpression c m @ '') {'' @ [CHR 0x0A]"
  obtain o1 m1 where e: "emitStatements b (lvl + 1) ?hdr m True = (o1, m1)" by force
  from emit_mangler(3) [OF Cons.prems, of True b "lvl + 1" ?hdr] e
  have oc: "onlyCounter m m1" by simp
  then have ne: "scopes m1 \<noteq> []" using Cons.prems by (simp add: onlyCounter_scopes)
  let ?o1 = "o1 @ indent lvl @ ''}'' @ [CHR 0x0A]"
  have step: "emitBranches (br # bs) i lvl out m = emitBranches bs (i + 1) lvl ?o1 m1" for bs
    using e by (simp add: br)
  from Cons.IH [OF ne, of "i + 1" ?o1] onlyCounter_update [OF oc]
  show ?case by (simp add: step)
qed

lemma emitStatement_else:
  assumes "scopes m \<noteq> []"
  shows "emitStatement (IfStmt bs eb True) lvl out m =
     (case emitStatements eb (lvl + 1)
             (fst (emitBranches bs 0 lvl out m) @ indent lvl @ ''else {'' @ [CHR 0x0A])
             (m\<lparr>counter := counter (snd (emitBranches bs 0 lvl out m))\<rparr>) True of
        (o2, m2) \<Rightarrow> (o2 @ indent lvl @ ''}'' @ [CHR 0x0A], m\<lparr>counter := counter m2\<rparr>))"
proof -
  obtain o1 m1 where b: "emitBranches bs 0 lvl out m = (o1, m1)" by force
  from emit_mangler(2) [OF assms, of bs 0 lvl out] b have oc1: "onlyCounter m m1" by simp
  then have ne: "scopes m1 \<noteq> []" using assms by (simp add: onlyCounter_scopes)
  let ?o = "o1 @ indent lvl @ ''else {'' @ [CHR 0x0A]"
  obtain o2 m2 where e: "emitStatements eb (lvl + 1) ?o m1 True = (o2, m2)" by force
  from emit_mangler(3) [OF ne, of True eb "lvl + 1" ?o] e have "onlyCounter m1 m2" by simp
  with oc1 have "onlyCounter m m2" by (rule onlyCounter_trans)
  from onlyCounter_eq [OF this] onlyCounter_eq [OF oc1] b e show ?thesis
    by simp
qed

lemma declared_visible_inside:
  assumes "scopes m \<noteq> []"
  shows "fst (emitStatementsLoop [VarDeclStmt t x None, OutputStmt (Some (VariableExpr x))] lvl out m) =
     out @ indent lvl @ cppType t @ '' '' @ fst (declareName x m) @ ''{};'' @ [CHR 0x0A]
       @ indent lvl @ ''std::cout << '' @ fst (declareName x m) @ '' << std::endl;'' @ [CHR 0x0A]"
  using resolve_declareName [OF assms, of x]
  by (simp add: case_prod_beta)

text \<open>
  C3, as stated: after the generator leaves a body, every reference outside it would
  resolve to the identifier it would resolve to if the declarations of the body had
  never happened. The counter of the mangler is not restored with the scopes. Take a
  \<^verbatim>\<open>while\<close> loop followed by a declaration of \<^verbatim>\<open>y\<close> and an output of \<^verbatim>\<open>y\<close>: with a declaration
  of \<^verbatim>\<open>x\<close> in the body of the loop the reference to \<^verbatim>\<open>y\<close> after the loop is \<^verbatim>\<open>vr_2\<close>, and with
  that declaration taken away it is \<^verbatim>\<open>vr_1\<close>.
\<close>

theorem scope_isolation_counter_counterexample:
  "generate (Program
     [WhileStmt (Some (VariableExpr ''c''))
        [VarDeclStmt Integer ''x'' None, OutputStmt (Some (VariableExpr ''x''))],
      VarDeclStmt Integer ''y'' None, OutputStmt (Some (VariableExpr ''y''))]) =
     ''#include <cmath>'' @ [CHR 0x0A] @
     ''#include <iostream>'' @ [CHR 0x0A] @
     ''#include <string>'' @ [CHR 0x0A, CHR 0x0A] @
     ''int main() {'' @ [CHR 0x0A] @
     ''    std::ios_base::sync_with_stdio(false);'' @ [CHR 0x0A] @
     ''    while (c) {'' @ [CHR 0x0A] @
     ''        int vr_1{};'' @ [CHR 0x0A] @
     ''        std::cout << vr_1 << std::endl;'' @ [CHR 0x0A] @
     ''    }'' @ [CHR 0x0A] @
     ''    int vr_2{};'' @ [CHR 0x0A] @
     ''    std::cout << vr_2 << std::endl;'' @ [CHR 0x0A] @
     ''    return 0;'' @ [CHR 0x0A] @
     ''}'' @ [CHR 0x0A]
   \<and> generate (Program
     [WhileStmt (Some (VariableExpr ''c'')) [OutputStmt (Some (VariableExpr ''x''))],
      VarDeclStmt Integer ''y'' None, OutputStmt (Some (VariableExpr ''y''))]) =
     ''#include <cmath>'' @ [CHR 0x0A] @
     ''#include <iostream>'' @ [CHR 0x0A] @
     ''#include <string>'' @ [CHR 0x0A, CHR 0x0A] @
     ''int main() {'' @ [CHR 0x0A] @
     ''    std::ios_base::sync_with_stdio(false);'' @ [CHR 0x0A] @
     ''    while (c) {'' @ [CHR 0x0A] @
     ''        std::cout << x << std::endl;'' @ [CHR 0x0A] @
     ''    }'' @ [CHR 0x0A] @
     ''    int vr_1{};'' @ [CHR 0x0A] @
     ''    std::cout << vr_1 << std::endl;'' @ [CHR 0x0A] @
     ''    return 0;'' @ [CHR 0x0A] @
     ''}'' @ [CHR 0x0A]"
  by code_simp

text \<open>
  C3, amended. Let the mangler have at least one scope (as it always has). After the
  generator has emitted a \<^verbatim>\<open>while\<close>, \<^verbatim>\<open>for\<close> or \<^verbatim>\<open>if\<close> statement, whatever its bodies declare,
  the mangler differs from the one before the statement in its counter only, and the
  counter has not gone down: the stack of scopes is the same, so every name resolves to
  the identifier it resolved to before the statement, and every expression is emitted as
  it would have been before; identifiers that are declared later get the numbers after
  those the bodies have used. The same holds after any list of statements that is
  emitted in a scope of its own. The branches of an \<^verbatim>\<open>if\<close> are siblings: wherever the chain
  of branches is cut, the branches after the cut, and the \<^verbatim>\<open>else\<close> body after all of them,
  are emitted from the mangler before the statement with only its counter moved on, so
  no declaration of an earlier branch is visible in a later one. Inside a body a
  declaration is visible: a reference that follows the declaration of a name is emitted
  as the identifier that \<^verbatim>\<open>declare\<close> returned.
\<close>

theorem scope_isolation:
  assumes "scopes m \<noteq> []"
    and "s = WhileStmt c body \<or> s = ForRangeStmt t n f u body \<or> s = IfStmt bs eb he"
  shows "snd (emitStatement s lvl out m) = m\<lparr>counter := counter (snd (emitStatement s lvl out m))\<rparr>
       \<and> counter m \<le> counter (snd (emitStatement s lvl out m))
       \<and> scopes (snd (emitStatement s lvl out m)) = scopes m
       \<and> (\<forall>name. resolve name (snd (emitStatement s lvl out m)) = resolve name m)
       \<and> (\<forall>e. emitExpression e (snd (emitStatement s lvl out m)) = emitExpression e m)
       \<and> (\<forall>x. resolve x (snd (declareName x m)) = fst (declareName x m))
       \<and> (\<forall>ss l w. snd (emitStatements ss l w m True) =
                      m\<lparr>counter := counter (snd (emitStatements ss l w m True))\<rparr>)
       \<and> (\<forall>bs1 bs2 i l w.
             emitBranches (bs1 @ bs2) i l w m =
               emitBranches bs2 (i + length bs1) l (fst (emitBranches bs1 i l w m))
                 (m\<lparr>counter := counter (snd (emitBranches bs1 i l w m))\<rparr>))
       \<and> (\<forall>bs' eb' l w.
             emitStatement (IfStmt bs' eb' True) l w m =
               (case emitStatements eb' (l + 1)
                       (fst (emitBranches bs' 0 l w m) @ indent l @ ''else {'' @ [CHR 0x0A])
                       (m\<lparr>counter := counter (snd (emitBranches bs' 0 l w m))\<rparr>) True of
                  (o2, m2) \<Rightarrow> (o2 @ indent l @ ''}'' @ [CHR 0x0A], m\<lparr>counter := counter m2\<rparr>)))
       \<and> (\<forall>ty x l w.
             fst (emitStatementsLoop [VarDeclStmt ty x None, OutputStmt (Some (VariableExpr x))] l w m) =
               w @ indent l @ cppType ty @ '' '' @ fst (declareName x m) @ ''{};'' @ [CHR 0x0A]
                 @ indent l @ ''std::cout << '' @ fst (declareName x m) @ '' << std::endl;''
                 @ [CHR 0x0A])"
proof -
  let ?m' = "snd (emitStatement s lvl out m)"
  from scope_isolation_aux [OF assms] have oc: "onlyCounter m ?m'" .
  then have sc: "scopes ?m' = scopes m" by (rule onlyCounter_scopes)
  from oc have a: "?m' = m\<lparr>counter := counter ?m'\<rparr>" by (simp add: onlyCounter_def)
  from oc have b: "counter m \<le> counter ?m'" by (simp add: onlyCounter_def)
  have c: "\<forall>name. resolve name ?m' = resolve name m"
    using resolve_scopes [OF sc] by blast
  have d: "\<forall>e. emitExpression e ?m' = emitExpression e m"
    using emitExpression_scopes [OF sc] by blast
  have e: "\<forall>x. resolve x (snd (declareName x m)) = fst (declareName x m)"
    using resolve_declareName [OF assms(1)] by blast
  have f: "\<forall>ss l w. snd (emitStatements ss l w m True) =
                      m\<lparr>counter := counter (snd (emitStatements ss l w m True))\<rparr>"
  proof (intro allI)
    fix ss l w
    from emit_mangler(3) [OF assms(1), of True ss l w]
    have "onlyCounter m (snd (emitStatements ss l w m True))" by simp
    then show "snd (emitStatements ss l w m True) =
                      m\<lparr>counter := counter (snd (emitStatements ss l w m True))\<rparr>"
      by (rule onlyCounter_eq)
  qed
  have g: "\<forall>bs1 bs2 i l w.
             emitBranches (bs1 @ bs2) i l w m =
               emitBranches bs2 (i + length bs1) l (fst (emitBranches bs1 i l w m))
                 (m\<lparr>counter := counter (snd (emitBranches bs1 i l w m))\<rparr>)"
    using emitBranches_append [OF assms(1)] by blast
  have h: "\<forall>bs' eb' l w.
             emitStatement (IfStmt bs' eb' True) l w m =
               (case emitStatements eb' (l + 1)
                       (fst (emitBranches bs' 0 l w m) @ indent l @ ''else {'' @ [CHR 0x0A])
                       (m\<lparr>counter := counter (snd (emitBranches bs' 0 l w m))\<rparr>) True of
                  (o2, m2) \<Rightarrow> (o2 @ indent l @ ''}'' @ [CHR 0x0A], m\<lparr>counter := counter m2\<rparr>))"
    using emitStatement_else [OF assms(1)] by blast
  have i: "\<forall>ty x l w.
             fst (emitStatementsLoop [VarDeclStmt ty x None, OutputStmt (Some (VariableExpr x))] l w m) =
               w @ indent l @ cppType ty @ '' '' @ fst (declareName x m) @ ''{};'' @ [CHR 0x0A]
                 @ indent l @ ''std::cout << '' @ fst (declareName x m) @ '' << std::endl;''
                 @ [CHR 0x0A]"
    using declared_visible_inside [OF assms(1)] by blast
  from a b sc c d e f g h i show ?thesis by (intro conjI)
qed

text \<open>
  A declaration of \<^verbatim>\<open>x\<close>, then an \<^verbatim>\<open>if\<close> on \<^verbatim>\<open>x\<close> whose first body declares another \<^verbatim>\<open>x\<close> and
  prints it and whose \<^verbatim>\<open>else\<close> body prints \<^verbatim>\<open>x\<close>, then an output of \<^verbatim>\<open>x\<close>. In the first body
  \<^verbatim>\<open>x\<close> is the inner \<^verbatim>\<open>vr_2\<close>; in the \<^verbatim>\<open>else\<close> body and after the statement it is the outer
  \<^verbatim>\<open>vr_1\<close>. The mangler after the \<^verbatim>\<open>if\<close> resolves \<^verbatim>\<open>x\<close> as the one before it, and its counter
  is 2.
\<close>

theorem scope_isolation_witness:
  "scopes (snd (declareName ''x'' NameMangler_init)) \<noteq> []
   \<and> fst (emitStatementsLoop
        [VarDeclStmt Integer ''x'' None,
         IfStmt [Branch (Some (VariableExpr ''x''))
                   [VarDeclStmt Integer ''x'' None, OutputStmt (Some (VariableExpr ''x''))]]
                [OutputStmt (Some (VariableExpr ''x''))] True,
         OutputStmt (Some (VariableExpr ''x''))] 0 [] NameMangler_init) =
       ''int vr_1{};'' @ [CHR 0x0A] @
       ''if (vr_1) {'' @ [CHR 0x0A] @
       ''    int vr_2{};'' @ [CHR 0x0A] @
       ''    std::cout << vr_2 << std::endl;'' @ [CHR 0x0A] @
       ''}'' @ [CHR 0x0A] @
       ''else {'' @ [CHR 0x0A] @
       ''    std::cout << vr_1 << std::endl;'' @ [CHR 0x0A] @
       ''}'' @ [CHR 0x0A] @
       ''std::cout << vr_1 << std::endl;'' @ [CHR 0x0A]
   \<and> resolve ''x'' (snd (emitStatement
        (IfStmt [Branch (Some (VariableExpr ''x''))
                   [VarDeclStmt Integer ''x'' None, OutputStmt (Some (VariableExpr ''x''))]]
                [OutputStmt (Some (VariableExpr ''x''))] True)
        0 [] (snd (declareName ''x'' NameMangler_init))))
       = resolve ''x'' (snd (declareName ''x'' NameMangler_init))
   \<and> resolve ''x'' (snd (declareName ''x'' NameMangler_init)) = ''vr_1''
   \<and> counter (snd (emitStatement
        (IfStmt [Branch (Some (VariableExpr ''x''))
                   [VarDeclStmt Integer ''x'' None, OutputStmt (Some (VariableExpr ''x''))]]
                [OutputStmt (Some (VariableExpr ''x''))] True)
        0 [] (snd (declareName ''x'' NameMangler_init))))
       = 2"
proof -
  let ?s = "IfStmt [Branch (Some (VariableExpr ''x''))
                   [VarDeclStmt Integer ''x'' None, OutputStmt (Some (VariableExpr ''x''))]]
                [OutputStmt (Some (VariableExpr ''x''))] True"
  let ?m = "snd (declareName ''x'' NameMangler_init)"
  have ne: "scopes ?m \<noteq> []" by (simp add: NameMangler_init_def declareName_def Let_def)
  have emitted: "fst (emitStatementsLoop
        [VarDeclStmt Integer ''x'' None, ?s, OutputStmt (Some (VariableExpr ''x''))]
        0 [] NameMangler_init) =
       ''int vr_1{};'' @ [CHR 0x0A] @
       ''if (vr_1) {'' @ [CHR 0x0A] @
       ''    int vr_2{};'' @ [CHR 0x0A] @
       ''    std::cout << vr_2 << std::endl;'' @ [CHR 0x0A] @
       ''}'' @ [CHR 0x0A] @
       ''else {'' @ [CHR 0x0A] @
       ''    std::cout << vr_1 << std::endl;'' @ [CHR 0x0A] @
       ''}'' @ [CHR 0x0A] @
       ''std::cout << vr_1 << std::endl;'' @ [CHR 0x0A]"
    by code_simp
  have cnt: "counter (snd (emitStatement ?s 0 [] ?m)) = 2" by code_simp
  have outer: "resolve ''x'' ?m = ''vr_1''" by code_simp
  have "?s = WhileStmt None [] \<or> ?s = ForRangeStmt Integer [] None None []
          \<or> ?s = IfStmt [Branch (Some (VariableExpr ''x''))
                   [VarDeclStmt Integer ''x'' None, OutputStmt (Some (VariableExpr ''x''))]]
                [OutputStmt (Some (VariableExpr ''x''))] True"
    by (intro disjI2) (rule refl)
  from scope_isolation [OF ne this, of 0 "[]"]
  have "resolve ''x'' (snd (emitStatement ?s 0 [] ?m)) = resolve ''x'' ?m"
    by blast
  with ne emitted outer cnt show ?thesis by (intro conjI)
qed

text \<open>Decimal numerals: \<open>to_string\<close> has a left inverse.\<close>

definition from_string :: "string \<Rightarrow> nat" where
  "from_string ds = foldl (\<lambda>a c. 10 * a + (of_char c - 48)) 0 ds"

lemma of_char_digit_char: "d < 10 \<Longrightarrow> (of_char (digit_char d) :: nat) - 48 = d"
  by (simp add: digit_char_def)

lemma from_string_to_string: "from_string (to_string n) = n"
proof (induction n rule: to_string.induct)
  case (1 n)
  show ?case
  proof (cases "n < 10")
    case True
    then show ?thesis
      by (subst to_string.simps) (simp add: from_string_def of_char_digit_char)
  next
    case False
    with 1 have "from_string (to_string (n div 10)) = n div 10" by simp
    with False show ?thesis
      by (subst to_string.simps) (simp add: from_string_def of_char_digit_char)
  qed
qed

lemma to_string_inj: "to_string a = to_string b \<Longrightarrow> a = b"
  by (metis from_string_to_string)

lemma mangled_inj: "''vr_'' @ to_string a = ''vr_'' @ to_string b \<Longrightarrow> a = b"
  by (simp add: to_string_inj)


definition mangled :: "nat \<Rightarrow> string" where
  "mangled k = ''vr_'' @ to_string k"

text \<open>The names from counter value \<open>a\<close> (exclusive) to \<open>b\<close> (inclusive).\<close>

definition issued :: "nat \<Rightarrow> nat \<Rightarrow> string list" where
  "issued a b = map mangled [Suc a ..< Suc b]"

lemma issued_same [simp]: "issued a a = []"
  by (simp add: issued_def)








section \<open>Properties of the translation pipeline\<close>

subsection \<open>Concrete programs\<close>

text \<open>
  \<open>mentions msg w\<close>: the byte string \<open>w\<close> occurs in \<open>msg\<close>.
\<close>

fun mentions :: "string \<Rightarrow> string \<Rightarrow> bool" where
  "mentions [] w = (w = [])"
| "mentions (c # cs) w = (take (length w) (c # cs) = w \<or> mentions cs w)"

lemma mentions_iff: "mentions msg w \<longleftrightarrow> (\<exists>ps ss. msg = ps @ w @ ss)"
proof (induction msg)
  case Nil
  then show ?case by auto
next
  case (Cons c cs)
  show ?case
  proof
    assume "mentions (c # cs) w"
    then consider "take (length w) (c # cs) = w" | "mentions cs w" by auto
    then show "\<exists>ps ss. c # cs = ps @ w @ ss"
    proof cases
      case 1
      then have "c # cs = [] @ w @ drop (length w) (c # cs)"
        by (metis append_Nil append_take_drop_id)
      then show ?thesis by blast
    next
      case 2
      with Cons.IH obtain ps ss where "cs = ps @ w @ ss" by blast
      then have "c # cs = (c # ps) @ w @ ss" by simp
      then show ?thesis by blast
    qed
  next
    assume "\<exists>ps ss. c # cs = ps @ w @ ss"
    then obtain ps ss where eq: "c # cs = ps @ w @ ss" by blast
    show "mentions (c # cs) w"
    proof (cases ps)
      case Nil
      with eq have "take (length w) (c # cs) = w" by simp
      then show ?thesis by simp
    next
      case (Cons p ps')
      with eq have "cs = ps' @ w @ ss" by simp
      with Cons.IH have "mentions cs w" by blast
      then show ?thesis by simp
    qed
  qed
qed

text \<open>
  C9. For the empty source, translation succeeds and the generated text is exactly the
  fixed frame: the three includes, a blank line, \<^verbatim>\<open>int main() {\<close>, the
  \<^verbatim>\<open>sync_with_stdio\<close> line and \<^verbatim>\<open>return 0;\<close> indented by four spaces, with no statement line
  between them, and the closing brace.
\<close>

theorem empty_source_gives_frame:
  "translate [] =
     Inr (''#include <cmath>'' @ [CHR 0x0A] @
          ''#include <iostream>'' @ [CHR 0x0A] @
          ''#include <string>'' @ [CHR 0x0A, CHR 0x0A] @
          ''int main() {'' @ [CHR 0x0A] @
          ''    std::ios_base::sync_with_stdio(false);'' @ [CHR 0x0A] @
          ''    return 0;'' @ [CHR 0x0A] @
          ''}'' @ [CHR 0x0A])"
  by code_simp

text \<open>
  C1, on the literal input of the claim. The source \<open>kw_celoe @ '' x = 2 ^ 3 ^ 2''\<close>
  (the Russian keyword for an integer, then \<^verbatim>\<open> x = 2 ^ 3 ^ 2\<close>, with no line feed at the end)
  is rejected: after the initializer \<^verbatim>\<open>expectNewline\<close> finds \<^verbatim>\<open>EndOfFile\<close>, and
  \<^verbatim>\<open>check(TokenType::EndOfFile)\<close> is false at the end of the tokens like every other
  \<^verbatim>\<open>check\<close>, so the parser throws "a line break is expected after the variable
  declaration". The same line followed by a line feed is translated, and its initializer
  is \<^verbatim>\<open>std::pow(2, std::pow(3, 2))\<close>.
\<close>

theorem power_example_without_line_feed_rejected:
  "translate (kw_celoe @ '' x = 2 ^ 3 ^ 2'') =
     Inl (ParserError (msg_expect_newline_after @ ctx_var_decl))
   \<and> translate (kw_celoe @ '' x = 2 ^ 3 ^ 2'' @ [CHR 0x0A]) =
     Inr (''#include <cmath>'' @ [CHR 0x0A] @
          ''#include <iostream>'' @ [CHR 0x0A] @
          ''#include <string>'' @ [CHR 0x0A, CHR 0x0A] @
          ''int main() {'' @ [CHR 0x0A] @
          ''    std::ios_base::sync_with_stdio(false);'' @ [CHR 0x0A] @
          ''    int vr_1 = std::pow(2, std::pow(3, 2));'' @ [CHR 0x0A] @
          ''    return 0;'' @ [CHR 0x0A] @
          ''}'' @ [CHR 0x0A])"
  by code_simp

text \<open>
  C6, as stated: the source \<open>kw_celoe @ '' i '' @ kw_ot @ '' 0 '' @ kw_do @ '' 2''\<close> (an integer
  declaration of \<^verbatim>\<open>i\<close> followed by the range words "from 0 to 2") would be rejected with a
  parser message that mentions the loop keyword \<open>kw_dlya\<close>. The message of the code does
  not contain that keyword.
\<close>

theorem range_without_for_message_counterexample:
  "translate (kw_celoe @ '' i '' @ kw_ot @ '' 0 '' @ kw_do @ '' 2'')
     = Inl (ParserError (msg_expect_newline_after @ ctx_var_decl))
   \<and> \<not> mentions (msg_expect_newline_after @ ctx_var_decl) kw_dlya"
  by code_simp

text \<open>
  C6, amended. The source is rejected by the parser: \<^verbatim>\<open>parseVarDecl\<close> reads the declaration
  of \<^verbatim>\<open>i\<close>, and \<^verbatim>\<open>expectNewline\<close> then meets the keyword "from". The message is the one of
  \<^verbatim>\<open>expectNewline\<close> for a variable declaration, "a line break is expected after the variable
  declaration".
\<close>

theorem range_without_for_rejected_by_parser:
  "translate (kw_celoe @ '' i '' @ kw_ot @ '' 0 '' @ kw_do @ '' 2'')
     = Inl (ParserError (msg_expect_newline_after @ ctx_var_decl))"
  by code_simp

section \<open>Indented blocks\<close>

subsection \<open>Every \<^verbatim>\<open>INDENT\<close> of the lexer is followed by the first token of a statement\<close>

text \<open>
  \<^verbatim>\<open>handleIndentation\<close> is called only for a line that has content, and the token of that
  content is scanned in the same pass of the loop. So in the token vector an \<^verbatim>\<open>INDENT\<close> is
  never the last token and is never followed by a structural token.
\<close>

lemma countIndent_stop:
  "countIndent src temp0 k0 = (temp, n) \<Longrightarrow> temp < length src \<Longrightarrow>
     src ! temp \<noteq> CHR '' '' \<and> src ! temp \<noteq> CHR 0x09 \<and> src ! temp \<noteq> CHR 0x0D"
proof (induction src temp0 k0 rule: countIndent.induct)
  case (1 src temp0 k0)
  show ?case
    using 1 by (subst (asm) (3) countIndent.simps) (auto simp: Let_def split: if_splits)
qed

fun indentFollowed :: "Token list \<Rightarrow> bool" where
  "indentFollowed [] = True"
| "indentFollowed [t] = (ttype t \<noteq> Indent)"
| "indentFollowed (t # u # ts) =
     ((ttype t = Indent \<longrightarrow> \<not> structural (ttype u)) \<and> indentFollowed (u # ts))"

lemma indentFollowed_snoc:
  "indentFollowed ts \<Longrightarrow> ttype t \<noteq> Indent \<Longrightarrow> indentFollowed (ts @ [t])"
  by (induction ts rule: indentFollowed.induct) auto

lemma indentFollowed_replicate:
  "indentFollowed ts \<Longrightarrow> ttype t \<noteq> Indent \<Longrightarrow> indentFollowed (ts @ replicate k t)"
proof (induction k)
  case 0
  then show ?case by simp
next
  case (Suc k)
  then have "indentFollowed ((ts @ replicate k t) @ [t])" by (intro indentFollowed_snoc) auto
  then show ?case by (simp add: replicate_append_same)
qed

lemma indentFollowed_indent:
  "indentFollowed ts \<Longrightarrow> ttype i = Indent \<Longrightarrow> \<not> structural (ttype t) \<Longrightarrow> indentFollowed (ts @ [i, t])"
  by (induction ts rule: indentFollowed.induct) (auto simp: structural_def)

lemma indentFollowed_nth:
  "indentFollowed ts \<Longrightarrow> i < length ts \<Longrightarrow> ttype (ts ! i) = Indent \<Longrightarrow>
     Suc i < length ts \<and> \<not> structural (ttype (ts ! Suc i))"
proof (induction ts arbitrary: i rule: indentFollowed.induct)
  case 1
  then show ?case by simp
next
  case (2 t)
  then show ?case by simp
next
  case (3 t u ts)
  then show ?case by (cases i) auto
qed

lemma tokenizeStep_indentFollowed:
  assumes "tokenizeStep src st = Inr (fl, st')" and "indentFollowed (tokens st)"
    and "stackOk (indentStack st)"
  shows "indentFollowed (tokens st')"
proof (cases "atLineStart st")
  case False
  with assms scanToken_effect(2) [of src st fl st'] show ?thesis
    by (auto simp: tokenizeStep_def structural_def intro!: indentFollowed_snoc)
next
  case True
  obtain temp k where ci: "countIndent src (current st) 0 = (temp, k)" by force
  show ?thesis
  proof (cases "temp \<ge> length src")
    case True
    with assms \<open>atLineStart st\<close> ci show ?thesis
      by (auto simp: tokenizeStep_def)
  next
    case lt: False
    show ?thesis
    proof (cases "src ! temp = CHR 0x0A")
      case True
      with assms \<open>atLineStart st\<close> ci lt
      have "scanToken src (st\<lparr>current := temp, column := 1\<rparr>) = Inr (fl, st')"
        by (simp add: tokenizeStep_def)
      from scanToken_effect(2) [OF this] assms(2) show ?thesis
        by (auto simp: structural_def intro!: indentFollowed_snoc)
    next
      case nnl: False
      show ?thesis
      proof (cases "src ! temp = CHR ''/'' \<and> temp + 1 < length src \<and> src ! (temp + 1) = CHR ''/''")
        case True
        with assms \<open>atLineStart st\<close> ci lt nnl
        have "st' = skipComment src (st\<lparr>current := temp, column := k + 1\<rparr>)"
          by (simp add: tokenizeStep_def)
        with assms(2) show ?thesis by (simp add: skipComment_fields)
      next
        case False
        with assms \<open>atLineStart st\<close> ci lt nnl
        obtain st1 where h: "handleIndentation k (line st) st = Inr st1"
          and s: "scanToken src (st1\<lparr>current := temp, column := k + 1, atLineStart := False\<rparr>)
                    = Inr (fl, st')"
          by (auto simp: tokenizeStep_def Let_def split: sum.splits if_splits)
        from lt have lt': "temp < length src" by simp
        note stop = countIndent_stop [OF ci lt']
        from scanToken_real [OF s] lt' stop nnl False
        obtain t where t: "tokens st' = tokens st1 @ [t]" "\<not> structural (ttype t)"
          by auto
        from handleIndentation_effect(3) [OF h assms(3)]
        show ?thesis
        proof
          assume "tokens st1 = tokens st @ [Token Indent [] (line st) 1] \<and> indentStack st1 = k # indentStack st"
          with t indentFollowed_indent [OF assms(2), of "Token Indent [] (line st) 1" t]
          show ?thesis by simp
        next
          assume "\<exists>j. tokens st1 = tokens st @ replicate j (Token Dedent [] (line st) 1)
              \<and> length (indentStack st) = length (indentStack st1) + j"
          then obtain j where "tokens st1 = tokens st @ replicate j (Token Dedent [] (line st) 1)"
            by blast
          moreover from indentFollowed_replicate [OF assms(2), of "Token Dedent [] (line st) 1" j]
          have "indentFollowed (tokens st @ replicate j (Token Dedent [] (line st) 1))" by simp
          moreover from t(2) have "ttype t \<noteq> Indent" by (auto simp: structural_def)
          ultimately have "indentFollowed (tokens st1 @ [t])"
            using indentFollowed_snoc [of "tokens st1" t] by simp
          with t(1) show ?thesis by simp
        qed
      qed
    qed
  qed
qed

lemma tokenizeLoop_indentFollowed:
  "tokenizeLoop src st = Inr st' \<Longrightarrow> lexInv st \<Longrightarrow> indentFollowed (tokens st) \<Longrightarrow>
     indentFollowed (tokens st')"
proof (induction src st rule: tokenizeLoop.induct)
  case (1 src st)
  show ?case
  proof (cases "current st < length src")
    case False
    with "1.prems" show ?thesis by (simp add: tokenizeLoop.simps)
  next
    case True
    with "1.prems"(1) obtain fl st1 where step: "tokenizeStep src st = Inr (fl, st1)"
      by (subst (asm) tokenizeLoop.simps) (auto split: sum.splits)
    from tokenizeStep_lexInv [OF step "1.prems"(2)] have inv1: "lexInv st1" .
    from "1.prems"(2) have ok: "stackOk (indentStack st)" by (simp add: lexInv_def)
    from tokenizeStep_indentFollowed [OF step "1.prems"(3) ok] have f1: "indentFollowed (tokens st1)" .
    show ?thesis
    proof (cases fl)
      case Break
      with "1.prems"(1) True step f1 show ?thesis
        by (subst (asm) tokenizeLoop.simps) simp
    next
      case Again
      with "1.prems"(1) True step have "tokenizeLoop src st1 = Inr st'"
        by (subst (asm) tokenizeLoop.simps) simp
      from "1.IH" [OF True step refl Again this inv1 f1] show ?thesis .
    qed
  qed
qed

text \<open>Shape of the token vector of a successful run.\<close>

lemma tokenize_shape:
  assumes "tokenize src = Inr toks"
  shows "\<exists>st. tokenizeLoop src Lexer_init = Inr st \<and>
     toks = tokens st @ replicate (length (indentStack st) - 1) (Token Dedent [] (line st) 1)
                 @ [Token EndOfFile [] (line st) (column st)]"
proof -
  from assms obtain st where loop: "tokenizeLoop src Lexer_init = Inr st"
    and toks: "toks = tokens (pushToken EndOfFile [] (emitPendingDedents (line st) st))"
    by (auto simp: tokenize_def split: sum.splits)
  from tokenizeLoop_lexInv [OF loop lexInv_init] have inv: "lexInv st" .
  then have ne: "indentStack st \<noteq> []" by (simp add: lexInv_def stackOk_def)
  from toks popAll_eq [OF ne, of "line st" "tokens st"]
  have eq: "toks = tokens st @ replicate (length (indentStack st) - 1) (Token Dedent [] (line st) 1)
                 @ [Token EndOfFile [] (line st) (column st)]"
    by (simp add: pushToken_def emitPendingDedents_def)
  with loop show ?thesis by blast
qed

lemma tokenize_indentFollowed:
  assumes "tokenize src = Inr toks"
  shows "indentFollowed toks"
proof -
  from tokenize_shape [OF assms] obtain st where loop: "tokenizeLoop src Lexer_init = Inr st"
    and eq: "toks = tokens st @ replicate (length (indentStack st) - 1) (Token Dedent [] (line st) 1)
                 @ [Token EndOfFile [] (line st) (column st)]" by blast
  have "indentFollowed (tokens Lexer_init)" by (simp add: Lexer_init_def)
  from tokenizeLoop_indentFollowed [OF loop lexInv_init this] have "indentFollowed (tokens st)" .
  then have "indentFollowed (tokens st @ replicate (length (indentStack st) - 1) (Token Dedent [] (line st) 1))"
    by (rule indentFollowed_replicate) simp
  then have "indentFollowed ((tokens st @ replicate (length (indentStack st) - 1) (Token Dedent [] (line st) 1))
      @ [Token EndOfFile [] (line st) (column st)])"
    by (rule indentFollowed_snoc) simp
  with eq show ?thesis by simp
qed

text \<open>
  No pass of the loop appends an \<^verbatim>\<open>EOF\<close> token, so the one that \<^verbatim>\<open>tokenize\<close> pushes at the end
  is the only one of the vector.
\<close>

lemma tokenizeStep_noEOF:
  assumes "tokenizeStep src st = Inr (fl, st')" and "lexInv st"
    and "countType EndOfFile (tokens st) = 0"
  shows "countType EndOfFile (tokens st') = 0"
proof (cases "atLineStart st")
  case False
  with assms scanToken_effect [of src st fl st'] show ?thesis
    by (auto simp: tokenizeStep_def structural_def)
next
  case True
  obtain temp k where ci: "countIndent src (current st) 0 = (temp, k)" by force
  show ?thesis
  proof (cases "temp \<ge> length src")
    case True
    with assms \<open>atLineStart st\<close> ci show ?thesis
      by (auto simp: tokenizeStep_def)
  next
    case lt: False
    show ?thesis
    proof (cases "src ! temp = CHR 0x0A")
      case True
      with assms \<open>atLineStart st\<close> ci lt
      have "scanToken src (st\<lparr>current := temp, column := 1\<rparr>) = Inr (fl, st')"
        by (simp add: tokenizeStep_def)
      from scanToken_effect [OF this] assms(3) show ?thesis
        by (auto simp: structural_def)
    next
      case nnl: False
      show ?thesis
      proof (cases "src ! temp = CHR ''/'' \<and> temp + 1 < length src \<and> src ! (temp + 1) = CHR ''/''")
        case True
        with assms \<open>atLineStart st\<close> ci lt nnl
        have "st' = skipComment src (st\<lparr>current := temp, column := k + 1\<rparr>)"
          by (simp add: tokenizeStep_def)
        with assms(3) show ?thesis by (simp add: skipComment_fields)
      next
        case False
        with assms \<open>atLineStart st\<close> ci lt nnl
        obtain st1 where h: "handleIndentation k (line st) st = Inr st1"
          and s: "scanToken src (st1\<lparr>current := temp, column := k + 1, atLineStart := False\<rparr>)
                    = Inr (fl, st')"
          by (auto simp: tokenizeStep_def Let_def split: sum.splits if_splits)
        from assms(2) have ok: "stackOk (indentStack st)" by (simp add: lexInv_def)
        from handleIndentation_effect(3) [OF h ok] assms(3)
        have "countType EndOfFile (tokens st1) = 0"
          by auto
        with scanToken_effect(2) [OF s] show ?thesis
          by (auto simp: structural_def)
      qed
    qed
  qed
qed

lemma tokenizeLoop_noEOF:
  "tokenizeLoop src st = Inr st' \<Longrightarrow> lexInv st \<Longrightarrow> countType EndOfFile (tokens st) = 0 \<Longrightarrow>
     countType EndOfFile (tokens st') = 0"
proof (induction src st rule: tokenizeLoop.induct)
  case (1 src st)
  show ?case
  proof (cases "current st < length src")
    case False
    with "1.prems" show ?thesis by (simp add: tokenizeLoop.simps)
  next
    case True
    with "1.prems"(1) obtain fl st1 where step: "tokenizeStep src st = Inr (fl, st1)"
      by (subst (asm) tokenizeLoop.simps) (auto split: sum.splits)
    from tokenizeStep_lexInv [OF step "1.prems"(2)] have inv1: "lexInv st1" .
    from tokenizeStep_noEOF [OF step "1.prems"(2,3)] have f1: "countType EndOfFile (tokens st1) = 0" .
    show ?thesis
    proof (cases fl)
      case Break
      with "1.prems"(1) True step f1 show ?thesis
        by (subst (asm) tokenizeLoop.simps) simp
    next
      case Again
      with "1.prems"(1) True step have "tokenizeLoop src st1 = Inr st'"
        by (subst (asm) tokenizeLoop.simps) simp
      from "1.IH" [OF True step refl Again this inv1 f1] show ?thesis .
    qed
  qed
qed

lemma tokenize_eof_last:
  assumes "tokenize src = Inr toks" and "i < length toks" and "ttype (toks ! i) = EndOfFile"
  shows "Suc i = length toks"
proof -
  from tokenize_shape [OF assms(1)] obtain st where loop: "tokenizeLoop src Lexer_init = Inr st"
    and eq: "toks = (tokens st @ replicate (length (indentStack st) - 1) (Token Dedent [] (line st) 1))
                 @ [Token EndOfFile [] (line st) (column st)]" by auto
  define body where "body = tokens st @ replicate (length (indentStack st) - 1) (Token Dedent [] (line st) 1)"
  have "countType EndOfFile (tokens Lexer_init) = 0" by (simp add: Lexer_init_def)
  from tokenizeLoop_noEOF [OF loop lexInv_init this]
  have "countType EndOfFile body = 0" by (simp add: body_def)
  then have no: "\<forall>t \<in> set body. ttype t \<noteq> EndOfFile"
    by (auto simp: countType_def filter_empty_conv)
  from eq have toks: "toks = body @ [Token EndOfFile [] (line st) (column st)]"
    by (simp add: body_def)
  show ?thesis
  proof (rule ccontr)
    assume "Suc i \<noteq> length toks"
    with assms(2) toks have lt: "i < length body" by simp
    with toks have "toks ! i = body ! i" by (simp add: nth_append)
    with no lt assms(3) show False by (metis nth_mem)
  qed
qed

subsection \<open>The parser returns a program or throws a \<^verbatim>\<open>ParserError\<close>\<close>

text \<open>
  \<open>wellEnded\<close>: the token vector ends with \<^verbatim>\<open>EOF\<close>, as every vector of the lexer does.
  \<open>parsed ts lo r\<close>: the result \<open>r\<close> of a parsing function is a \<^verbatim>\<open>ParserError\<close>, or a success
  whose position is at least \<open>lo\<close> and still inside the vector. On a well-ended vector, from
  a position inside it and with fuel \<open>16 * (length ts - c) + k\<close> (\<open>k\<close> the rank of the function
  in the call graph), every parsing function has such a result: it neither reads past the
  end of the vector nor runs out of fuel. The rules below say this for one call followed by
  the rest of the function.
\<close>

definition wellEnded :: "Token list \<Rightarrow> bool" where
  "wellEnded ts \<longleftrightarrow> ts \<noteq> [] \<and> ttype (last ts) = EndOfFile"

definition parsed :: "Token list \<Rightarrow> nat \<Rightarrow> error + ('a \<times> nat) \<Rightarrow> bool" where
  "parsed ts lo r \<longleftrightarrow>
     (\<exists>msg. r = Inl (ParserError msg)) \<or> (\<exists>x c. r = Inr (x, c) \<and> lo \<le> c \<and> c < length ts)"

lemma parsed_error [simp]: "parsed ts lo (Inl (ParserError msg))"
  by (simp add: parsed_def)

lemma parsed_Inr [simp]: "parsed ts lo (Inr (x, c)) \<longleftrightarrow> lo \<le> c \<and> c < length ts"
  by (simp add: parsed_def)

lemma parsed_if:
  "(b \<Longrightarrow> parsed ts lo A) \<Longrightarrow> (\<not> b \<Longrightarrow> parsed ts lo B) \<Longrightarrow> parsed ts lo (if b then A else B)"
  by simp

lemma parsed_mono: "parsed ts c r \<Longrightarrow> lo \<le> c \<Longrightarrow> parsed ts lo r"
  by (auto simp: parsed_def)

lemma wellEnded_Suc:
  "wellEnded ts \<Longrightarrow> c < length ts \<Longrightarrow> ttype (ts ! c) \<noteq> EndOfFile \<Longrightarrow> Suc c < length ts"
proof (rule ccontr)
  assume a: "wellEnded ts" "c < length ts" "ttype (ts ! c) \<noteq> EndOfFile" "\<not> Suc c < length ts"
  then have c: "c = length ts - 1" by simp
  from a(1) have "last ts = ts ! (length ts - 1)"
    unfolding wellEnded_def by (intro last_conv_nth) simp
  with a(1,3) c show False by (simp add: wellEnded_def)
qed

lemma match_eq:
  "wellEnded ts \<Longrightarrow> c < length ts \<Longrightarrow>
     match ty ts c = (if ttype (ts ! c) = ty \<and> ty \<noteq> EndOfFile then Inr (True, Suc c) else Inr (False, c))"
  by (auto simp: match_def check_def isAtEnd_def peek_def advance_def previous_def bindE_def Let_def
      dest: wellEnded_Suc)

lemma consume_eq:
  "wellEnded ts \<Longrightarrow> c < length ts \<Longrightarrow>
     consume ty msg ts c = (if ttype (ts ! c) = ty \<and> ty \<noteq> EndOfFile then Inr (ts ! c, Suc c)
                            else Inl (ParserError (c_str msg)))"
  by (auto simp: consume_def check_def isAtEnd_def peek_def advance_def previous_def bindE_def Let_def
      dest: wellEnded_Suc)

lemma advance_eq:
  "wellEnded ts \<Longrightarrow> c < length ts \<Longrightarrow> ttype (ts ! c) \<noteq> EndOfFile \<Longrightarrow>
     advance ts c = Inr (ts ! c, Suc c)"
  by (auto simp: advance_def isAtEnd_def peek_def previous_def bindE_def Let_def dest: wellEnded_Suc)

lemma bind_match:
  assumes "wellEnded ts" and "c0 < length ts"
    and "ttype (ts ! c0) = ty \<Longrightarrow> Suc c0 < length ts \<Longrightarrow> parsed ts lo (A (Suc c0))"
    and "parsed ts lo (B c0)"
  shows "parsed ts lo (bindE (match ty ts c0) (\<lambda>(m, c). if m then A c else B c))"
  using assms wellEnded_Suc [of ts c0] by (auto simp: match_eq bindE_def)

lemma bind_consume:
  assumes "wellEnded ts" and "c0 < length ts"
    and "ttype (ts ! c0) = ty \<Longrightarrow> Suc c0 < length ts \<Longrightarrow> parsed ts lo (g (ts ! c0) (Suc c0))"
  shows "parsed ts lo (bindE (consume ty msg ts c0) (case_prod g))"
  using assms wellEnded_Suc [of ts c0] by (auto simp: consume_eq bindE_def)

lemma bind_advance:
  assumes "wellEnded ts" and "c0 < length ts" and "ttype (ts ! c0) \<noteq> EndOfFile"
    and "Suc c0 < length ts \<Longrightarrow> parsed ts lo (g (ts ! c0) (Suc c0))"
  shows "parsed ts lo (bindE (advance ts c0) (case_prod g))"
  using assms wellEnded_Suc [of ts c0] by (auto simp: advance_eq bindE_def)

lemma bind_check:
  assumes "c0 < length ts"
    and "parsed ts lo (g (ttype (ts ! c0) = ty \<and> ttype (ts ! c0) \<noteq> EndOfFile))"
  shows "parsed ts lo (bindE (check ty ts c0) g)"
proof -
  from assms(1) have "check ty ts c0 = Inr (ttype (ts ! c0) = ty \<and> ttype (ts ! c0) \<noteq> EndOfFile)"
    by (auto simp: check_def isAtEnd_def peek_def bindE_def)
  with assms(2) show ?thesis by (simp add: bindE_def)
qed

lemma bind_isAtEnd:
  assumes "c0 < length ts" and "parsed ts lo (g (ttype (ts ! c0) = EndOfFile))"
  shows "parsed ts lo (bindE (isAtEnd ts c0) g)"
  using assms by (simp add: isAtEnd_def peek_def bindE_def)

lemma bind_peek:
  assumes "c0 < length ts" and "parsed ts lo (g (ts ! c0))"
  shows "parsed ts lo (bindE (peek ts c0) g)"
  using assms by (simp add: peek_def bindE_def)

lemma bind_previous:
  assumes "Suc c0 < length ts" and "parsed ts lo (g (ts ! c0))"
  shows "parsed ts lo (bindE (previous ts (Suc c0)) g)"
  using assms by (simp add: previous_def bindE_def)

lemma bind_call:
  assumes "parsed ts c0 m"
    and "\<And>x c. c0 \<le> c \<Longrightarrow> c < length ts \<Longrightarrow> parsed ts lo (g x c)"
  shows "parsed ts lo (bindE m (case_prod g))"
proof (cases m)
  case (Inl e)
  with assms(1) show ?thesis by (auto simp: parsed_def bindE_def)
next
  case (Inr p)
  with assms(1) obtain x c where "m = Inr (x, c)" "c0 \<le> c" "c < length ts"
    by (auto simp: parsed_def)
  with assms(2) [of c x] show ?thesis by (simp add: bindE_def)
qed

lemma skipNewlines_total:
  "wellEnded ts \<Longrightarrow> c < length ts \<Longrightarrow> \<exists>c'. skipNewlines ts c = Inr c' \<and> c \<le> c' \<and> c' < length ts"
proof (induction ts c rule: skipNewlines.induct)
  case (1 ts cur)
  show ?case
  proof (cases "ttype (ts ! cur) = Newline")
    case False
    with "1.prems" show ?thesis
      by (subst skipNewlines.simps) (simp add: match_eq)
  next
    case True
    with "1.prems" have m: "match Newline ts cur = Inr (True, Suc cur)" by (simp add: match_eq)
    from True "1.prems" have lt: "Suc cur < length ts" by (auto intro: wellEnded_Suc)
    from "1.IH" [OF m refl refl "1.prems"(1) lt]
    obtain c' where "skipNewlines ts (Suc cur) = Inr c'" "Suc cur \<le> c'" "c' < length ts" by blast
    with m show ?thesis by (subst skipNewlines.simps) simp
  qed
qed

lemma bind_skipNewlines:
  assumes "wellEnded ts" and "c0 < length ts"
    and "\<And>c. c0 \<le> c \<Longrightarrow> c < length ts \<Longrightarrow> parsed ts lo (g c)"
  shows "parsed ts lo (bindE (skipNewlines ts c0) g)"
  using skipNewlines_total [OF assms(1,2)] assms(3) by (auto simp: bindE_def)

lemma bind_expectNewline:
  assumes "wellEnded ts" and "c0 < length ts"
    and "\<And>c. c0 \<le> c \<Longrightarrow> c < length ts \<Longrightarrow> parsed ts lo (g c)"
  shows "parsed ts lo (bindE (expectNewline ctx ts c0) g)"
proof (cases "ttype (ts ! c0) = Newline")
  case True
  with assms(1,2) have lt: "Suc c0 < length ts" by (auto intro: wellEnded_Suc)
  from skipNewlines_total [OF assms(1) lt] obtain c' where
    "skipNewlines ts (Suc c0) = Inr c'" "Suc c0 \<le> c'" "c' < length ts" by blast
  with True assms show ?thesis
    by (simp add: expectNewline_def match_eq bindE_def)
next
  case False
  have "check Dedent ts c0 = Inr (ttype (ts ! c0) = Dedent)" "check EndOfFile ts c0 = Inr False"
    using assms(2) by (auto simp: check_def isAtEnd_def peek_def bindE_def)
  with False assms show ?thesis
    by (simp add: expectNewline_def match_eq bindE_def)
qed

lemma bind_parseTypeKeyword:
  assumes "wellEnded ts" and "c0 < length ts"
    and "\<And>x c. c0 \<le> c \<Longrightarrow> c < length ts \<Longrightarrow> parsed ts lo (g x c)"
  shows "parsed ts lo (bindE (parseTypeKeyword ctx ts c0) (case_prod g))"
  using assms wellEnded_Suc [of ts c0]
  by (auto simp: parseTypeKeyword_def match_eq bindE_def)

lemma expression_total_aux:
  assumes we: "wellEnded ts"
  shows "(\<forall>c. c < length ts \<longrightarrow> 16 * (length ts - c) + 10 \<le> n \<longrightarrow> parsed ts c (parseExpression n ts c))
     \<and> (\<forall>c. c < length ts \<longrightarrow> 16 * (length ts - c) + 9 \<le> n \<longrightarrow> parsed ts c (parseOr n ts c))
     \<and> (\<forall>c e. c < length ts \<longrightarrow> 16 * (length ts - c) + 1 \<le> n \<longrightarrow> parsed ts c (parseOrLoop n ts e c))
     \<and> (\<forall>c. c < length ts \<longrightarrow> 16 * (length ts - c) + 8 \<le> n \<longrightarrow> parsed ts c (parseAnd n ts c))
     \<and> (\<forall>c e. c < length ts \<longrightarrow> 16 * (length ts - c) + 1 \<le> n \<longrightarrow> parsed ts c (parseAndLoop n ts e c))
     \<and> (\<forall>c. c < length ts \<longrightarrow> 16 * (length ts - c) + 7 \<le> n \<longrightarrow> parsed ts c (parseEquality n ts c))
     \<and> (\<forall>c e. c < length ts \<longrightarrow> 16 * (length ts - c) + 1 \<le> n \<longrightarrow> parsed ts c (parseEqualityLoop n ts e c))
     \<and> (\<forall>c. c < length ts \<longrightarrow> 16 * (length ts - c) + 6 \<le> n \<longrightarrow> parsed ts c (parseComparison n ts c))
     \<and> (\<forall>c e. c < length ts \<longrightarrow> 16 * (length ts - c) + 1 \<le> n \<longrightarrow> parsed ts c (parseComparisonLoop n ts e c))
     \<and> (\<forall>c. c < length ts \<longrightarrow> 16 * (length ts - c) + 5 \<le> n \<longrightarrow> parsed ts c (parseTerm n ts c))
     \<and> (\<forall>c e. c < length ts \<longrightarrow> 16 * (length ts - c) + 1 \<le> n \<longrightarrow> parsed ts c (parseTermLoop n ts e c))
     \<and> (\<forall>c. c < length ts \<longrightarrow> 16 * (length ts - c) + 4 \<le> n \<longrightarrow> parsed ts c (parseFactor n ts c))
     \<and> (\<forall>c e. c < length ts \<longrightarrow> 16 * (length ts - c) + 1 \<le> n \<longrightarrow> parsed ts c (parseFactorLoop n ts e c))
     \<and> (\<forall>c. c < length ts \<longrightarrow> 16 * (length ts - c) + 3 \<le> n \<longrightarrow> parsed ts c (parsePower n ts c))
     \<and> (\<forall>c. c < length ts \<longrightarrow> 16 * (length ts - c) + 2 \<le> n \<longrightarrow> parsed ts c (parseUnary n ts c))
     \<and> (\<forall>c. c < length ts \<longrightarrow> 16 * (length ts - c) + 1 \<le> n \<longrightarrow> parsed ts c (parsePrimary n ts c))"
proof (induction n)
  case 0
  show ?case by simp
next
  case (Suc n)
  from Suc.IH
  have a1: "\<forall>c. c < length ts \<longrightarrow> 16 * (length ts - c) + 10 \<le> n \<longrightarrow> parsed ts c (parseExpression n ts c)"
    and a2: "\<forall>c. c < length ts \<longrightarrow> 16 * (length ts - c) + 9 \<le> n \<longrightarrow> parsed ts c (parseOr n ts c)"
    and a3: "\<forall>c e. c < length ts \<longrightarrow> 16 * (length ts - c) + 1 \<le> n \<longrightarrow> parsed ts c (parseOrLoop n ts e c)"
    and a4: "\<forall>c. c < length ts \<longrightarrow> 16 * (length ts - c) + 8 \<le> n \<longrightarrow> parsed ts c (parseAnd n ts c)"
    and a5: "\<forall>c e. c < length ts \<longrightarrow> 16 * (length ts - c) + 1 \<le> n \<longrightarrow> parsed ts c (parseAndLoop n ts e c)"
    and a6: "\<forall>c. c < length ts \<longrightarrow> 16 * (length ts - c) + 7 \<le> n \<longrightarrow> parsed ts c (parseEquality n ts c)"
    and a7: "\<forall>c e. c < length ts \<longrightarrow> 16 * (length ts - c) + 1 \<le> n \<longrightarrow> parsed ts c (parseEqualityLoop n ts e c)"
    and a8: "\<forall>c. c < length ts \<longrightarrow> 16 * (length ts - c) + 6 \<le> n \<longrightarrow> parsed ts c (parseComparison n ts c)"
    and a9: "\<forall>c e. c < length ts \<longrightarrow> 16 * (length ts - c) + 1 \<le> n \<longrightarrow> parsed ts c (parseComparisonLoop n ts e c)"
    and a10: "\<forall>c. c < length ts \<longrightarrow> 16 * (length ts - c) + 5 \<le> n \<longrightarrow> parsed ts c (parseTerm n ts c)"
    and a11: "\<forall>c e. c < length ts \<longrightarrow> 16 * (length ts - c) + 1 \<le> n \<longrightarrow> parsed ts c (parseTermLoop n ts e c)"
    and a12: "\<forall>c. c < length ts \<longrightarrow> 16 * (length ts - c) + 4 \<le> n \<longrightarrow> parsed ts c (parseFactor n ts c)"
    and a13: "\<forall>c e. c < length ts \<longrightarrow> 16 * (length ts - c) + 1 \<le> n \<longrightarrow> parsed ts c (parseFactorLoop n ts e c)"
    and a14: "\<forall>c. c < length ts \<longrightarrow> 16 * (length ts - c) + 3 \<le> n \<longrightarrow> parsed ts c (parsePower n ts c)"
    and a15: "\<forall>c. c < length ts \<longrightarrow> 16 * (length ts - c) + 2 \<le> n \<longrightarrow> parsed ts c (parseUnary n ts c)"
    and a16: "\<forall>c. c < length ts \<longrightarrow> 16 * (length ts - c) + 1 \<le> n \<longrightarrow> parsed ts c (parsePrimary n ts c)"
    by simp_all
  note ih = a1 [rule_format] a2 [rule_format] a3 [rule_format] a4 [rule_format] a5 [rule_format] a6 [rule_format] a7 [rule_format] a8 [rule_format] a9 [rule_format] a10 [rule_format] a11 [rule_format] a12 [rule_format] a13 [rule_format] a14 [rule_format] a15 [rule_format] a16 [rule_format]
  note calls = ih [THEN parsed_mono] ih [THEN bind_call]
  note rules = parsed_if bind_match [OF we] bind_consume [OF we] bind_previous bind_peek calls
  have s1: "parsed ts c (parseExpression (Suc n) ts c)"
    if "c < length ts" "16 * (length ts - c) + 10 \<le> Suc n" for c
    using that unfolding parseExpression.simps
    by (intro rules; simp?; arith?)
  have s2: "parsed ts c (parseOr (Suc n) ts c)"
    if "c < length ts" "16 * (length ts - c) + 9 \<le> Suc n" for c
    using that unfolding parseOr.simps
    by (intro rules; simp?; arith?)
  have s3: "parsed ts c (parseOrLoop (Suc n) ts e c)"
    if "c < length ts" "16 * (length ts - c) + 1 \<le> Suc n" for c e
    using that unfolding parseOrLoop.simps
    by (intro rules; simp?; arith?)
  have s4: "parsed ts c (parseAnd (Suc n) ts c)"
    if "c < length ts" "16 * (length ts - c) + 8 \<le> Suc n" for c
    using that unfolding parseAnd.simps
    by (intro rules; simp?; arith?)
  have s5: "parsed ts c (parseAndLoop (Suc n) ts e c)"
    if "c < length ts" "16 * (length ts - c) + 1 \<le> Suc n" for c e
    using that unfolding parseAndLoop.simps
    by (intro rules; simp?; arith?)
  have s6: "parsed ts c (parseEquality (Suc n) ts c)"
    if "c < length ts" "16 * (length ts - c) + 7 \<le> Suc n" for c
    using that unfolding parseEquality.simps
    by (intro rules; simp?; arith?)
  have s7: "parsed ts c (parseEqualityLoop (Suc n) ts e c)"
    if "c < length ts" "16 * (length ts - c) + 1 \<le> Suc n" for c e
    using that unfolding parseEqualityLoop.simps
    by (intro rules; simp?; arith?)
  have s8: "parsed ts c (parseComparison (Suc n) ts c)"
    if "c < length ts" "16 * (length ts - c) + 6 \<le> Suc n" for c
    using that unfolding parseComparison.simps
    by (intro rules; simp?; arith?)
  have s9: "parsed ts c (parseComparisonLoop (Suc n) ts e c)"
    if "c < length ts" "16 * (length ts - c) + 1 \<le> Suc n" for c e
    using that unfolding parseComparisonLoop.simps
    by (intro rules; simp?; arith?)
  have s10: "parsed ts c (parseTerm (Suc n) ts c)"
    if "c < length ts" "16 * (length ts - c) + 5 \<le> Suc n" for c
    using that unfolding parseTerm.simps
    by (intro rules; simp?; arith?)
  have s11: "parsed ts c (parseTermLoop (Suc n) ts e c)"
    if "c < length ts" "16 * (length ts - c) + 1 \<le> Suc n" for c e
    using that unfolding parseTermLoop.simps
    by (intro rules; simp?; arith?)
  have s12: "parsed ts c (parseFactor (Suc n) ts c)"
    if "c < length ts" "16 * (length ts - c) + 4 \<le> Suc n" for c
    using that unfolding parseFactor.simps
    by (intro rules; simp?; arith?)
  have s13: "parsed ts c (parseFactorLoop (Suc n) ts e c)"
    if "c < length ts" "16 * (length ts - c) + 1 \<le> Suc n" for c e
    using that unfolding parseFactorLoop.simps
    by (intro rules; simp?; arith?)
  have s14: "parsed ts c (parsePower (Suc n) ts c)"
    if "c < length ts" "16 * (length ts - c) + 3 \<le> Suc n" for c
    using that unfolding parsePower.simps
    by (intro rules; simp?; arith?)
  have s15: "parsed ts c (parseUnary (Suc n) ts c)"
    if "c < length ts" "16 * (length ts - c) + 2 \<le> Suc n" for c
    using that unfolding parseUnary.simps
    by (intro rules; simp?; arith?)
  have s16: "parsed ts c (parsePrimary (Suc n) ts c)"
    if "c < length ts" "16 * (length ts - c) + 1 \<le> Suc n" for c
    using that unfolding parsePrimary.simps
    by (intro rules; simp?; arith?)
  show ?case
    by (intro conjI allI impI; ((rule s1; assumption) | (rule s2; assumption) | (rule s3; assumption) | (rule s4; assumption) | (rule s5; assumption) | (rule s6; assumption) | (rule s7; assumption) | (rule s8; assumption) | (rule s9; assumption) | (rule s10; assumption) | (rule s11; assumption) | (rule s12; assumption) | (rule s13; assumption) | (rule s14; assumption) | (rule s15; assumption) | (rule s16; assumption)))
qed

lemma parseExpression_total:
  "wellEnded ts \<Longrightarrow> c < length ts \<Longrightarrow> 16 * (length ts - c) + 10 \<le> n \<Longrightarrow>
     parsed ts c (parseExpression n ts c)"
  by (rule conjunct1 [OF expression_total_aux, rule_format])

lemma bind_match_any:
  assumes "wellEnded ts" and "c0 < length ts"
    and "ttype (ts ! c0) = ty \<Longrightarrow> Suc c0 < length ts \<Longrightarrow> parsed ts lo (g True (Suc c0))"
    and "parsed ts lo (g False c0)"
  shows "parsed ts lo (bindE (match ty ts c0) (case_prod g))"
  using assms wellEnded_Suc [of ts c0] by (auto simp: match_eq bindE_def)

lemma bindE_if: "bindE (if b then x else y) f = (if b then bindE x f else bindE y f)"
  by simp

lemma bindE_Inr_pair: "bindE (Inr (a, b)) (case_prod g) = g a b"
  by (simp add: bindE_def)

lemma parseParenthesizedCondition_total:
  assumes we: "wellEnded ts" and "c < length ts" and "16 * (length ts - Suc c) + 10 \<le> n"
  shows "parsed ts c (parseParenthesizedCondition n ctx ts c)"
  using assms(2,3) unfolding parseParenthesizedCondition_def
  by (intro bind_consume [OF we] parseExpression_total [OF we, THEN bind_call]; simp?; arith?)

lemma parseInput_total:
  assumes we: "wellEnded ts" and "c < length ts" and "ttype (ts ! c) \<noteq> EndOfFile"
  shows "parsed ts (Suc c) (parseInput ts c)"
  using assms(2-) unfolding parseInput_def
  by (intro bind_advance [OF we] bind_consume [OF we] bind_expectNewline [OF we]; simp?)

lemma simple_statements_total:
  assumes we: "wellEnded ts" and "c < length ts" and "ttype (ts ! c) \<noteq> EndOfFile"
    and "16 * (length ts - Suc c) + 10 \<le> n"
  shows "parsed ts (Suc c) (parseVarDecl n ts c)"
    and "parsed ts (Suc c) (parseAssignment n ts c)"
    and "parsed ts (Suc c) (parseOutput n ts c)"
proof -
  note rules = parsed_if bind_advance [OF we] bind_consume [OF we] bind_expectNewline [OF we]
    parseExpression_total [OF we, THEN bind_call]
  show "parsed ts (Suc c) (parseAssignment n ts c)"
    using assms(2-) unfolding parseAssignment_def
    by (intro rules; simp?; arith?)
  show "parsed ts (Suc c) (parseOutput n ts c)"
    using assms(2-) unfolding parseOutput_def
    by (intro rules; simp?; arith?)
  show "parsed ts (Suc c) (parseVarDecl n ts c)"
    using assms(2-) unfolding parseVarDecl_def Let_def bindE_if bindE_Inr_pair
    by (intro rules bind_match [OF we]; simp?; arith?)
qed

lemma statement_total_aux:
  assumes we: "wellEnded ts"
  shows "(\<forall>c. c < length ts \<longrightarrow> 16 * (length ts - c) + 2 \<le> n \<longrightarrow> parsed ts (Suc c) (parseStatement n ts c))
     \<and> (\<forall>c. c < length ts \<longrightarrow> ttype (ts ! c) \<noteq> EndOfFile \<longrightarrow> 16 * (length ts - c) + 1 \<le> n \<longrightarrow> parsed ts (Suc c) (parseIf n ts c))
     \<and> (\<forall>c bs. c < length ts \<longrightarrow> 16 * (length ts - c) + 1 \<le> n \<longrightarrow> parsed ts (c) (parseIfLoop n ts bs c))
     \<and> (\<forall>c. c < length ts \<longrightarrow> ttype (ts ! c) \<noteq> EndOfFile \<longrightarrow> 16 * (length ts - c) + 1 \<le> n \<longrightarrow> parsed ts (Suc c) (parseWhile n ts c))
     \<and> (\<forall>c. c < length ts \<longrightarrow> ttype (ts ! c) \<noteq> EndOfFile \<longrightarrow> 16 * (length ts - c) + 1 \<le> n \<longrightarrow> parsed ts (Suc c) (parseFor n ts c))
     \<and> (\<forall>c ctx. c < length ts \<longrightarrow> 16 * (length ts - c) + 1 \<le> n \<longrightarrow> parsed ts (c) (parseIndentedBlock n ctx ts c))
     \<and> (\<forall>c body. c < length ts \<longrightarrow> 16 * (length ts - c) + 3 \<le> n \<longrightarrow> parsed ts (c) (parseBlockLoop n ts body c))"
proof (induction n)
  case 0
  show ?case by simp
next
  case (Suc n)
  from Suc.IH
  have a1: "\<forall>c. c < length ts \<longrightarrow> 16 * (length ts - c) + 2 \<le> n \<longrightarrow> parsed ts (Suc c) (parseStatement n ts c)"
    and a2: "\<forall>c. c < length ts \<longrightarrow> ttype (ts ! c) \<noteq> EndOfFile \<longrightarrow> 16 * (length ts - c) + 1 \<le> n \<longrightarrow> parsed ts (Suc c) (parseIf n ts c)"
    and a3: "\<forall>c bs. c < length ts \<longrightarrow> 16 * (length ts - c) + 1 \<le> n \<longrightarrow> parsed ts (c) (parseIfLoop n ts bs c)"
    and a4: "\<forall>c. c < length ts \<longrightarrow> ttype (ts ! c) \<noteq> EndOfFile \<longrightarrow> 16 * (length ts - c) + 1 \<le> n \<longrightarrow> parsed ts (Suc c) (parseWhile n ts c)"
    and a5: "\<forall>c. c < length ts \<longrightarrow> ttype (ts ! c) \<noteq> EndOfFile \<longrightarrow> 16 * (length ts - c) + 1 \<le> n \<longrightarrow> parsed ts (Suc c) (parseFor n ts c)"
    and a6: "\<forall>c ctx. c < length ts \<longrightarrow> 16 * (length ts - c) + 1 \<le> n \<longrightarrow> parsed ts (c) (parseIndentedBlock n ctx ts c)"
    and a7: "\<forall>c body. c < length ts \<longrightarrow> 16 * (length ts - c) + 3 \<le> n \<longrightarrow> parsed ts (c) (parseBlockLoop n ts body c)"
    by simp_all
  note stmt = a1 [rule_format] and ifs = a2 [rule_format] and ifl = a3 [rule_format]
    and whl = a4 [rule_format] and forS = a5 [rule_format] and blk = a6 [rule_format]
    and lp = a7 [rule_format]
  note rules = parsed_if bind_match [OF we] bind_consume [OF we] bind_advance [OF we] bind_check
    bind_isAtEnd bind_peek bind_skipNewlines [OF we] bind_expectNewline [OF we]
    bind_parseTypeKeyword [OF we] parseExpression_total [OF we, THEN bind_call]
    parseParenthesizedCondition_total [OF we, THEN bind_call] simple_statements_total [OF we] parseInput_total [OF we]
    stmt [THEN bind_call] ifs whl forS ifl [THEN parsed_mono] blk [THEN bind_call]
    lp [THEN parsed_mono] lp [THEN bind_call]
  have s1: "parsed ts (Suc c) (parseStatement (Suc n) ts c)"
    if "c < length ts" "16 * (length ts - c) + 2 \<le> Suc n" for c
    using that unfolding parseStatement.simps
    by (intro rules; (auto simp: isTypeKeyword_def)?; arith?)
  have s2: "parsed ts (Suc c) (parseIf (Suc n) ts c)"
    if "c < length ts" "ttype (ts ! c) \<noteq> EndOfFile" "16 * (length ts - c) + 1 \<le> Suc n" for c
    using that unfolding parseIf.simps
    by (intro rules; (auto simp: isTypeKeyword_def)?; arith?)
  have s3: "parsed ts (c) (parseIfLoop (Suc n) ts bs c)"
    if "c < length ts" "16 * (length ts - c) + 1 \<le> Suc n" for c bs
    using that unfolding parseIfLoop.simps
    by (intro rules; (auto simp: isTypeKeyword_def)?; arith?)
  have s4: "parsed ts (Suc c) (parseWhile (Suc n) ts c)"
    if "c < length ts" "ttype (ts ! c) \<noteq> EndOfFile" "16 * (length ts - c) + 1 \<le> Suc n" for c
    using that unfolding parseWhile.simps
    by (intro rules; (auto simp: isTypeKeyword_def)?; arith?)
  have s5: "parsed ts (Suc c) (parseFor (Suc n) ts c)"
    if "c < length ts" "ttype (ts ! c) \<noteq> EndOfFile" "16 * (length ts - c) + 1 \<le> Suc n" for c
    using that unfolding parseFor.simps
    by (intro rules; (auto simp: isTypeKeyword_def)?; arith?)
  have s6: "parsed ts (c) (parseIndentedBlock (Suc n) ctx ts c)"
    if "c < length ts" "16 * (length ts - c) + 1 \<le> Suc n" for c ctx
    using that unfolding parseIndentedBlock.simps
    by (intro rules; (auto simp: isTypeKeyword_def)?; arith?)
  have s7: "parsed ts (c) (parseBlockLoop (Suc n) ts body c)"
    if "c < length ts" "16 * (length ts - c) + 3 \<le> Suc n" for c body
    using that unfolding parseBlockLoop.simps
    by (intro rules; (auto simp: isTypeKeyword_def)?; arith?)
  show ?case
    by (intro conjI allI impI; ((rule s1; assumption) | (rule s2; assumption) | (rule s3; assumption) | (rule s4; assumption) | (rule s5; assumption) | (rule s6; assumption) | (rule s7; assumption)))
qed

lemma parseStatement_total:
  "wellEnded ts \<Longrightarrow> c < length ts \<Longrightarrow> 16 * (length ts - c) + 2 \<le> n \<Longrightarrow>
     parsed ts (Suc c) (parseStatement n ts c)"
  by (rule conjunct1 [OF statement_total_aux, rule_format])

lemma parseProgramLoop_total:
  assumes we: "wellEnded ts"
  shows "c < length ts \<Longrightarrow> 16 * (length ts - c) + 3 \<le> n \<Longrightarrow>
     (\<exists>msg. parseProgramLoop n ts stmts c = Inl (ParserError msg))
       \<or> (\<exists>p. parseProgramLoop n ts stmts c = Inr p)"
proof (induction n arbitrary: c stmts)
  case 0
  then show ?case by simp
next
  case (Suc n)
  from Suc.prems(1) have e: "isAtEnd ts c = Inr (ttype (ts ! c) = EndOfFile)"
    by (simp add: isAtEnd_def peek_def bindE_def)
  show ?case
  proof (cases "ttype (ts ! c) = EndOfFile")
    case True
    with e show ?thesis by (simp add: bindE_def)
  next
    case False
    from Suc.prems have "parsed ts (Suc c) (parseStatement n ts c)"
      by (intro parseStatement_total [OF we]) simp_all
    then consider msg where "parseStatement n ts c = Inl (ParserError msg)"
      | s c1 where "parseStatement n ts c = Inr (s, c1)" "Suc c \<le> c1" "c1 < length ts"
      by (auto simp: parsed_def)
    then show ?thesis
    proof cases
      case 1
      with e False show ?thesis by (simp add: bindE_def)
    next
      case 2
      from skipNewlines_total [OF we 2(3)] obtain c2 where
        sk: "skipNewlines ts c1 = Inr c2" "c1 \<le> c2" "c2 < length ts" by blast
      from Suc.prems 2(2) sk(2,3) have "16 * (length ts - c2) + 3 \<le> n" by arith
      from Suc.IH [OF sk(3) this, of "stmts @ [s]"] e False 2(1) sk(1)
      show ?thesis by (simp add: bindE_def)
    qed
  qed
qed

text \<open>On a token vector that ends with \<^verbatim>\<open>EOF\<close> the parser returns a program or throws a \<^verbatim>\<open>ParserError\<close>.\<close>

lemma parseProgram_total:
  assumes we: "wellEnded ts"
  shows "(\<exists>msg. parseProgram ts = Inl (ParserError msg)) \<or> (\<exists>p. parseProgram ts = Inr p)"
proof -
  from we have lt: "0 < length ts" by (simp add: wellEnded_def)
  from skipNewlines_total [OF we lt] obtain c where
    sk: "skipNewlines ts 0 = Inr c" "c < length ts" by blast
  have "16 * (length ts - c) + 3 \<le> parseFuel ts" by (simp add: parseFuel_def)
  from parseProgramLoop_total [OF we sk(2) this, of "[]"] sk(1)
  show ?thesis by (simp add: parseProgram_def bindE_def)
qed

subsection \<open>What a parse consumes\<close>

text \<open>
  The header keywords, and the tokens that can stand inside a header or an expression:
  neither structural nor a header keyword.
\<close>

definition isHeader :: "TokenType \<Rightarrow> bool" where
  "isHeader t \<longleftrightarrow> t = KeywordIf \<or> t = KeywordWhile \<or> t = KeywordFor"

definition plain :: "TokenType \<Rightarrow> bool" where
  "plain t \<longleftrightarrow> \<not> structural t \<and> \<not> isHeader t"

text \<open>
  \<open>blockStarts ts i\<close>: the first structural token after position \<open>i\<close> is a \<^verbatim>\<open>NEWLINE\<close>, and the
  token after it is an \<^verbatim>\<open>INDENT\<close>. For a header keyword at \<open>i\<close> this says that the line of the
  header ends and the next line with content is indented more.
\<close>

definition blockStarts :: "Token list \<Rightarrow> nat \<Rightarrow> bool" where
  "blockStarts ts i =
     (case dropWhile (\<lambda>t. \<not> structural (ttype t)) (drop (Suc i) ts) of
        t # u # rest \<Rightarrow> ttype t = Newline \<and> ttype u = Indent
      | _ \<Rightarrow> False)"

definition exprRange :: "Token list \<Rightarrow> nat \<Rightarrow> nat \<Rightarrow> bool" where
  "exprRange ts a b \<longleftrightarrow> (\<forall>i. a \<le> i \<and> i < b \<longrightarrow> plain (ttype (ts ! i)))"

definition headersOk :: "Token list \<Rightarrow> nat \<Rightarrow> nat \<Rightarrow> bool" where
  "headersOk ts a b \<longleftrightarrow> (\<forall>i. a \<le> i \<and> i < b \<and> isHeader (ttype (ts ! i)) \<longrightarrow> blockStarts ts i)"

lemma exprRange_refl [simp]: "exprRange ts a a"
  by (auto simp: exprRange_def)

lemma headersOk_refl [simp]: "headersOk ts a a"
  by (auto simp: headersOk_def)

lemma exprRange_trans: "exprRange ts a b \<Longrightarrow> exprRange ts b c \<Longrightarrow> exprRange ts a c"
  by (auto simp: exprRange_def) (metis not_le_imp_less)

lemma headersOk_trans: "headersOk ts a b \<Longrightarrow> headersOk ts b c \<Longrightarrow> headersOk ts a c"
  by (auto simp: headersOk_def) (metis not_le_imp_less)

lemma exprRange_Suc: "exprRange ts a c \<Longrightarrow> plain (ttype (ts ! c)) \<Longrightarrow> exprRange ts a (Suc c)"
  by (auto simp: exprRange_def less_Suc_eq)

lemma headersOk_Suc:
  "headersOk ts a c \<Longrightarrow> \<not> isHeader (ttype (ts ! c)) \<Longrightarrow> headersOk ts a (Suc c)"
  by (auto simp: headersOk_def less_Suc_eq)

lemma exprRange_headersOk: "exprRange ts a b \<Longrightarrow> headersOk ts a b"
  by (auto simp: exprRange_def headersOk_def plain_def)

lemma blockStartsI:
  assumes plainBetween: "exprRange ts (Suc h) c" and "h < c" and "Suc c < length ts"
    and "ttype (ts ! c) = Newline" and "ttype (ts ! Suc c) = Indent"
  shows "blockStarts ts h"
proof -
  let ?P = "\<lambda>t. \<not> structural (ttype t)"
  let ?xs = "take (c - Suc h) (drop (Suc h) ts)"
  from assms(2,3) have split: "drop (Suc h) ts = ?xs @ drop c ts"
    by (metis Suc_leI append_take_drop_id drop_drop le_add_diff_inverse2)
  have all: "?P x" if "x \<in> set ?xs" for x
  proof -
    from that obtain k where k: "k < length ?xs" "x = ?xs ! k" by (auto simp: in_set_conv_nth)
    with assms(2,3) have "x = ts ! (Suc h + k)" "Suc h + k < c" by auto
    with plainBetween show ?thesis by (auto simp: exprRange_def plain_def)
  qed
  have "dropWhile ?P (?xs @ drop c ts) = dropWhile ?P (drop c ts)"
    by (rule dropWhile_append2) (rule all)
  with split have dw: "dropWhile ?P (drop (Suc h) ts) = dropWhile ?P (drop c ts)" by simp
  from assms(3) have "drop c ts = ts ! c # ts ! Suc c # drop (Suc (Suc c)) ts"
    by (simp add: Cons_nth_drop_Suc Suc_lessD)
  with assms(4) have "dropWhile ?P (drop c ts) = ts ! c # ts ! Suc c # drop (Suc (Suc c)) ts"
    by (simp add: structural_def)
  with dw assms(4,5) show ?thesis
    by (simp add: blockStarts_def)
qed

text \<open>What the operations of the parser consume, when they return.\<close>

lemma match_Inr:
  "match ty ts c0 = Inr (m, c) \<Longrightarrow>
     (m \<and> c = Suc c0 \<and> ttype (ts ! c0) = ty) \<or> (\<not> m \<and> c = c0)"
  by (auto simp: match_def check_def isAtEnd_def peek_def advance_def previous_def bindE_def Let_def
      split: if_splits sum.splits)

lemma consume_Inr:
  "consume ty msg ts cur = Inr (t, c) \<Longrightarrow>
     c = Suc cur \<and> cur < length ts \<and> ttype (ts ! cur) = ty \<and> t = ts ! cur"
  by (auto simp: consume_def check_def isAtEnd_def peek_def advance_def previous_def bindE_def Let_def
      split: if_splits sum.splits)

lemma advance_Inr:
  "advance ts c0 = Inr (t, c) \<Longrightarrow>
     c0 < length ts \<and> (c = Suc c0 \<or> c = c0 \<and> ttype (ts ! c0) = EndOfFile)"
  by (auto simp: advance_def isAtEnd_def peek_def previous_def bindE_def Let_def
      split: if_splits sum.splits)

lemma bindE_eq_Inr: "bindE m f = Inr y \<longleftrightarrow> (\<exists>x. m = Inr x \<and> f x = Inr y)"
  by (cases m) (auto simp: bindE_def)

text \<open>
  \<open>covE\<close>: a result that, if it is a success, has consumed only plain tokens from \<open>a\<close> on;
  \<open>covS\<close>: one that has consumed, from \<open>a\<close> on, only header keywords that a block follows.
\<close>

definition covE :: "Token list \<Rightarrow> nat \<Rightarrow> error + ('a \<times> nat) \<Rightarrow> bool" where
  "covE ts a r \<longleftrightarrow> (\<forall>x c. r = Inr (x, c) \<longrightarrow> a \<le> c \<and> exprRange ts a c)"

definition covS :: "Token list \<Rightarrow> nat \<Rightarrow> error + ('a \<times> nat) \<Rightarrow> bool" where
  "covS ts a r \<longleftrightarrow> (\<forall>x c. r = Inr (x, c) \<longrightarrow> a \<le> c \<and> headersOk ts a c)"

lemma covE_Inr [simp]: "covE ts a (Inr (x, c)) \<longleftrightarrow> a \<le> c \<and> exprRange ts a c"
  by (simp add: covE_def)

lemma covE_Inl [simp]: "covE ts a (Inl e)"
  by (simp add: covE_def)

lemma covS_Inr [simp]: "covS ts a (Inr (x, c)) \<longleftrightarrow> a \<le> c \<and> headersOk ts a c"
  by (simp add: covS_def)

lemma covS_Inl [simp]: "covS ts a (Inl e)"
  by (simp add: covS_def)

lemma covE_if:
  "(b \<Longrightarrow> covE ts a A) \<Longrightarrow> (\<not> b \<Longrightarrow> covE ts a B) \<Longrightarrow> covE ts a (if b then A else B)"
  by simp

lemma covS_if:
  "(b \<Longrightarrow> covS ts a A) \<Longrightarrow> (\<not> b \<Longrightarrow> covS ts a B) \<Longrightarrow> covS ts a (if b then A else B)"
  by simp

lemma covE_match:
  assumes "a \<le> c0" and "exprRange ts a c0" and "plain ty"
    and "a \<le> Suc c0 \<Longrightarrow> exprRange ts a (Suc c0) \<Longrightarrow> covE ts a (A (Suc c0))"
    and "covE ts a (B c0)"
  shows "covE ts a (bindE (match ty ts c0) (\<lambda>(m, c). if m then A c else B c))"
proof (cases "match ty ts c0")
  case (Inl e)
  then show ?thesis by (simp add: bindE_def)
next
  case (Inr r)
  obtain m c where r: "r = (m, c)" by (cases r)
  from match_Inr [OF Inr [unfolded r]] assms exprRange_Suc [OF assms(2), of ] Inr r
  show ?thesis by (auto simp: bindE_def)
qed

lemma covE_consume:
  assumes "a \<le> c0" and "exprRange ts a c0" and "plain ty"
    and "\<And>t. a \<le> Suc c0 \<Longrightarrow> exprRange ts a (Suc c0) \<Longrightarrow> covE ts a (g t (Suc c0))"
  shows "covE ts a (bindE (consume ty msg ts c0) (case_prod g))"
proof (cases "consume ty msg ts c0")
  case (Inl e)
  then show ?thesis by (simp add: bindE_def)
next
  case (Inr r)
  obtain t c where r: "r = (t, c)" by (cases r)
  from consume_Inr [OF Inr [unfolded r]] assms exprRange_Suc [OF assms(2)] Inr r
  show ?thesis by (auto simp: bindE_def)
qed

lemma covE_previous:
  "(\<And>t. covE ts a (g t)) \<Longrightarrow> covE ts a (bindE (previous ts c) g)"
  by (cases "previous ts c") (auto simp: bindE_def)

lemma covE_peek:
  "(\<And>t. covE ts a (g t)) \<Longrightarrow> covE ts a (bindE (peek ts c) g)"
  by (cases "peek ts c") (auto simp: bindE_def)

lemma covE_call:
  assumes "covE ts c0 m" and "a \<le> c0" and "exprRange ts a c0"
    and "\<And>x c. a \<le> c \<Longrightarrow> exprRange ts a c \<Longrightarrow> covE ts a (g x c)"
  shows "covE ts a (bindE m (case_prod g))"
proof (cases m)
  case (Inl e)
  then show ?thesis by (simp add: bindE_def)
next
  case (Inr r)
  obtain x c where r: "r = (x, c)" by (cases r)
  with Inr assms(1) have "c0 \<le> c" "exprRange ts c0 c" by (simp_all add: covE_def)
  with assms(2,3) have "a \<le> c" "exprRange ts a c" by (auto intro: exprRange_trans)
  from assms(4) [OF this] Inr r show ?thesis by (simp add: bindE_def)
qed

lemma covE_mono:
  "covE ts c r \<Longrightarrow> a \<le> c \<Longrightarrow> exprRange ts a c \<Longrightarrow> covE ts a r"
  by (auto simp: covE_def intro: exprRange_trans)

text \<open>An expression that is parsed consists of plain tokens.\<close>

lemma expression_plain_aux:
  "(\<forall>c. covE ts c (parseExpression n ts c))
   \<and> (\<forall>c. covE ts c (parseOr n ts c))
   \<and> (\<forall>c e. covE ts c (parseOrLoop n ts e c))
   \<and> (\<forall>c. covE ts c (parseAnd n ts c))
   \<and> (\<forall>c e. covE ts c (parseAndLoop n ts e c))
   \<and> (\<forall>c. covE ts c (parseEquality n ts c))
   \<and> (\<forall>c e. covE ts c (parseEqualityLoop n ts e c))
   \<and> (\<forall>c. covE ts c (parseComparison n ts c))
   \<and> (\<forall>c e. covE ts c (parseComparisonLoop n ts e c))
   \<and> (\<forall>c. covE ts c (parseTerm n ts c))
   \<and> (\<forall>c e. covE ts c (parseTermLoop n ts e c))
   \<and> (\<forall>c. covE ts c (parseFactor n ts c))
   \<and> (\<forall>c e. covE ts c (parseFactorLoop n ts e c))
   \<and> (\<forall>c. covE ts c (parsePower n ts c))
   \<and> (\<forall>c. covE ts c (parseUnary n ts c))
   \<and> (\<forall>c. covE ts c (parsePrimary n ts c))"
proof (induction n)
  case 0
  show ?case by simp
next
  case (Suc n)
  from Suc.IH
  have a1: "\<forall>c. covE ts c (parseExpression n ts c)"
    and a2: "\<forall>c. covE ts c (parseOr n ts c)"
    and a3: "\<forall>c e. covE ts c (parseOrLoop n ts e c)"
    and a4: "\<forall>c. covE ts c (parseAnd n ts c)"
    and a5: "\<forall>c e. covE ts c (parseAndLoop n ts e c)"
    and a6: "\<forall>c. covE ts c (parseEquality n ts c)"
    and a7: "\<forall>c e. covE ts c (parseEqualityLoop n ts e c)"
    and a8: "\<forall>c. covE ts c (parseComparison n ts c)"
    and a9: "\<forall>c e. covE ts c (parseComparisonLoop n ts e c)"
    and a10: "\<forall>c. covE ts c (parseTerm n ts c)"
    and a11: "\<forall>c e. covE ts c (parseTermLoop n ts e c)"
    and a12: "\<forall>c. covE ts c (parseFactor n ts c)"
    and a13: "\<forall>c e. covE ts c (parseFactorLoop n ts e c)"
    and a14: "\<forall>c. covE ts c (parsePower n ts c)"
    and a15: "\<forall>c. covE ts c (parseUnary n ts c)"
    and a16: "\<forall>c. covE ts c (parsePrimary n ts c)"
    by simp_all
  note ih = a1 [rule_format] a2 [rule_format] a3 [rule_format] a4 [rule_format] a5 [rule_format] a6 [rule_format] a7 [rule_format] a8 [rule_format] a9 [rule_format] a10 [rule_format] a11 [rule_format] a12 [rule_format] a13 [rule_format] a14 [rule_format] a15 [rule_format] a16 [rule_format]
  note rules = covE_if covE_match covE_consume covE_previous covE_peek
    ih [THEN covE_mono] ih [THEN covE_call]
  have s1: "covE ts c (parseExpression (Suc n) ts c)" for c
    unfolding parseExpression.simps
    by (intro rules; (assumption | simp add: plain_def structural_def isHeader_def))
  have s2: "covE ts c (parseOr (Suc n) ts c)" for c
    unfolding parseOr.simps
    by (intro rules; (assumption | simp add: plain_def structural_def isHeader_def))
  have s3: "covE ts c (parseOrLoop (Suc n) ts e c)" for c e
    unfolding parseOrLoop.simps
    by (intro rules; (assumption | simp add: plain_def structural_def isHeader_def))
  have s4: "covE ts c (parseAnd (Suc n) ts c)" for c
    unfolding parseAnd.simps
    by (intro rules; (assumption | simp add: plain_def structural_def isHeader_def))
  have s5: "covE ts c (parseAndLoop (Suc n) ts e c)" for c e
    unfolding parseAndLoop.simps
    by (intro rules; (assumption | simp add: plain_def structural_def isHeader_def))
  have s6: "covE ts c (parseEquality (Suc n) ts c)" for c
    unfolding parseEquality.simps
    by (intro rules; (assumption | simp add: plain_def structural_def isHeader_def))
  have s7: "covE ts c (parseEqualityLoop (Suc n) ts e c)" for c e
    unfolding parseEqualityLoop.simps
    by (intro rules; (assumption | simp add: plain_def structural_def isHeader_def))
  have s8: "covE ts c (parseComparison (Suc n) ts c)" for c
    unfolding parseComparison.simps
    by (intro rules; (assumption | simp add: plain_def structural_def isHeader_def))
  have s9: "covE ts c (parseComparisonLoop (Suc n) ts e c)" for c e
    unfolding parseComparisonLoop.simps
    by (intro rules; (assumption | simp add: plain_def structural_def isHeader_def))
  have s10: "covE ts c (parseTerm (Suc n) ts c)" for c
    unfolding parseTerm.simps
    by (intro rules; (assumption | simp add: plain_def structural_def isHeader_def))
  have s11: "covE ts c (parseTermLoop (Suc n) ts e c)" for c e
    unfolding parseTermLoop.simps
    by (intro rules; (assumption | simp add: plain_def structural_def isHeader_def))
  have s12: "covE ts c (parseFactor (Suc n) ts c)" for c
    unfolding parseFactor.simps
    by (intro rules; (assumption | simp add: plain_def structural_def isHeader_def))
  have s13: "covE ts c (parseFactorLoop (Suc n) ts e c)" for c e
    unfolding parseFactorLoop.simps
    by (intro rules; (assumption | simp add: plain_def structural_def isHeader_def))
  have s14: "covE ts c (parsePower (Suc n) ts c)" for c
    unfolding parsePower.simps
    by (intro rules; (assumption | simp add: plain_def structural_def isHeader_def))
  have s15: "covE ts c (parseUnary (Suc n) ts c)" for c
    unfolding parseUnary.simps
    by (intro rules; (assumption | simp add: plain_def structural_def isHeader_def))
  have s16: "covE ts c (parsePrimary (Suc n) ts c)" for c
    unfolding parsePrimary.simps
    by (intro rules; (assumption | simp add: plain_def structural_def isHeader_def))
  show ?case
    by (intro conjI allI; (rule s1 | rule s2 | rule s3 | rule s4 | rule s5 | rule s6 | rule s7 | rule s8 | rule s9 | rule s10 | rule s11 | rule s12 | rule s13 | rule s14 | rule s15 | rule s16))
qed

lemma parseExpression_plain: "covE ts c (parseExpression n ts c)"
  by (rule conjunct1 [OF expression_plain_aux, rule_format])

lemma skipNewlines_covers:
  "skipNewlines ts c0 = Inr c \<Longrightarrow> c0 \<le> c \<and> headersOk ts c0 c"
proof (induction ts c0 rule: skipNewlines.induct)
  case (1 ts cur)
  show ?case
  proof (cases "match Newline ts cur")
    case (Inl e)
    with "1.prems" show ?thesis by (subst (asm) skipNewlines.simps) simp
  next
    case (Inr r)
    obtain m c1 where r: "r = (m, c1)" by (cases r)
    show ?thesis
    proof (cases m)
      case False
      with "1.prems" Inr r match_Inr [OF Inr [unfolded r]] show ?thesis
        by (subst (asm) skipNewlines.simps) simp
    next
      case True
      with "1.prems" Inr r have rest: "skipNewlines ts c1 = Inr c"
        by (subst (asm) skipNewlines.simps) simp
      from match_Inr [OF Inr [unfolded r]] True
      have c1: "c1 = Suc cur" "ttype (ts ! cur) = Newline" by simp_all
      from True have mt: "m = True" by simp
      from "1.IH" [OF Inr [unfolded r] refl mt rest]
      have "c1 \<le> c" "headersOk ts c1 c" by simp_all
      moreover from c1 have "headersOk ts cur c1"
        by (auto simp: headersOk_def isHeader_def less_Suc_eq)
      ultimately show ?thesis using c1 by (auto intro: headersOk_trans)
    qed
  qed
qed

lemma expectNewline_covers:
  "expectNewline ctx ts c0 = Inr c \<Longrightarrow> c0 \<le> c \<and> headersOk ts c0 c"
proof -
  assume a: "expectNewline ctx ts c0 = Inr c"
  then obtain m c1 where m: "match Newline ts c0 = Inr (m, c1)"
    by (auto simp: expectNewline_def bindE_eq_Inr)
  show ?thesis
  proof (cases m)
    case True
    with a m have rest: "skipNewlines ts c1 = Inr c" by (simp add: expectNewline_def bindE_def)
    from match_Inr [OF m] True have c1: "c1 = Suc c0" "ttype (ts ! c0) = Newline" by simp_all
    then have "headersOk ts c0 c1" by (auto simp: headersOk_def isHeader_def less_Suc_eq)
    with skipNewlines_covers [OF rest] c1 show ?thesis by (auto intro: headersOk_trans)
  next
    case False
    with match_Inr [OF m] have "c1 = c0" by simp
    with a m False have "c = c0"
      by (auto simp: expectNewline_def bindE_eq_Inr split: if_splits)
    then show ?thesis by simp
  qed
qed

lemma parseTypeKeyword_plain: "covE ts c (parseTypeKeyword ctx ts c)"
  unfolding parseTypeKeyword_def
  by (intro covE_if covE_match; (assumption | simp add: plain_def structural_def isHeader_def))

lemma parseParenthesizedCondition_plain: "covE ts c (parseParenthesizedCondition n ctx ts c)"
  unfolding parseParenthesizedCondition_def
  by (intro covE_consume parseExpression_plain [THEN covE_call];
      (assumption | simp add: plain_def structural_def isHeader_def))

text \<open>Rules for the statement functions, outside a header.\<close>

lemma covS_match:
  assumes "a \<le> c0" and "headersOk ts a c0" and "\<not> isHeader ty"
    and "a \<le> Suc c0 \<Longrightarrow> headersOk ts a (Suc c0) \<Longrightarrow> covS ts a (A (Suc c0))"
    and "covS ts a (B c0)"
  shows "covS ts a (bindE (match ty ts c0) (\<lambda>(m, c). if m then A c else B c))"
proof (cases "match ty ts c0")
  case (Inl e)
  then show ?thesis by (simp add: bindE_def)
next
  case (Inr r)
  obtain m c where r: "r = (m, c)" by (cases r)
  from match_Inr [OF Inr [unfolded r]] assms headersOk_Suc [OF assms(2)] Inr r
  show ?thesis by (auto simp: bindE_def)
qed

lemma covS_consume:
  assumes "a \<le> c0" and "headersOk ts a c0" and "\<not> isHeader ty"
    and "\<And>t. a \<le> Suc c0 \<Longrightarrow> headersOk ts a (Suc c0) \<Longrightarrow> covS ts a (g t (Suc c0))"
  shows "covS ts a (bindE (consume ty msg ts c0) (case_prod g))"
proof (cases "consume ty msg ts c0")
  case (Inl e)
  then show ?thesis by (simp add: bindE_def)
next
  case (Inr r)
  obtain t c where r: "r = (t, c)" by (cases r)
  from consume_Inr [OF Inr [unfolded r]] assms headersOk_Suc [OF assms(2)] Inr r
  show ?thesis by (auto simp: bindE_def)
qed

lemma covS_advance:
  assumes "a \<le> c0" and "headersOk ts a c0" and "\<not> isHeader (ttype (ts ! c0))"
    and "\<And>t c. a \<le> c \<Longrightarrow> headersOk ts a c \<Longrightarrow> covS ts a (g t c)"
  shows "covS ts a (bindE (advance ts c0) (case_prod g))"
proof (cases "advance ts c0")
  case (Inl e)
  then show ?thesis by (simp add: bindE_def)
next
  case (Inr r)
  obtain t c where r: "r = (t, c)" by (cases r)
  from advance_Inr [OF Inr [unfolded r]] assms(1,2) headersOk_Suc [OF assms(2,3)]
  have "a \<le> c" "headersOk ts a c" by auto
  from assms(4) [OF this] Inr r show ?thesis by (simp add: bindE_def)
qed

lemma covS_check: "(\<And>b. covS ts a (g b)) \<Longrightarrow> covS ts a (bindE (check ty ts c) g)"
  by (cases "check ty ts c") (auto simp: bindE_def)

lemma covS_isAtEnd: "(\<And>b. covS ts a (g b)) \<Longrightarrow> covS ts a (bindE (isAtEnd ts c) g)"
  by (cases "isAtEnd ts c") (auto simp: bindE_def)

lemma covS_peek: "covS ts a (g (ts ! c)) \<Longrightarrow> covS ts a (bindE (peek ts c) g)"
  by (auto simp: peek_def bindE_def)

lemma covS_skipNewlines:
  assumes "a \<le> c0" and "headersOk ts a c0"
    and "\<And>c. a \<le> c \<Longrightarrow> headersOk ts a c \<Longrightarrow> covS ts a (g c)"
  shows "covS ts a (bindE (skipNewlines ts c0) g)"
proof (cases "skipNewlines ts c0")
  case (Inl e)
  then show ?thesis by (simp add: bindE_def)
next
  case (Inr c)
  from skipNewlines_covers [OF Inr] assms(1,2) have "a \<le> c" "headersOk ts a c"
    by (auto intro: headersOk_trans)
  from assms(3) [OF this] Inr show ?thesis by (simp add: bindE_def)
qed

lemma covS_expectNewline:
  assumes "a \<le> c0" and "headersOk ts a c0"
    and "\<And>c. a \<le> c \<Longrightarrow> headersOk ts a c \<Longrightarrow> covS ts a (g c)"
  shows "covS ts a (bindE (expectNewline ctx ts c0) g)"
proof (cases "expectNewline ctx ts c0")
  case (Inl e)
  then show ?thesis by (simp add: bindE_def)
next
  case (Inr c)
  from expectNewline_covers [OF Inr] assms(1,2) have "a \<le> c" "headersOk ts a c"
    by (auto intro: headersOk_trans)
  from assms(3) [OF this] Inr show ?thesis by (simp add: bindE_def)
qed

lemma covS_callE:
  assumes "covE ts c0 m" and "a \<le> c0" and "headersOk ts a c0"
    and "\<And>x c. a \<le> c \<Longrightarrow> headersOk ts a c \<Longrightarrow> covS ts a (g x c)"
  shows "covS ts a (bindE m (case_prod g))"
proof (cases m)
  case (Inl e)
  then show ?thesis by (simp add: bindE_def)
next
  case (Inr r)
  obtain x c where r: "r = (x, c)" by (cases r)
  with Inr assms(1) have "c0 \<le> c" "exprRange ts c0 c" by (simp_all add: covE_def)
  with assms(2,3) have "a \<le> c" "headersOk ts a c"
    by (auto intro: headersOk_trans exprRange_headersOk)
  from assms(4) [OF this] Inr r show ?thesis by (simp add: bindE_def)
qed

lemma covS_call:
  assumes "covS ts c0 m" and "a \<le> c0" and "headersOk ts a c0"
    and "\<And>x c. a \<le> c \<Longrightarrow> headersOk ts a c \<Longrightarrow> covS ts a (g x c)"
  shows "covS ts a (bindE m (case_prod g))"
proof (cases m)
  case (Inl e)
  then show ?thesis by (simp add: bindE_def)
next
  case (Inr r)
  obtain x c where r: "r = (x, c)" by (cases r)
  with Inr assms(1) have "c0 \<le> c" "headersOk ts c0 c" by (simp_all add: covS_def)
  with assms(2,3) have "a \<le> c" "headersOk ts a c" by (auto intro: headersOk_trans)
  from assms(4) [OF this] Inr r show ?thesis by (simp add: bindE_def)
qed

lemma covS_mono:
  "covS ts c r \<Longrightarrow> a \<le> c \<Longrightarrow> headersOk ts a c \<Longrightarrow> covS ts a r"
  by (auto simp: covS_def intro: headersOk_trans)

lemma covE_covS: "covE ts a r \<Longrightarrow> covS ts a r"
  by (auto simp: covE_def covS_def intro: exprRange_headersOk)

text \<open>
  Rules for a header: the keyword at \<open>h\<close> has been read, the tokens after it up to the
  current position are plain, and the keyword is accounted for when the block after the
  header has been parsed.
\<close>

lemma covS_hdr_advance:
  assumes "ttype (ts ! h) \<noteq> EndOfFile"
    and "\<And>t. h \<le> h \<Longrightarrow> headersOk ts h h \<Longrightarrow> h < Suc h \<Longrightarrow> exprRange ts (Suc h) (Suc h)
           \<Longrightarrow> covS ts h (g t (Suc h))"
  shows "covS ts h (bindE (advance ts h) (case_prod g))"
proof (cases "advance ts h")
  case (Inl e)
  then show ?thesis by (simp add: bindE_def)
next
  case (Inr r)
  obtain t c where r: "r = (t, c)" by (cases r)
  from advance_Inr [OF Inr [unfolded r]] assms(1) have "c = Suc h" by simp
  with assms(2) [of t] Inr r show ?thesis by (simp add: bindE_def)
qed

lemma covS_hdr_match:
  assumes "a \<le> h" and "headersOk ts a h"
    and "a \<le> h \<Longrightarrow> headersOk ts a h \<Longrightarrow> h < Suc h \<Longrightarrow> exprRange ts (Suc h) (Suc h)
           \<Longrightarrow> covS ts a (A (Suc h))"
    and "covS ts a (B h)"
  shows "covS ts a (bindE (match ty ts h) (\<lambda>(m, c). if m then A c else B c))"
proof (cases "match ty ts h")
  case (Inl e)
  then show ?thesis by (simp add: bindE_def)
next
  case (Inr r)
  obtain m c where r: "r = (m, c)" by (cases r)
  from match_Inr [OF Inr [unfolded r]] assms Inr r
  show ?thesis by (auto simp: bindE_def)
qed

lemma covS_hdr_consume:
  assumes "a \<le> h" and "headersOk ts a h" and "h < c0" and "exprRange ts (Suc h) c0" and "plain ty"
    and "\<And>t. a \<le> h \<Longrightarrow> headersOk ts a h \<Longrightarrow> h < Suc c0 \<Longrightarrow> exprRange ts (Suc h) (Suc c0)
           \<Longrightarrow> covS ts a (g t (Suc c0))"
  shows "covS ts a (bindE (consume ty msg ts c0) (case_prod g))"
proof (cases "consume ty msg ts c0")
  case (Inl e)
  then show ?thesis by (simp add: bindE_def)
next
  case (Inr r)
  obtain t c where r: "r = (t, c)" by (cases r)
  from consume_Inr [OF Inr [unfolded r]] assms(5) exprRange_Suc [OF assms(4)]
  have "c = Suc c0" "exprRange ts (Suc h) (Suc c0)" by auto
  with assms(6) [OF assms(1,2), of t] assms(3) Inr r show ?thesis by (simp add: bindE_def)
qed

lemma covS_hdr_callE:
  assumes "covE ts c0 m"
    and "a \<le> h" and "headersOk ts a h" and "h < c0" and "exprRange ts (Suc h) c0"
    and "\<And>x c. a \<le> h \<Longrightarrow> headersOk ts a h \<Longrightarrow> h < c \<Longrightarrow> exprRange ts (Suc h) c
           \<Longrightarrow> covS ts a (g x c)"
  shows "covS ts a (bindE m (case_prod g))"
proof (cases m)
  case (Inl e)
  then show ?thesis by (simp add: bindE_def)
next
  case (Inr r)
  obtain x c where r: "r = (x, c)" by (cases r)
  with Inr assms(1) have "c0 \<le> c" "exprRange ts c0 c" by (simp_all add: covE_def)
  with assms(4,5) have "h < c" "exprRange ts (Suc h) c" by (auto intro: exprRange_trans)
  from assms(6) [OF assms(2,3) this] Inr r show ?thesis by (simp add: bindE_def)
qed

lemma parseIndentedBlock_start:
  "parseIndentedBlock n ctx ts c = Inr (body, c') \<Longrightarrow>
     ttype (ts ! c) = Newline \<and> ttype (ts ! Suc c) = Indent \<and> Suc c < length ts"
  by (cases n) (auto simp: bindE_eq_Inr dest!: consume_Inr)

lemma covS_hdr_block:
  assumes "covS ts c0 (parseIndentedBlock n ctx ts c0)"
    and "a \<le> h" and "headersOk ts a h" and "h < c0" and "exprRange ts (Suc h) c0"
    and "\<And>x c. a \<le> c \<Longrightarrow> headersOk ts a c \<Longrightarrow> covS ts a (g x c)"
  shows "covS ts a (bindE (parseIndentedBlock n ctx ts c0) (case_prod g))"
proof (cases "parseIndentedBlock n ctx ts c0")
  case (Inl e)
  then show ?thesis by (simp add: bindE_def)
next
  case (Inr r)
  obtain x c where r: "r = (x, c)" by (cases r)
  with Inr assms(1) have le: "c0 \<le> c" and blk: "headersOk ts c0 c" by (simp_all add: covS_def)
  from parseIndentedBlock_start [OF Inr [unfolded r]]
  have "ttype (ts ! c0) = Newline" "ttype (ts ! Suc c0) = Indent" "Suc c0 < length ts" by simp_all
  from blockStartsI [OF assms(5,4) this(3,1,2)] have bf: "blockStarts ts h" .
  have "headersOk ts h c0"
    unfolding headersOk_def
  proof (intro allI impI)
    fix i assume i: "h \<le> i \<and> i < c0 \<and> isHeader (ttype (ts ! i))"
    show "blockStarts ts i"
    proof (cases "i = h")
      case True
      with bf show ?thesis by simp
    next
      case False
      with i assms(5) have "plain (ttype (ts ! i))" by (auto simp: exprRange_def)
      with i show ?thesis by (simp add: plain_def)
    qed
  qed
  with assms(3) blk have "headersOk ts a c" by (blast intro: headersOk_trans)
  moreover from assms(2,4) le have "a \<le> c" by simp
  ultimately show ?thesis using assms(6) Inr r by (simp add: bindE_def)
qed

lemma simple_statements_cover:
  assumes "\<not> isHeader (ttype (ts ! c))"
  shows "covS ts c (parseVarDecl n ts c)"
    and "covS ts c (parseAssignment n ts c)"
    and "covS ts c (parseInput ts c)"
    and "covS ts c (parseOutput n ts c)"
proof -
  note rules = covS_if covS_advance covS_consume covS_match covS_expectNewline
    parseExpression_plain [THEN covS_callE]
  show "covS ts c (parseVarDecl n ts c)"
    using assms unfolding parseVarDecl_def Let_def bindE_if bindE_Inr_pair
    by (intro rules; (assumption | simp add: isHeader_def))
  show "covS ts c (parseAssignment n ts c)"
    using assms unfolding parseAssignment_def
    by (intro rules; (assumption | simp add: isHeader_def))
  show "covS ts c (parseInput ts c)"
    using assms unfolding parseInput_def
    by (intro rules; (assumption | simp add: isHeader_def))
  show "covS ts c (parseOutput n ts c)"
    using assms unfolding parseOutput_def
    by (intro rules; (assumption | simp add: isHeader_def))
qed

text \<open>
  Every header keyword that a statement function has consumed, when it returns, is
  followed by a block.
\<close>

lemma statement_cover_aux:
  "(\<forall>c. covS ts c (parseStatement n ts c))
   \<and> (\<forall>c. ttype (ts ! c) \<noteq> EndOfFile \<longrightarrow> covS ts c (parseIf n ts c))
   \<and> (\<forall>c bs. covS ts c (parseIfLoop n ts bs c))
   \<and> (\<forall>c. ttype (ts ! c) \<noteq> EndOfFile \<longrightarrow> covS ts c (parseWhile n ts c))
   \<and> (\<forall>c. ttype (ts ! c) \<noteq> EndOfFile \<longrightarrow> covS ts c (parseFor n ts c))
   \<and> (\<forall>c ctx. covS ts c (parseIndentedBlock n ctx ts c))
   \<and> (\<forall>c body. covS ts c (parseBlockLoop n ts body c))"
proof (induction n)
  case 0
  show ?case by simp
next
  case (Suc n)
  from Suc.IH
  have a1: "\<forall>c. covS ts c (parseStatement n ts c)"
    and a2: "\<forall>c. ttype (ts ! c) \<noteq> EndOfFile \<longrightarrow> covS ts c (parseIf n ts c)"
    and a3: "\<forall>c bs. covS ts c (parseIfLoop n ts bs c)"
    and a4: "\<forall>c. ttype (ts ! c) \<noteq> EndOfFile \<longrightarrow> covS ts c (parseWhile n ts c)"
    and a5: "\<forall>c. ttype (ts ! c) \<noteq> EndOfFile \<longrightarrow> covS ts c (parseFor n ts c)"
    and a6: "\<forall>c ctx. covS ts c (parseIndentedBlock n ctx ts c)"
    and a7: "\<forall>c body. covS ts c (parseBlockLoop n ts body c)"
    by simp_all
  note stmt = a1 [rule_format] and ifs = a2 [rule_format] and ifl = a3 [rule_format]
    and whl = a4 [rule_format] and forS = a5 [rule_format] and blk = a6 [rule_format]
    and lp = a7 [rule_format]
  note side = isHeader_def isTypeKeyword_def plain_def structural_def
  have s1: "covS ts c (parseStatement (Suc n) ts c)" for c
    unfolding parseStatement.simps
    by (intro covS_check covS_peek covS_if simple_statements_cover ifs whl forS;
        (assumption | auto simp: side))
  have s2: "covS ts c (parseIf (Suc n) ts c)" if "ttype (ts ! c) \<noteq> EndOfFile" for c
    using that unfolding parseIf.simps
    by (intro covS_hdr_advance parseParenthesizedCondition_plain [THEN covS_hdr_callE, where h = c]
          blk [THEN covS_hdr_block, where h = c] ifl [THEN covS_mono];
        (assumption | simp add: side))
  have s3: "covS ts c (parseIfLoop (Suc n) ts bs c)" for c bs
    unfolding parseIfLoop.simps
    by (intro covS_if covS_match [where ty = KeywordElse] covS_hdr_match [where ty = KeywordIf]
          parseParenthesizedCondition_plain [THEN covS_hdr_callE, where h = "Suc c"]
          covS_hdr_block [OF blk [of _ ctx_else_if], where h = "Suc c"]
          covS_call [OF blk [of _ ctx_else]] ifl [THEN covS_mono];
        (assumption | simp add: side))
  have s4: "covS ts c (parseWhile (Suc n) ts c)" if "ttype (ts ! c) \<noteq> EndOfFile" for c
    using that unfolding parseWhile.simps
    by (intro covS_hdr_advance parseParenthesizedCondition_plain [THEN covS_hdr_callE, where h = c]
          blk [THEN covS_hdr_block, where h = c];
        (assumption | simp add: side))
  have s5: "covS ts c (parseFor (Suc n) ts c)" if "ttype (ts ! c) \<noteq> EndOfFile" for c
    using that unfolding parseFor.simps
    by (intro covS_hdr_advance covS_hdr_consume [where h = c] parseTypeKeyword_plain [THEN covS_hdr_callE, where h = c]
          parseExpression_plain [THEN covS_hdr_callE, where h = c] blk [THEN covS_hdr_block, where h = c];
        (assumption | simp add: side))
  have s6: "covS ts c (parseIndentedBlock (Suc n) ctx ts c)" for c ctx
    unfolding parseIndentedBlock.simps
    by (intro covS_consume covS_skipNewlines lp [THEN covS_call];
        (assumption | simp add: side))
  have s7: "covS ts c (parseBlockLoop (Suc n) ts body c)" for c body
    unfolding parseBlockLoop.simps
    by (intro covS_check covS_if covS_isAtEnd stmt [THEN covS_call] covS_skipNewlines
          lp [THEN covS_mono];
        (assumption | simp add: side))
  show ?case
    by (intro conjI allI impI; (rule s1 | (rule s2, assumption) | rule s3 | (rule s4, assumption)
          | (rule s5, assumption) | rule s6 | rule s7))
qed

lemma parseStatement_covers: "covS ts c (parseStatement n ts c)"
  by (rule conjunct1 [OF statement_cover_aux, rule_format])

lemma parseProgramLoop_covers:
  "parseProgramLoop n ts stmts c0 = Inr p \<Longrightarrow> headersOk ts 0 c0 \<Longrightarrow>
     \<exists>c. c < length ts \<and> ttype (ts ! c) = EndOfFile \<and> headersOk ts 0 c"
proof (induction n arbitrary: stmts c0)
  case 0
  then show ?case by simp
next
  case (Suc n)
  from Suc.prems(1) obtain e where e: "isAtEnd ts c0 = Inr e" by (auto simp: bindE_eq_Inr)
  then have lt: "c0 < length ts" and ev: "e \<longleftrightarrow> ttype (ts ! c0) = EndOfFile"
    by (auto simp: isAtEnd_def peek_def bindE_def split: if_splits)
  show ?case
  proof (cases e)
    case True
    with lt ev Suc.prems(2) show ?thesis by blast
  next
    case False
    with Suc.prems(1) e obtain s c1 c2 where s: "parseStatement n ts c0 = Inr (s, c1)"
      and sk: "skipNewlines ts c1 = Inr c2"
      and r: "parseProgramLoop n ts (stmts @ [s]) c2 = Inr p"
      by (auto simp: bindE_def split: sum.splits)
    from parseStatement_covers [of ts c0 n] s have "headersOk ts c0 c1" by (simp add: covS_def)
    with Suc.prems(2) skipNewlines_covers [OF sk] have "headersOk ts 0 c2"
      by (blast intro: headersOk_trans)
    from Suc.IH [OF r this] show ?thesis .
  qed
qed

lemma parseProgram_covers:
  assumes "parseProgram ts = Inr p"
  shows "\<exists>c. c < length ts \<and> ttype (ts ! c) = EndOfFile \<and> headersOk ts 0 c"
proof -
  from assms obtain c0 where sk: "skipNewlines ts 0 = Inr c0"
    and r: "parseProgramLoop (parseFuel ts) ts [] c0 = Inr p"
    by (auto simp: parseProgram_def bindE_eq_Inr)
  from skipNewlines_covers [OF sk] have "headersOk ts 0 c0" by simp
  from parseProgramLoop_covers [OF r this] show ?thesis .
qed

subsection \<open>What \<^verbatim>\<open>parseIndentedBlock\<close> needs\<close>

text \<open>
  \<open>blocksNonEmpty\<close>: every body of an \<^verbatim>\<open>if\<close> branch, of an \<^verbatim>\<open>else\<close> that is present, of a
  \<^verbatim>\<open>while\<close> and of a \<^verbatim>\<open>for\<close> has at least one statement, at every depth.
\<close>

fun blocksNonEmpty :: "Statement \<Rightarrow> bool" and branchNonEmpty :: "Branch \<Rightarrow> bool" where
  "blocksNonEmpty (VarDeclStmt t n i) = True"
| "blocksNonEmpty (AssignStmt n v) = True"
| "blocksNonEmpty (InputStmt n) = True"
| "blocksNonEmpty (OutputStmt v) = True"
| "blocksNonEmpty (IfStmt branches elseBranch hasElse) =
     (list_all branchNonEmpty branches \<and> (hasElse \<longrightarrow> elseBranch \<noteq> []) \<and> list_all blocksNonEmpty elseBranch)"
| "blocksNonEmpty (WhileStmt c body) = (body \<noteq> [] \<and> list_all blocksNonEmpty body)"
| "blocksNonEmpty (ForRangeStmt t n a b body) = (body \<noteq> [] \<and> list_all blocksNonEmpty body)"
| "branchNonEmpty (Branch c body) = (body \<noteq> [] \<and> list_all blocksNonEmpty body)"

lemma check_Inr:
  "check ty ts cur = Inr b \<Longrightarrow>
     cur < length ts \<and> (b \<longleftrightarrow> ttype (ts ! cur) = ty \<and> ttype (ts ! cur) \<noteq> EndOfFile)"
  by (auto simp: check_def isAtEnd_def peek_def bindE_def split: if_splits)

lemma isAtEnd_Inr:
  "isAtEnd ts cur = Inr b \<Longrightarrow> cur < length ts \<and> (b \<longleftrightarrow> ttype (ts ! cur) = EndOfFile)"
  by (auto simp: isAtEnd_def peek_def bindE_def split: if_splits)

lemma match_other:
  "cur < length ts \<Longrightarrow> ttype (ts ! cur) \<noteq> ty \<Longrightarrow> match ty ts cur = Inr (False, cur)"
  by (auto simp: match_def check_def isAtEnd_def peek_def bindE_def)

lemma skipNewlines_other:
  "cur < length ts \<Longrightarrow> ttype (ts ! cur) \<noteq> Newline \<Longrightarrow> skipNewlines ts cur = Inr cur"
  by (subst skipNewlines.simps) (simp add: match_other)

lemma bindE_Inr:
  "bindE m f = Inr y \<Longrightarrow> \<exists>x. m = Inr x \<and> f x = Inr y"
  by (cases m) (auto simp: bindE_def)

text \<open>The loop of a block only appends to the statements it is given.\<close>

lemma parseBlockLoop_extends:
  "parseBlockLoop n ts body cur = Inr (body', c) \<Longrightarrow> \<exists>more. body' = body @ more"
proof (induction n arbitrary: body cur)
  case 0
  then show ?case by simp
next
  case (Suc n)
  note run = Suc.prems [unfolded parseBlockLoop.simps]
  from run obtain d where d: "check Dedent ts cur = Inr d" by (auto dest!: bindE_Inr)
  show ?case
  proof (cases d)
    case True
    with run d show ?thesis by (simp add: bindE_def)
  next
    case False
    with run d obtain e where e: "isAtEnd ts cur = Inr e" by (auto simp: bindE_def split: sum.splits)
    show ?thesis
    proof (cases e)
      case True
      with run d e \<open>\<not> d\<close> show ?thesis by (simp add: bindE_def)
    next
      case ne: False
      with run d e \<open>\<not> d\<close> obtain stmt c1 c2 where "parseStatement n ts cur = Inr (stmt, c1)"
        and "skipNewlines ts c1 = Inr c2"
        and "parseBlockLoop n ts (body @ [stmt]) c2 = Inr (body', c)"
        by (auto simp: bindE_def split: sum.splits)
      from Suc.IH [OF this(3)] show ?thesis by auto
    qed
  qed
qed

text \<open>
  On a token vector in which every \<^verbatim>\<open>INDENT\<close> is followed by the first token of a statement,
  a block that is parsed has at least one statement.
\<close>

lemma parseIndentedBlock_nonempty:
  assumes "parseIndentedBlock n ctx ts cur = Inr (body, c)" and "indentFollowed ts"
  shows "ttype (ts ! cur) = Newline \<and> ttype (ts ! Suc cur) = Indent \<and> body \<noteq> []"
proof (cases n)
  case 0
  with assms show ?thesis by simp
next
  case (Suc m)
  note run = assms(1) [unfolded Suc parseIndentedBlock.simps]
  from run obtain t1 c1 where c1: "consume Newline (msg_expect_line_after @ ctx) ts cur = Inr (t1, c1)"
    by (auto dest!: bindE_Inr)
  from consume_Inr [OF c1] have nl: "c1 = Suc cur" "ttype (ts ! cur) = Newline" by simp_all
  from run c1 obtain t2 c2 where c2: "consume Indent (msg_expect_indent_after @ ctx) ts c1 = Inr (t2, c2)"
    by (auto simp: bindE_def split: sum.splits)
  from consume_Inr [OF c2] nl have ind: "c2 = Suc (Suc cur)" "Suc cur < length ts" "ttype (ts ! Suc cur) = Indent"
    by simp_all
  from indentFollowed_nth [OF assms(2) ind(2,3)]
  have real: "Suc (Suc cur) < length ts" "\<not> structural (ttype (ts ! Suc (Suc cur)))" by simp_all
  then have skip: "skipNewlines ts c2 = Inr c2"
    using ind(1) by (auto simp: structural_def intro!: skipNewlines_other)
  from run c1 c2 skip obtain body1 c3 where loop: "parseBlockLoop m ts [] c2 = Inr (body1, c3)"
    and b: "body = body1"
    by (auto simp: bindE_def split: sum.splits)
  have "body1 \<noteq> []"
  proof (cases m)
    case 0
    with loop show ?thesis by simp
  next
    case (Suc k)
    from real ind(1) have "check Dedent ts c2 = Inr False" "isAtEnd ts c2 = Inr False"
      by (auto simp: check_def isAtEnd_def peek_def bindE_def structural_def)
    with loop [unfolded Suc parseBlockLoop.simps]
    obtain stmt c4 c5 where "parseBlockLoop k ts ([] @ [stmt]) c5 = Inr (body1, c3)"
      by (auto simp: bindE_def split: sum.splits)
    from parseBlockLoop_extends [OF this] show ?thesis by auto
  qed
  with nl ind b show ?thesis by simp
qed

lemma simple_statements_blocksNonEmpty:
  shows "parseVarDecl n ts cur = Inr (s, c) \<Longrightarrow> blocksNonEmpty s"
    and "parseAssignment n ts cur = Inr (s, c) \<Longrightarrow> blocksNonEmpty s"
    and "parseInput ts cur = Inr (s, c) \<Longrightarrow> blocksNonEmpty s"
    and "parseOutput n ts cur = Inr (s, c) \<Longrightarrow> blocksNonEmpty s"
  by (auto simp: parseVarDecl_def parseAssignment_def parseInput_def parseOutput_def Let_def bindE_eq_Inr)

lemma parse_blocksNonEmpty_aux:
  assumes fol: "indentFollowed ts"
  shows "(\<forall>cur s c. parseStatement n ts cur = Inr (s, c) \<longrightarrow> blocksNonEmpty s)
       \<and> (\<forall>cur s c. parseIf n ts cur = Inr (s, c) \<longrightarrow> blocksNonEmpty s)
       \<and> (\<forall>cur s c branches. parseIfLoop n ts branches cur = Inr (s, c) \<longrightarrow>
             list_all branchNonEmpty branches \<longrightarrow> blocksNonEmpty s)
       \<and> (\<forall>cur s c. parseWhile n ts cur = Inr (s, c) \<longrightarrow> blocksNonEmpty s)
       \<and> (\<forall>cur s c. parseFor n ts cur = Inr (s, c) \<longrightarrow> blocksNonEmpty s)
       \<and> (\<forall>cur ctx body c. parseIndentedBlock n ctx ts cur = Inr (body, c) \<longrightarrow>
             list_all blocksNonEmpty body)
       \<and> (\<forall>cur body0 body c. parseBlockLoop n ts body0 cur = Inr (body, c) \<longrightarrow>
             list_all blocksNonEmpty body0 \<longrightarrow> list_all blocksNonEmpty body)"
proof (induction n)
  case 0
  show ?case by simp
next
  case (Suc n)
  from Suc.IH
  have a1: "\<forall>cur s c. parseStatement n ts cur = Inr (s, c) \<longrightarrow> blocksNonEmpty s"
    and a2: "\<forall>cur s c. parseIf n ts cur = Inr (s, c) \<longrightarrow> blocksNonEmpty s"
    and a3: "\<forall>cur s c branches. parseIfLoop n ts branches cur = Inr (s, c) \<longrightarrow>
             list_all branchNonEmpty branches \<longrightarrow> blocksNonEmpty s"
    and a4: "\<forall>cur s c. parseWhile n ts cur = Inr (s, c) \<longrightarrow> blocksNonEmpty s"
    and a5: "\<forall>cur s c. parseFor n ts cur = Inr (s, c) \<longrightarrow> blocksNonEmpty s"
    and a6: "\<forall>cur ctx body c. parseIndentedBlock n ctx ts cur = Inr (body, c) \<longrightarrow>
             list_all blocksNonEmpty body"
    and a7: "\<forall>cur body0 body c. parseBlockLoop n ts body0 cur = Inr (body, c) \<longrightarrow>
             list_all blocksNonEmpty body0 \<longrightarrow> list_all blocksNonEmpty body"
    by simp_all
  note stmt = a1 [rule_format] and ifs = a2 [rule_format] and ifl = a3 [rule_format]
    and whl = a4 [rule_format] and forS = a5 [rule_format] and blk = a6 [rule_format]
    and lp = a7 [rule_format]
  note ne = parseIndentedBlock_nonempty [OF _ fol]
  have 1: "blocksNonEmpty s" if "parseStatement (Suc n) ts cur = Inr (s, c)" for cur s c
    using that
    by (auto simp: bindE_eq_Inr split: if_splits
        intro: simple_statements_blocksNonEmpty ifs whl forS)
  have 2: "blocksNonEmpty s" if "parseIf (Suc n) ts cur = Inr (s, c)" for cur s c
    using that by (auto simp: bindE_eq_Inr dest: blk ne intro!: ifl)
  have 3: "blocksNonEmpty s"
    if "parseIfLoop (Suc n) ts branches cur = Inr (s, c)" "list_all branchNonEmpty branches"
    for cur s c branches
  proof -
    have full: "body \<noteq> [] \<and> list_all blocksNonEmpty body"
      if "parseIndentedBlock n ctx ts cur = Inr (body, c)" for ctx cur body c
      using blk [OF that] ne [OF that] by simp
    from that show ?thesis
      by (auto simp: bindE_eq_Inr split: if_splits dest!: full elim: ifl)
  qed
  have 4: "blocksNonEmpty s" if "parseWhile (Suc n) ts cur = Inr (s, c)" for cur s c
    using that by (auto simp: bindE_eq_Inr dest: blk ne)
  have 5: "blocksNonEmpty s" if "parseFor (Suc n) ts cur = Inr (s, c)" for cur s c
    using that by (auto simp: bindE_eq_Inr dest: blk ne)
  have 6: "list_all blocksNonEmpty body"
    if "parseIndentedBlock (Suc n) ctx ts cur = Inr (body, c)" for cur ctx body c
    using that by (auto simp: bindE_eq_Inr dest: lp)
  have 7: "list_all blocksNonEmpty body"
    if "parseBlockLoop (Suc n) ts body0 cur = Inr (body, c)" "list_all blocksNonEmpty body0"
    for cur body0 body c
    using that by (auto simp: bindE_eq_Inr split: if_splits dest!: stmt elim: lp)
  show ?case
    by (intro conjI allI impI; (erule 1 2 4 5 6 | (erule 3 7, assumption)))
qed

definition programBlocksNonEmpty :: "Program \<Rightarrow> bool" where
  "programBlocksNonEmpty p = list_all blocksNonEmpty (statements p)"

lemma parseProgramLoop_blocksNonEmpty:
  "parseProgramLoop n ts stmts cur = Inr prog \<Longrightarrow> indentFollowed ts \<Longrightarrow>
     list_all blocksNonEmpty stmts \<Longrightarrow> programBlocksNonEmpty prog"
proof (induction n arbitrary: stmts cur)
  case 0
  then show ?case by simp
next
  case (Suc n)
  note stmt = conjunct1 [OF parse_blocksNonEmpty_aux [OF Suc.prems(2), of n], rule_format]
  from Suc.prems(1) obtain e where e: "isAtEnd ts cur = Inr e" by (auto simp: bindE_eq_Inr)
  show ?case
  proof (cases e)
    case True
    with Suc.prems(1,3) e show ?thesis by (auto simp: bindE_def programBlocksNonEmpty_def)
  next
    case False
    with Suc.prems(1) e obtain s c1 c2 where s: "parseStatement n ts cur = Inr (s, c1)"
      and r: "parseProgramLoop n ts (stmts @ [s]) c2 = Inr prog"
      by (auto simp: bindE_def split: sum.splits)
    from stmt [OF s] Suc.prems(3) have "list_all blocksNonEmpty (stmts @ [s])" by simp
    from Suc.IH [OF r Suc.prems(2) this] show ?thesis .
  qed
qed

lemma parseProgram_blocksNonEmpty:
  "parseProgram ts = Inr prog \<Longrightarrow> indentFollowed ts \<Longrightarrow> programBlocksNonEmpty prog"
  by (auto simp: parseProgram_def bindE_eq_Inr dest: parseProgramLoop_blocksNonEmpty)

subsection \<open>A header and its block\<close>

text \<open>
  \<open>blockFollows ts i\<close>: the first structural token after position \<open>i\<close> is a \<^verbatim>\<open>NEWLINE\<close>, the token
  after it is an \<^verbatim>\<open>INDENT\<close>, and the token after that is the first token of a statement, that
  is, not a structural one. For a header keyword at \<open>i\<close> this says that the line of the header
  is followed by a statement that is indented more. In a token vector of the lexer it is
  the same as \<open>blockStarts\<close>.
\<close>

definition blockFollows :: "Token list \<Rightarrow> nat \<Rightarrow> bool" where
  "blockFollows ts i =
     (case dropWhile (\<lambda>t. \<not> structural (ttype t)) (drop (Suc i) ts) of
        t # u # v # rest \<Rightarrow> ttype t = Newline \<and> ttype u = Indent \<and> \<not> structural (ttype v)
      | _ \<Rightarrow> False)"

lemma blockStarts_blockFollows:
  assumes "indentFollowed ts" and "blockStarts ts i"
  shows "blockFollows ts i"
proof -
  define k where "k = length (takeWhile (\<lambda>t. \<not> structural (ttype t)) (drop (Suc i) ts)) + Suc i"
  have dw: "dropWhile (\<lambda>t. \<not> structural (ttype t)) (drop (Suc i) ts) = drop k ts"
    by (simp add: dropWhile_eq_drop k_def)
  from assms(2) obtain t u rest where tu: "drop k ts = t # u # rest"
    and ty: "ttype t = Newline" "ttype u = Indent"
    by (auto simp: blockStarts_def dw split: list.splits)
  from arg_cong [OF tu, of length] have len: "Suc k < length ts" by simp
  from arg_cong [OF tu, of "\<lambda>xs. xs ! Suc 0"] len have u: "ts ! Suc k = u" by simp
  from arg_cong [OF tu, of "drop (Suc (Suc 0))"] have rest: "rest = drop (Suc (Suc k)) ts" by simp
  from indentFollowed_nth [OF assms(1) len] u ty(2)
  have nx: "Suc (Suc k) < length ts" "\<not> structural (ttype (ts ! Suc (Suc k)))" by simp_all
  from nx(1) rest have "rest = ts ! Suc (Suc k) # drop (Suc (Suc (Suc k))) ts"
    by (simp add: Cons_nth_drop_Suc)
  with tu ty nx(2) show ?thesis by (simp add: blockFollows_def dw)
qed

subsection \<open>A header without a block\<close>

text \<open>
  C5, as stated: every source in which a header line is followed by no statement that is
  indented more would fail with a \<^verbatim>\<open>ParserError\<close>. A lexical error after the header is
  reported first, as a \<^verbatim>\<open>LexerError\<close>: the \<^verbatim>\<open>while\<close> header below has no block, the next line is
  the unknown character \<^verbatim>\<open>@\<close>, and translation fails in the lexer.
\<close>

theorem empty_block_lexer_error_counterexample:
  "translate (kw_poka @ '' (x < 3)'' @ [CHR 0x0A] @ ''@'')
     = Inl (LexerError (msg_unknown_char @ ''@'' @ msg_on_line @ ''2:1''))
   \<and> (\<forall>msg. translate (kw_poka @ '' (x < 3)'' @ [CHR 0x0A] @ ''@'') \<noteq> Inl (ParserError msg))"
proof -
  have "translate (kw_poka @ '' (x < 3)'' @ [CHR 0x0A] @ ''@'')
     = Inl (LexerError (msg_unknown_char @ ''@'' @ msg_on_line @ ''2:1''))"
    by code_simp
  then show ?thesis by simp
qed

text \<open>
  C5, amended, for a source that the lexer accepts. Let \<open>ts\<close> be the tokens of the source. If some token
  of \<open>ts\<close> is the keyword of an \<^verbatim>\<open>if\<close>, \<^verbatim>\<open>while\<close> or \<^verbatim>\<open>for\<close> header and is not followed by a block
  (the line of the keyword does not end with a \<^verbatim>\<open>NEWLINE\<close> that is followed by \<^verbatim>\<open>INDENT\<close> and
  the first token of a statement), then \<^verbatim>\<open>parseProgram\<close> throws a \<^verbatim>\<open>ParserError\<close> and translation
  fails with it: nothing is generated. And in a program that is parsed, every body of a
  branch, of an \<^verbatim>\<open>else\<close> and of a loop has at least one statement.
\<close>

theorem empty_block_is_parser_error:
  assumes "tokenize src = Inr ts"
  shows "(i < length ts \<and> isHeader (ttype (ts ! i)) \<and> \<not> blockFollows ts i \<longrightarrow>
            (\<exists>msg. parseProgram ts = Inl (ParserError msg) \<and> translate src = Inl (ParserError msg)))
       \<and> (parseProgram ts = Inr prog \<longrightarrow> programBlocksNonEmpty prog)"
proof (intro conjI impI)
  note fol = tokenize_indentFollowed [OF assms]
  show "programBlocksNonEmpty prog" if "parseProgram ts = Inr prog"
    using that fol by (rule parseProgram_blocksNonEmpty)
  show "\<exists>msg. parseProgram ts = Inl (ParserError msg) \<and> translate src = Inl (ParserError msg)"
    if h: "i < length ts \<and> isHeader (ttype (ts ! i)) \<and> \<not> blockFollows ts i"
  proof -
    from tokenize_balanced_eof(2,3) [OF assms] have we: "wellEnded ts"
      by (simp add: wellEnded_def)
    have "parseProgram ts \<noteq> Inr p" for p
    proof
      assume p: "parseProgram ts = Inr p"
      from parseProgram_covers [OF p] obtain c where c: "c < length ts"
        "ttype (ts ! c) = EndOfFile" "headersOk ts 0 c" by blast
      from tokenize_eof_last [OF assms c(1,2)] have last: "Suc c = length ts" .
      from h c(2) have "i \<noteq> c" by (auto simp: isHeader_def)
      with h last have "i < c" by simp
      with c(3) h have "blockStarts ts i" by (simp add: headersOk_def)
      from blockStarts_blockFollows [OF fol this] h show False by simp
    qed
    with parseProgram_total [OF we] obtain msg where "parseProgram ts = Inl (ParserError msg)"
      by blast
    with assms show ?thesis by (simp add: translate_def bindE_def)
  qed
qed

text \<open>
  Four sources without a block, and one with a block. A \<^verbatim>\<open>while\<close> header at the end of the
  input; an \<^verbatim>\<open>if\<close> header followed by the line \<^verbatim>\<open>y = 1\<close> at the indentation of the header; a
  \<^verbatim>\<open>for\<close> header followed by the end of the input; an \<^verbatim>\<open>if\<close> header inside the block of a
  \<^verbatim>\<open>while\<close> (token 8) followed by a line indented less. Each is tokenized, and translation
  fails with the \<^verbatim>\<open>ParserError\<close> of the block of that header: "a new line is expected after
  ..." or "an indent is expected after ...". With the line \<^verbatim>\<open>y = 1\<close> indented by two spaces
  the \<^verbatim>\<open>while\<close> loop is parsed and its body is that assignment.
\<close>

theorem empty_block_is_parser_error_witness:
  "tokenize (kw_poka @ '' (x < 3)'') =
     Inr [Token KeywordWhile kw_poka 1 1, Token LeftParen [] 1 10, Token Identifier ''x'' 1 11,
          Token Less [] 1 13, Token IntegerLiteral ''3'' 1 15, Token RightParen [] 1 16,
          Token EndOfFile [] 1 17]
   \<and> \<not> blockFollows
        [Token KeywordWhile kw_poka 1 1, Token LeftParen [] 1 10, Token Identifier ''x'' 1 11,
         Token Less [] 1 13, Token IntegerLiteral ''3'' 1 15, Token RightParen [] 1 16,
         Token EndOfFile [] 1 17] 0
   \<and> (\<exists>msg. parseProgram
        [Token KeywordWhile kw_poka 1 1, Token LeftParen [] 1 10, Token Identifier ''x'' 1 11,
         Token Less [] 1 13, Token IntegerLiteral ''3'' 1 15, Token RightParen [] 1 16,
         Token EndOfFile [] 1 17] = Inl (ParserError msg)
       \<and> translate (kw_poka @ '' (x < 3)'') = Inl (ParserError msg))
   \<and> translate (kw_poka @ '' (x < 3)'') = Inl (ParserError (msg_expect_line_after @ ctx_while))
   \<and> tokenize (kw_esli @ '' (x < 3)'' @ [CHR 0x0A] @ ''y = 1'' @ [CHR 0x0A]) =
     Inr [Token KeywordIf kw_esli 1 1, Token LeftParen [] 1 10, Token Identifier ''x'' 1 11,
          Token Less [] 1 13, Token IntegerLiteral ''3'' 1 15, Token RightParen [] 1 16,
          Token Newline [] 1 17, Token Identifier ''y'' 2 1, Token Assign [] 2 3,
          Token IntegerLiteral ''1'' 2 5, Token Newline [] 2 6, Token EndOfFile [] 3 1]
   \<and> \<not> blockFollows
        [Token KeywordIf kw_esli 1 1, Token LeftParen [] 1 10, Token Identifier ''x'' 1 11,
         Token Less [] 1 13, Token IntegerLiteral ''3'' 1 15, Token RightParen [] 1 16,
         Token Newline [] 1 17, Token Identifier ''y'' 2 1, Token Assign [] 2 3,
         Token IntegerLiteral ''1'' 2 5, Token Newline [] 2 6, Token EndOfFile [] 3 1] 0
   \<and> (\<exists>msg. translate (kw_esli @ '' (x < 3)'' @ [CHR 0x0A] @ ''y = 1'' @ [CHR 0x0A])
               = Inl (ParserError msg))
   \<and> translate (kw_esli @ '' (x < 3)'' @ [CHR 0x0A] @ ''y = 1'' @ [CHR 0x0A])
       = Inl (ParserError (msg_expect_indent_after @ ctx_if))
   \<and> tokenize (kw_dlya @ '' ('' @ kw_celoe @ '' i '' @ kw_ot @ '' 0 '' @ kw_do @ '' 2)'' @ [CHR 0x0A]) =
     Inr [Token KeywordFor kw_dlya 1 1, Token LeftParen [] 1 8, Token KeywordInteger kw_celoe 1 9,
          Token Identifier ''i'' 1 20, Token KeywordFrom kw_ot 1 22, Token IntegerLiteral ''0'' 1 27,
          Token KeywordTo kw_do 1 29, Token IntegerLiteral ''2'' 1 34, Token RightParen [] 1 35,
          Token Newline [] 1 36, Token EndOfFile [] 2 1]
   \<and> \<not> blockFollows
        [Token KeywordFor kw_dlya 1 1, Token LeftParen [] 1 8, Token KeywordInteger kw_celoe 1 9,
         Token Identifier ''i'' 1 20, Token KeywordFrom kw_ot 1 22, Token IntegerLiteral ''0'' 1 27,
         Token KeywordTo kw_do 1 29, Token IntegerLiteral ''2'' 1 34, Token RightParen [] 1 35,
         Token Newline [] 1 36, Token EndOfFile [] 2 1] 0
   \<and> (\<exists>msg. translate (kw_dlya @ '' ('' @ kw_celoe @ '' i '' @ kw_ot @ '' 0 '' @ kw_do @ '' 2)'' @ [CHR 0x0A])
               = Inl (ParserError msg))
   \<and> translate (kw_dlya @ '' ('' @ kw_celoe @ '' i '' @ kw_ot @ '' 0 '' @ kw_do @ '' 2)'' @ [CHR 0x0A])
       = Inl (ParserError (msg_expect_indent_after @ ctx_for))
   \<and> tokenize (kw_poka @ '' (x < 3)'' @ [CHR 0x0A] @ ''  '' @ kw_esli @ '' (x < 2)'' @ [CHR 0x0A]
                @ ''y = 1'' @ [CHR 0x0A]) =
     Inr [Token KeywordWhile kw_poka 1 1, Token LeftParen [] 1 10, Token Identifier ''x'' 1 11,
          Token Less [] 1 13, Token IntegerLiteral ''3'' 1 15, Token RightParen [] 1 16,
          Token Newline [] 1 17, Token Indent [] 2 1, Token KeywordIf kw_esli 2 3,
          Token LeftParen [] 2 12, Token Identifier ''x'' 2 13, Token Less [] 2 15,
          Token IntegerLiteral ''2'' 2 17, Token RightParen [] 2 18, Token Newline [] 2 19,
          Token Dedent [] 3 1, Token Identifier ''y'' 3 1, Token Assign [] 3 3,
          Token IntegerLiteral ''1'' 3 5, Token Newline [] 3 6, Token EndOfFile [] 4 1]
   \<and> \<not> blockFollows
        [Token KeywordWhile kw_poka 1 1, Token LeftParen [] 1 10, Token Identifier ''x'' 1 11,
         Token Less [] 1 13, Token IntegerLiteral ''3'' 1 15, Token RightParen [] 1 16,
         Token Newline [] 1 17, Token Indent [] 2 1, Token KeywordIf kw_esli 2 3,
         Token LeftParen [] 2 12, Token Identifier ''x'' 2 13, Token Less [] 2 15,
         Token IntegerLiteral ''2'' 2 17, Token RightParen [] 2 18, Token Newline [] 2 19,
         Token Dedent [] 3 1, Token Identifier ''y'' 3 1, Token Assign [] 3 3,
         Token IntegerLiteral ''1'' 3 5, Token Newline [] 3 6, Token EndOfFile [] 4 1] 8
   \<and> (\<exists>msg. translate (kw_poka @ '' (x < 3)'' @ [CHR 0x0A] @ ''  '' @ kw_esli @ '' (x < 2)'' @ [CHR 0x0A]
                @ ''y = 1'' @ [CHR 0x0A]) = Inl (ParserError msg))
   \<and> translate (kw_poka @ '' (x < 3)'' @ [CHR 0x0A] @ ''  '' @ kw_esli @ '' (x < 2)'' @ [CHR 0x0A]
                @ ''y = 1'' @ [CHR 0x0A]) = Inl (ParserError (msg_expect_indent_after @ ctx_if))
   \<and> tokenize (kw_poka @ '' (x < 3)'' @ [CHR 0x0A] @ ''  y = 1'' @ [CHR 0x0A]) =
     Inr [Token KeywordWhile kw_poka 1 1, Token LeftParen [] 1 10, Token Identifier ''x'' 1 11,
          Token Less [] 1 13, Token IntegerLiteral ''3'' 1 15, Token RightParen [] 1 16,
          Token Newline [] 1 17, Token Indent [] 2 1, Token Identifier ''y'' 2 3,
          Token Assign [] 2 5, Token IntegerLiteral ''1'' 2 7, Token Newline [] 2 8,
          Token Dedent [] 3 1, Token EndOfFile [] 3 1]
   \<and> blockFollows
        [Token KeywordWhile kw_poka 1 1, Token LeftParen [] 1 10, Token Identifier ''x'' 1 11,
         Token Less [] 1 13, Token IntegerLiteral ''3'' 1 15, Token RightParen [] 1 16,
         Token Newline [] 1 17, Token Indent [] 2 1, Token Identifier ''y'' 2 3,
         Token Assign [] 2 5, Token IntegerLiteral ''1'' 2 7, Token Newline [] 2 8,
         Token Dedent [] 3 1, Token EndOfFile [] 3 1] 0
   \<and> parseProgram
        [Token KeywordWhile kw_poka 1 1, Token LeftParen [] 1 10, Token Identifier ''x'' 1 11,
         Token Less [] 1 13, Token IntegerLiteral ''3'' 1 15, Token RightParen [] 1 16,
         Token Newline [] 1 17, Token Indent [] 2 1, Token Identifier ''y'' 2 3,
         Token Assign [] 2 5, Token IntegerLiteral ''1'' 2 7, Token Newline [] 2 8,
         Token Dedent [] 3 1, Token EndOfFile [] 3 1]
       = Inr (Program [WhileStmt
                (Some (BinaryExpr ''<'' (Some (VariableExpr ''x''))
                   (Some (LiteralExpr Integer ''3'' False))))
                [AssignStmt ''y'' (Some (LiteralExpr Integer ''1'' False))]])
   \<and> programBlocksNonEmpty (Program [WhileStmt
                (Some (BinaryExpr ''<'' (Some (VariableExpr ''x''))
                   (Some (LiteralExpr Integer ''3'' False))))
                [AssignStmt ''y'' (Some (LiteralExpr Integer ''1'' False))]])"
proof -
  let ?a = "kw_poka @ '' (x < 3)''"
  let ?ta = "[Token KeywordWhile kw_poka 1 1, Token LeftParen [] 1 10, Token Identifier ''x'' 1 11,
          Token Less [] 1 13, Token IntegerLiteral ''3'' 1 15, Token RightParen [] 1 16,
          Token EndOfFile [] 1 17]"
  let ?b = "kw_esli @ '' (x < 3)'' @ [CHR 0x0A] @ ''y = 1'' @ [CHR 0x0A]"
  let ?tb = "[Token KeywordIf kw_esli 1 1, Token LeftParen [] 1 10, Token Identifier ''x'' 1 11,
          Token Less [] 1 13, Token IntegerLiteral ''3'' 1 15, Token RightParen [] 1 16,
          Token Newline [] 1 17, Token Identifier ''y'' 2 1, Token Assign [] 2 3,
          Token IntegerLiteral ''1'' 2 5, Token Newline [] 2 6, Token EndOfFile [] 3 1]"
  let ?c = "kw_dlya @ '' ('' @ kw_celoe @ '' i '' @ kw_ot @ '' 0 '' @ kw_do @ '' 2)'' @ [CHR 0x0A]"
  let ?tc = "[Token KeywordFor kw_dlya 1 1, Token LeftParen [] 1 8, Token KeywordInteger kw_celoe 1 9,
          Token Identifier ''i'' 1 20, Token KeywordFrom kw_ot 1 22, Token IntegerLiteral ''0'' 1 27,
          Token KeywordTo kw_do 1 29, Token IntegerLiteral ''2'' 1 34, Token RightParen [] 1 35,
          Token Newline [] 1 36, Token EndOfFile [] 2 1]"
  let ?g = "kw_poka @ '' (x < 3)'' @ [CHR 0x0A] @ ''  '' @ kw_esli @ '' (x < 2)'' @ [CHR 0x0A]
                @ ''y = 1'' @ [CHR 0x0A]"
  let ?tg = "[Token KeywordWhile kw_poka 1 1, Token LeftParen [] 1 10, Token Identifier ''x'' 1 11,
          Token Less [] 1 13, Token IntegerLiteral ''3'' 1 15, Token RightParen [] 1 16,
          Token Newline [] 1 17, Token Indent [] 2 1, Token KeywordIf kw_esli 2 3,
          Token LeftParen [] 2 12, Token Identifier ''x'' 2 13, Token Less [] 2 15,
          Token IntegerLiteral ''2'' 2 17, Token RightParen [] 2 18, Token Newline [] 2 19,
          Token Dedent [] 3 1, Token Identifier ''y'' 3 1, Token Assign [] 3 3,
          Token IntegerLiteral ''1'' 3 5, Token Newline [] 3 6, Token EndOfFile [] 4 1]"
  let ?d = "kw_poka @ '' (x < 3)'' @ [CHR 0x0A] @ ''  y = 1'' @ [CHR 0x0A]"
  let ?td = "[Token KeywordWhile kw_poka 1 1, Token LeftParen [] 1 10, Token Identifier ''x'' 1 11,
          Token Less [] 1 13, Token IntegerLiteral ''3'' 1 15, Token RightParen [] 1 16,
          Token Newline [] 1 17, Token Indent [] 2 1, Token Identifier ''y'' 2 3,
          Token Assign [] 2 5, Token IntegerLiteral ''1'' 2 7, Token Newline [] 2 8,
          Token Dedent [] 3 1, Token EndOfFile [] 3 1]"
  let ?p = "Program [WhileStmt
                (Some (BinaryExpr ''<'' (Some (VariableExpr ''x''))
                   (Some (LiteralExpr Integer ''3'' False))))
                [AssignStmt ''y'' (Some (LiteralExpr Integer ''1'' False))]]"
  have ta: "tokenize ?a = Inr ?ta" by code_simp
  have tb: "tokenize ?b = Inr ?tb" by code_simp
  have tc: "tokenize ?c = Inr ?tc" by code_simp
  have tg: "tokenize ?g = Inr ?tg" by code_simp
  have td: "tokenize ?d = Inr ?td" by code_simp
  have na: "\<not> blockFollows ?ta 0" by code_simp
  have nb: "\<not> blockFollows ?tb 0" by code_simp
  have nc: "\<not> blockFollows ?tc 0" by code_simp
  have ng: "\<not> blockFollows ?tg 8" by code_simp
  have yd: "blockFollows ?td 0" by code_simp
  have ha: "0 < length ?ta \<and> isHeader (ttype (?ta ! 0))" by (simp add: isHeader_def)
  have hb: "0 < length ?tb \<and> isHeader (ttype (?tb ! 0))" by (simp add: isHeader_def)
  have hc: "0 < length ?tc \<and> isHeader (ttype (?tc ! 0))" by (simp add: isHeader_def)
  have hg: "8 < length ?tg \<and> isHeader (ttype (?tg ! 8))" by (simp add: isHeader_def)
  have pd: "parseProgram ?td = Inr ?p" by code_simp
  have ra: "translate ?a = Inl (ParserError (msg_expect_line_after @ ctx_while))" by code_simp
  have rb: "translate ?b = Inl (ParserError (msg_expect_indent_after @ ctx_if))" by code_simp
  have rc: "translate ?c = Inl (ParserError (msg_expect_indent_after @ ctx_for))" by code_simp
  have rg: "translate ?g = Inl (ParserError (msg_expect_indent_after @ ctx_if))" by code_simp
  from empty_block_is_parser_error [OF ta, where i = 0] ha na
  have ea: "\<exists>msg. parseProgram ?ta = Inl (ParserError msg) \<and> translate ?a = Inl (ParserError msg)"
    by blast
  from empty_block_is_parser_error [OF tb, where i = 0] hb nb
  have eb: "\<exists>msg. translate ?b = Inl (ParserError msg)" by blast
  from empty_block_is_parser_error [OF tc, where i = 0] hc nc
  have ec: "\<exists>msg. translate ?c = Inl (ParserError msg)" by blast
  from empty_block_is_parser_error [OF tg, where i = 8] hg ng
  have eg: "\<exists>msg. translate ?g = Inl (ParserError msg)" by blast
  from empty_block_is_parser_error [OF td, where prog = ?p] pd
  have ed: "programBlocksNonEmpty ?p" by blast
  from ta na ea ra tb nb eb rb tc nc ec rc tg ng eg rg td yd pd ed show ?thesis by (intro conjI)
qed

end
